(* ===== verification/Linqu_Prelude.thy ===== *)
theory Linqu_Prelude
  imports Main "HOL-Library.Word"
begin

text \<open>
  Shared vocabulary of the development: the error type that stands for every way the C++ code can
  stop working (a failed \<^verbatim>\<open>assert\<close>, an access outside a vector, a signed overflow, a loop that
  never ends, a mutex locked twice by one thread, an empty pointer, a promise set twice), the result monad over it, the fold that the
  pointer-chain loops turn into, vector resizing, big-endian byte encoding, decimal printing,
  and the lemma collections the component theories add to.
\<close>

section \<open>Failures and results\<close>

datatype linqu_error =
    AssertFail        \<comment> \<open>an \<^verbatim>\<open>assert\<close> of the source is false\<close>
  | OutOfBounds       \<comment> \<open>a read or write outside a vector or a byte buffer\<close>
  | Diverges          \<comment> \<open>a \<^verbatim>\<open>while\<close> loop of the source never ends\<close>
  | SignedOverflow    \<comment> \<open>an \<^verbatim>\<open>int32_t\<close> is incremented past its largest value\<close>
  | SelfDeadlock      \<comment> \<open>a thread locks a \<^verbatim>\<open>std::mutex\<close> it already holds\<close>
  | NullDeref         \<comment> \<open>an empty \<^verbatim>\<open>shared_ptr\<close> is dereferenced\<close>
  | PromiseSatisfied  \<comment> \<open>\<^verbatim>\<open>set_value\<close> on a promise that has its value: \<^verbatim>\<open>std::future_error\<close>\<close>

type_synonym 'a res = "linqu_error + 'a"

definition bindR :: "'a res \<Rightarrow> ('a \<Rightarrow> 'b res) \<Rightarrow> 'b res" where
  "bindR m f = (case m of Inl e \<Rightarrow> Inl e | Inr x \<Rightarrow> f x)"

definition assertR :: "bool \<Rightarrow> unit res" where
  "assertR b = (if b then Inr () else Inl AssertFail)"

fun foldR :: "('x \<Rightarrow> 's \<Rightarrow> 's res) \<Rightarrow> 'x list \<Rightarrow> 's \<Rightarrow> 's res" where
  "foldR f [] s = Inr s"
| "foldR f (x # xs) s = bindR (f x s) (foldR f xs)"

named_theorems wf_intros "well-formedness is kept by an operation"
named_theorems frame_simps "what an operation leaves unchanged"
named_theorems res_simps "evaluation of the result monad"

lemma bindR_simps [simp, res_simps]:
  "bindR (Inl e) f = Inl e"
  "bindR (Inr x) f = f x"
  by (simp_all add: bindR_def)

lemma bindR_Inr_iff: "bindR m f = Inr y \<longleftrightarrow> (\<exists>x. m = Inr x \<and> f x = Inr y)"
  by (cases m) auto

lemma bindR_InrE:
  assumes "bindR m f = Inr y"
  obtains x where "m = Inr x" "f x = Inr y"
  using assms by (auto simp: bindR_Inr_iff)

lemma assertR_simps [simp, res_simps]:
  "assertR True = Inr ()"
  "assertR False = Inl AssertFail"
  "assertR b = Inr u \<longleftrightarrow> b"
  by (simp_all add: assertR_def)

lemma foldR_append: "foldR f (xs @ ys) s = bindR (foldR f xs s) (foldR f ys)"
proof (induction xs arbitrary: s)
  case Nil
  then show ?case by simp
next
  case (Cons x xs)
  then show ?case by (cases "f x s") auto
qed

lemma foldR_invariant:
  assumes "foldR f xs s = Inr s'" and "P s"
    and "\<And>x s s'. x \<in> set xs \<Longrightarrow> P s \<Longrightarrow> f x s = Inr s' \<Longrightarrow> P s'"
  shows "P s'"
  using assms
proof (induction xs arbitrary: s)
  case Nil
  then show ?case by simp
next
  case (Cons x xs)
  from Cons.prems(1) obtain t where t: "f x s = Inr t" "foldR f xs t = Inr s'"
    by (auto elim: bindR_InrE)
  have "P t" using Cons.prems(2,3) t(1) by auto
  with t(2) Cons.prems(3) show ?case by (intro Cons.IH) auto
qed

lemma foldR_total:
  assumes "P s" and "\<And>x s. x \<in> set xs \<Longrightarrow> P s \<Longrightarrow> \<exists>s'. f x s = Inr s' \<and> P s'"
  shows "\<exists>s'. foldR f xs s = Inr s' \<and> P s'"
  using assms
proof (induction xs arbitrary: s)
  case Nil
  then show ?case by simp
next
  case (Cons x xs)
  from Cons.prems obtain t where t: "f x s = Inr t" "P t"
    by (meson list.set_intros(1))
  have "\<exists>s'. foldR f xs t = Inr s' \<and> P s'"
    using t(2) Cons.prems(2) by (intro Cons.IH) auto
  with t(1) show ?case by simp
qed

section \<open>Machine types and vectors\<close>

type_synonym u8 = "8 word"
type_synonym u16 = "16 word"
type_synonym u32 = "32 word"
type_synonym u64 = "64 word"
type_synonym byte = u8
type_synonym i32 = int \<comment> \<open>\<^verbatim>\<open>int32_t\<close>; an increment past \<^verbatim>\<open>INT32_MAX\<close> is \<open>SignedOverflow\<close>\<close>

abbreviation INT32_MAX :: int where
  "INT32_MAX \<equiv> 2147483647"

definition inc_i32 :: "i32 \<Rightarrow> i32 res" where
  "inc_i32 x = (if x < INT32_MAX then Inr (x + 1) else Inl SignedOverflow)"

definition vec_at :: "'a list \<Rightarrow> int \<Rightarrow> 'a res" where
  "vec_at xs i = (if 0 \<le> i \<and> i < int (length xs) then Inr (xs ! nat i) else Inl OutOfBounds)"

definition vec_put :: "'a list \<Rightarrow> int \<Rightarrow> 'a \<Rightarrow> 'a list res" where
  "vec_put xs i v =
     (if 0 \<le> i \<and> i < int (length xs) then Inr (xs[nat i := v]) else Inl OutOfBounds)"

definition vec_resize :: "'a list \<Rightarrow> nat \<Rightarrow> 'a \<Rightarrow> 'a list" where
  "vec_resize xs n v = take n xs @ replicate (n - length xs) v"

lemma length_vec_resize [simp]: "length (vec_resize xs n v) = n"
  by (simp add: vec_resize_def)

lemma vec_at_Inr_iff: "vec_at xs i = Inr x \<longleftrightarrow> 0 \<le> i \<and> i < int (length xs) \<and> x = xs ! nat i"
  by (auto simp: vec_at_def)

lemma vec_at_in_range [simp]: "0 \<le> i \<Longrightarrow> i < int (length xs) \<Longrightarrow> vec_at xs i = Inr (xs ! nat i)"
  by (simp add: vec_at_def)

lemma vec_put_Inr_iff:
  "vec_put xs i v = Inr ys \<longleftrightarrow> 0 \<le> i \<and> i < int (length xs) \<and> ys = xs[nat i := v]"
  by (auto simp: vec_put_def)

lemma vec_put_in_range [simp]:
  "0 \<le> i \<Longrightarrow> i < int (length xs) \<Longrightarrow> vec_put xs i v = Inr (xs[nat i := v])"
  by (simp add: vec_put_def)

lemma nth_update_notin: "x \<in> S \<Longrightarrow> i \<notin> S \<Longrightarrow> xs[i := v] ! x = xs ! x"
  by (metis nth_list_update_neq)

lemma nat_eq_iff_pos: "0 \<le> i \<Longrightarrow> 0 \<le> j \<Longrightarrow> nat i = nat j \<longleftrightarrow> i = j"
  by auto

section \<open>Powers of two\<close>

text \<open>
  The rings and the tensor map require a capacity \<open>w\<close> with \<^verbatim>\<open>w & (w - 1)\<close> equal to 0 and index
  with \<^verbatim>\<open>id & (w - 1)\<close>; that is reduction modulo \<open>w\<close>.
\<close>

unbundle bit_operations_syntax

lemma take_bit_lt_mask_int: "0 \<le> k \<Longrightarrow> k < 2 ^ n \<Longrightarrow> take_bit n k = (k :: int)"
  by (simp add: take_bit_int_eq_self)

lemma pow2_of_and_pred:
  assumes "0 < w" "w AND (w - 1) = (0 :: int)"
  shows "\<exists>n. w = 2 ^ n"
  using assms
proof (induction "nat w" arbitrary: w rule: less_induct)
  case less
  show ?case
  proof (cases "even w")
    case False
    then obtain v where v: "w = 2 * v + 1" by (auto elim: oddE)
    have "w AND (w - 1) = 2 * v"
      unfolding v by (subst and_int_rec) simp
    with less.prems v have "w = 2 ^ 0" by simp
    then show ?thesis by blast
  next
    case True
    then obtain v where v: "w = 2 * v" by (auto elim: evenE)
    have "(2 * v - 1) div 2 = v - 1" by simp
    then have "w AND (w - 1) = 2 * (v AND (v - 1))"
      unfolding v by (subst and_int_rec) (simp del: div_mult_self1_is_m)
    with less.prems v have "v AND (v - 1) = 0" "0 < v" "nat v < nat w" by auto
    then obtain n where "v = 2 ^ n" using less.hyps by blast
    with v have "w = 2 ^ Suc n" by simp
    then show ?thesis by blast
  qed
qed

lemma and_pred_is_mod:
  assumes "0 < w" "w AND (w - 1) = (0 :: int)"
  shows "i AND (w - 1) = i mod w"
proof -
  from pow2_of_and_pred [OF assms] obtain n where n: "w = 2 ^ n" by blast
  then have "w - 1 = mask n" by (simp add: mask_eq_exp_minus_1)
  then show ?thesis using n by (simp add: take_bit_eq_mask [symmetric] take_bit_eq_mod)
qed

section \<open>Big-endian encoding\<close>

text \<open>
  \<^verbatim>\<open>htonl\<close>, \<^verbatim>\<open>htons\<close> and \<^verbatim>\<open>__builtin_bswap64\<close> followed by \<^verbatim>\<open>memcpy\<close> on the little-endian hosts the
  project targets: the most significant byte comes first. Reading takes the bytes at an offset
  and fails with \<open>OutOfBounds\<close> when the buffer ends before them.
\<close>

definition be16 :: "u16 \<Rightarrow> byte list" where
  "be16 w = [ucast (drop_bit 8 w), ucast w]"

definition be32 :: "u32 \<Rightarrow> byte list" where
  "be32 w = [ucast (drop_bit 24 w), ucast (drop_bit 16 w), ucast (drop_bit 8 w), ucast w]"

definition be64 :: "u64 \<Rightarrow> byte list" where
  "be64 w = [ucast (drop_bit 56 w), ucast (drop_bit 48 w), ucast (drop_bit 40 w),
             ucast (drop_bit 32 w), ucast (drop_bit 24 w), ucast (drop_bit 16 w),
             ucast (drop_bit 8 w), ucast w]"

fun be_val :: "byte list \<Rightarrow> nat" where
  "be_val [] = 0"
| "be_val (b # bs) = unat b * 256 ^ length bs + be_val bs"

definition read_bytes :: "byte list \<Rightarrow> nat \<Rightarrow> nat \<Rightarrow> byte list res" where
  "read_bytes buf off n =
     (if off + n \<le> length buf then Inr (take n (drop off buf)) else Inl OutOfBounds)"

definition read_u8 :: "byte list \<Rightarrow> nat \<Rightarrow> u8 res" where
  "read_u8 buf off = bindR (read_bytes buf off 1) (\<lambda>bs. Inr (of_nat (be_val bs)))"

definition read_u16 :: "byte list \<Rightarrow> nat \<Rightarrow> u16 res" where
  "read_u16 buf off = bindR (read_bytes buf off 2) (\<lambda>bs. Inr (of_nat (be_val bs)))"

definition read_u32 :: "byte list \<Rightarrow> nat \<Rightarrow> u32 res" where
  "read_u32 buf off = bindR (read_bytes buf off 4) (\<lambda>bs. Inr (of_nat (be_val bs)))"

definition read_u64 :: "byte list \<Rightarrow> nat \<Rightarrow> u64 res" where
  "read_u64 buf off = bindR (read_bytes buf off 8) (\<lambda>bs. Inr (of_nat (be_val bs)))"

lemma length_be [simp]:
  "length (be16 w) = 2" "length (be32 v) = 4" "length (be64 u) = 8"
  by (simp_all add: be16_def be32_def be64_def)

lemma unat_bound: "unat (w :: 'a::len word) < 2 ^ LENGTH('a)"
  by (rule unsigned_less)

lemma unat_ucast_drop8:
  "unat (ucast (w :: 'a::len word) :: u8) = unat w mod 256"
  by (simp add: unsigned_ucast_eq take_bit_eq_mod)

lemma base256_step: "(n div k) mod 256 * k + n mod k = n mod (k * 256)" for n k :: nat
  by (simp add: mod_mult2_eq mult.commute)

lemmas base256_digits = base256_step [of _ "256"] base256_step [of _ "65536"]
  base256_step [of _ "16777216"] base256_step [of _ "4294967296"]
  base256_step [of _ "1099511627776"] base256_step [of _ "281474976710656"]
  base256_step [of _ "72057594037927936"]

lemmas be_val_eval = unat_ucast_drop8 unat_drop_bit_eq drop_bit_eq_div [where 'a = nat]

lemma be_val_be16: "be_val (be16 w) = unat w"
  using unat_bound [of w] base256_digits(1) [of "unat w"]
  by (simp add: be16_def be_val_eval)

lemma be_val_be32: "be_val (be32 w) = unat w"
  using unat_bound [of w] base256_digits(1-3) [of "unat w"]
  by (simp add: be32_def be_val_eval)

lemma be_val_be64: "be_val (be64 w) = unat w"
  using unat_bound [of w] base256_digits [of "unat w"]
  by (simp add: be64_def be_val_eval)

text \<open>Reading at the offset where an encoding was written gives the value back.\<close>

lemma read_bytes_mid [simp]:
  "off = length pre \<Longrightarrow> n = length bs \<Longrightarrow> read_bytes (pre @ bs @ post) off n = Inr bs"
  by (simp add: read_bytes_def)

lemma read_u8_mid: "off = length pre \<Longrightarrow> read_u8 (pre @ [b] @ post) off = Inr b"
  by (subst read_u8_def, subst read_bytes_mid) simp_all

lemma read_be_mid:
  "off = length pre \<Longrightarrow> read_u16 (pre @ be16 x @ post) off = Inr x"
  "off = length pre \<Longrightarrow> read_u32 (pre @ be32 y @ post) off = Inr y"
  "off = length pre \<Longrightarrow> read_u64 (pre @ be64 z @ post) off = Inr z"
  by (simp_all only: read_u16_def read_u32_def read_u64_def read_bytes_mid length_be
      bindR_simps be_val_be16 be_val_be32 be_val_be64 of_nat_unat ucast_id)

lemma read_bytes_Inr_iff:
  "read_bytes buf off n = Inr bs \<longleftrightarrow> off + n \<le> length buf \<and> bs = take n (drop off buf)"
  by (auto simp: read_bytes_def)

lemma read_in_range:
  "off + 1 \<le> length buf \<Longrightarrow> \<exists>v. read_u8 buf off = Inr v"
  "off + 2 \<le> length buf \<Longrightarrow> \<exists>v. read_u16 buf off = Inr v"
  "off + 4 \<le> length buf \<Longrightarrow> \<exists>v. read_u32 buf off = Inr v"
  "off + 8 \<le> length buf \<Longrightarrow> \<exists>v. read_u64 buf off = Inr v"
  by (simp_all add: read_u8_def read_u16_def read_u32_def read_u64_def read_bytes_def)

section \<open>Decimal printing\<close>

text \<open>\<^verbatim>\<open>std::to_string\<close> on an unsigned value.\<close>

fun dec_digits :: "nat \<Rightarrow> string" where
  "dec_digits n =
     (if n < 10 then [char_of (48 + n)] else dec_digits (n div 10) @ [char_of (48 + n mod 10)])"

declare dec_digits.simps [simp del]

definition to_string_u :: "'a::len word \<Rightarrow> string" where
  "to_string_u w = dec_digits (unat w)"

end
