(* ===== verification/Ring_Window.thy ===== *)
theory Ring_Window
  imports Linqu_Prelude
begin

text \<open>
  The contract the two rings of the runtime share. A ring keeps two free-running counters, a low
  one (the oldest live position) and a high one (the next position), never more than the capacity
  apart, and stores position \<open>v\<close> in slot \<open>v mod cap\<close>. The clients need that live positions never
  share a slot and that the next position's slot is free whenever the window is not full. The heap
  ring and the task ring interpret the locale on their own definitions.
\<close>

lemma mod_window_inj:
  fixes a b lo c :: nat
  assumes "lo \<le> a" "a < lo + c" "lo \<le> b" "b < lo + c" "a mod c = b mod c"
  shows "a = b"
proof (rule ccontr)
  assume "a \<noteq> b"
  then consider "a < b" | "b < a" by linarith
  then show False
  proof cases
    case 1
    with assms(5) have "c dvd b - a" by (metis mod_eq_dvd_iff_nat less_imp_le)
    with 1 have "c \<le> b - a" by (auto dest: dvd_imp_le)
    with 1 assms(1,4) show False by linarith
  next
    case 2
    with assms(5) have "c dvd a - b" by (metis mod_eq_dvd_iff_nat less_imp_le)
    with 2 have "c \<le> a - b" by (auto dest: dvd_imp_le)
    with 2 assms(2,3) show False by linarith
  qed
qed

locale ring_window =
  fixes cap lo hi :: "'r \<Rightarrow> nat"
    and slot :: "'r \<Rightarrow> nat \<Rightarrow> nat"
    and wf :: "'r \<Rightarrow> bool"
  assumes cap_pos: "wf r \<Longrightarrow> 0 < cap r"
    and window: "wf r \<Longrightarrow> lo r \<le> hi r \<and> hi r \<le> lo r + cap r"
    and slot_mod: "wf r \<Longrightarrow> slot r v = v mod cap r"
begin

lemma slot_range: "wf r \<Longrightarrow> slot r v < cap r"
  using cap_pos [of r] by (simp add: slot_mod)

lemma slot_inj:
  assumes "wf r" "lo r \<le> a" "a < lo r + cap r" "lo r \<le> b" "b < lo r + cap r"
    and "slot r a = slot r b"
  shows "a = b"
  using assms mod_window_inj [of "lo r" a "cap r" b] by (simp add: slot_mod)

lemma live_slots_distinct:
  assumes "wf r" "lo r \<le> a" "a < hi r" "lo r \<le> b" "b < hi r" "a \<noteq> b"
  shows "slot r a \<noteq> slot r b"
proof
  assume "slot r a = slot r b"
  moreover have "a < lo r + cap r" "b < lo r + cap r" using window [OF assms(1)] assms by auto
  ultimately have "a = b" using assms by (blast intro: slot_inj)
  with assms show False by simp
qed

lemma next_slots_free:
  assumes "wf r" "lo r \<le> a" "a < hi r" "hi r \<le> b" "b < lo r + cap r"
  shows "slot r a \<noteq> slot r b"
proof
  assume "slot r a = slot r b"
  moreover have "a < lo r + cap r" "lo r \<le> b" using window [OF assms(1)] assms by auto
  ultimately have "a = b" using assms by (blast intro: slot_inj)
  with assms show False by simp
qed

end

end
