(* ===== verification/Heap_Ring.thy ===== *)
theory Heap_Ring
  imports Ring_Window
begin

text \<open>
  \<^verbatim>\<open>LinquHeapRing\<close> (src/src/ring/linqu_heap_ring.h and .cpp): the ring allocator for output buffers.
  \<^verbatim>\<open>top_\<close> and \<^verbatim>\<open>tail_\<close> are free-running \<^verbatim>\<open>size_t\<close> counters, kept at 64 bits, and a block's place in
  the store is its counter value modulo the capacity. The pointer an allocation returns is modelled
  by its offset in the store.
\<close>

section \<open>State and operations\<close>

record heap_ring =
  hr_store :: "byte list"
  hr_capacity :: u64
  hr_top :: u64
  hr_tail :: u64

definition heap_new :: heap_ring where
  "heap_new = \<lparr>hr_store = [], hr_capacity = 0, hr_top = 0, hr_tail = 0\<rparr>"

definition heap_init :: "u64 \<Rightarrow> heap_ring \<Rightarrow> heap_ring" where
  "heap_init capacity_bytes r =
     r\<lparr>hr_store := vec_resize (hr_store r) (unat capacity_bytes) 0,
       hr_capacity := capacity_bytes, hr_top := 0, hr_tail := 0\<rparr>"

definition heap_reset :: "heap_ring \<Rightarrow> heap_ring" where
  "heap_reset r = r\<lparr>hr_top := 0, hr_tail := 0\<rparr>"

definition heap_used :: "heap_ring \<Rightarrow> u64" where
  "heap_used r =
     (if hr_tail r \<le> hr_top r then hr_top r - hr_tail r
      else hr_capacity r - hr_tail r + hr_top r)"

definition heap_available :: "heap_ring \<Rightarrow> u64" where
  "heap_available r = hr_capacity r - heap_used r"

text \<open>\<open>None\<close> is the source's \<^verbatim>\<open>false\<close>; \<open>Some (pos, r')\<close> is \<^verbatim>\<open>true\<close> with \<^verbatim>\<open>*out = store_.data() + pos\<close>.\<close>

definition heap_try_alloc :: "u64 \<Rightarrow> heap_ring \<Rightarrow> (u64 \<times> heap_ring) option" where
  "heap_try_alloc sz r =
     (if sz = 0 \<or> hr_capacity r < sz then None
      else if heap_available r < sz then None
      else
        let pos = hr_top r mod hr_capacity r in
        if pos + sz \<le> hr_capacity r then Some (pos, r\<lparr>hr_top := hr_top r + sz\<rparr>)
        else
          let waste = hr_capacity r - pos in
          if heap_available r < sz + waste then None
          else
            let r1 = r\<lparr>hr_top := hr_top r + waste\<rparr>;
                pos1 = hr_top r1 mod hr_capacity r1
            in Some (pos1, r1\<lparr>hr_top := hr_top r1 + sz\<rparr>))"

definition heap_alloc :: "u64 \<Rightarrow> heap_ring \<Rightarrow> (u64 \<times> heap_ring) res" where
  "heap_alloc sz r = (case heap_try_alloc sz r of None \<Rightarrow> Inl AssertFail | Some x \<Rightarrow> Inr x)"

definition heap_retire_to :: "u64 \<Rightarrow> heap_ring \<Rightarrow> heap_ring" where
  "heap_retire_to new_tail r = r\<lparr>hr_tail := new_tail\<rparr>"

section \<open>Well-formedness\<close>

definition heap_wf :: "heap_ring \<Rightarrow> bool" where
  "heap_wf r \<longleftrightarrow>
     0 < unat (hr_capacity r) \<and> unat (hr_capacity r) < 2 ^ 63 \<and>
     length (hr_store r) = unat (hr_capacity r) \<and>
     unat (hr_tail r) \<le> unat (hr_top r) \<and>
     unat (hr_top r) - unat (hr_tail r) \<le> unat (hr_capacity r)"

text \<open>Room for one more allocation before the 64-bit counters wrap.\<close>

definition heap_headroom :: "heap_ring \<Rightarrow> bool" where
  "heap_headroom r \<longleftrightarrow> unat (hr_top r) + 2 * unat (hr_capacity r) < 2 ^ 64"

text \<open>
  The abstract allocator on natural numbers: a block of \<open>n\<close> bytes starts at the current counter if
  it fits before the end of the store, otherwise at the next multiple of the capacity.
\<close>

definition heap_start :: "nat \<Rightarrow> nat \<Rightarrow> nat \<Rightarrow> nat" where
  "heap_start c t n = (if t mod c + n \<le> c then t else t + (c - t mod c))"

text \<open>
  A client's history: the live blocks as (counter value, offset, size). Allocations need headroom,
  \<^verbatim>\<open>retire_to\<close> is called with a counter value between \<^verbatim>\<open>tail_\<close> and \<^verbatim>\<open>top_\<close>, as the orchestrator does, and
  gives back every block that starts below it.
\<close>

type_synonym heap_block = "nat \<times> nat \<times> nat"

inductive heap_reach :: "heap_ring \<Rightarrow> heap_block list \<Rightarrow> bool" where
  start: "0 < unat c \<Longrightarrow> unat c < 2 ^ 63 \<Longrightarrow> heap_reach (heap_init c heap_new) []"
| alloc: "heap_reach r bs \<Longrightarrow> heap_headroom r \<Longrightarrow> heap_try_alloc sz r = Some (pos, r') \<Longrightarrow>
    heap_reach r' ((unat (hr_top r') - unat sz, unat pos, unat sz) # bs)"
| retire: "heap_reach r bs \<Longrightarrow> unat (hr_tail r) \<le> unat w \<Longrightarrow> unat w \<le> unat (hr_top r) \<Longrightarrow>
    heap_reach (heap_retire_to w r) (filter (\<lambda>(v, _, _). unat w \<le> v) bs)"

definition block_bytes :: "heap_block \<Rightarrow> nat set" where
  "block_bytes b = (case b of (v, p, n) \<Rightarrow> {p..<p + n})"

section \<open>Correctness of the word-level arithmetic\<close>

lemma heap_used_unat:
  "heap_wf r \<Longrightarrow> unat (heap_used r) = unat (hr_top r) - unat (hr_tail r)"
  by (auto simp: heap_wf_def heap_used_def word_le_nat_alt unat_sub)

lemma heap_available_unat:
  "heap_wf r \<Longrightarrow>
   unat (heap_available r) = unat (hr_capacity r) - (unat (hr_top r) - unat (hr_tail r))"
  using heap_used_unat [of r]
  by (simp add: heap_available_def heap_wf_def word_le_nat_alt unat_sub)

lemma unat_add_small:
  fixes a b :: "'a::len word"
  assumes "unat a + unat b < 2 ^ LENGTH('a)"
  shows "unat (a + b) = unat a + unat b"
  using assms by (simp add: unat_plus_if')

lemma heap_start_bounds:
  assumes "0 < c"
  shows "t \<le> heap_start c t n" and "heap_start c t n \<le> t + c"
  using mod_less_divisor [OF assms, of t] by (auto simp: heap_start_def)

lemma heap_start_fits:
  assumes "0 < c" "n \<le> c"
  shows "heap_start c t n mod c + n \<le> c"
proof (cases "t mod c + n \<le> c")
  case False
  have "t + (c - t mod c) = (t div c + 1) * c"
    using mod_less_divisor [OF assms(1), of t] div_mult_mod_eq [of t c] add_mult_distrib [of "t div c" 1 c]
    by linarith
  then have "(t + (c - t mod c)) mod c = 0" by simp
  with False assms show ?thesis by (simp add: heap_start_def)
qed (simp add: heap_start_def)

text \<open>
  The routine with its two capacity checks and its detour over the end of the store is the
  abstract allocator: it succeeds exactly when the block, placed by \<open>heap_start\<close>, stays within one
  capacity of the tail.
\<close>

text \<open>The word arithmetic of a block that has to start at the next lap: the skipped end, the new start, the check.\<close>

lemma heap_wrap_words:
  fixes sz :: u64
  assumes "heap_wf r" "heap_headroom r"
  defines "c \<equiv> unat (hr_capacity r)" and "t \<equiv> unat (hr_top r)" and "l \<equiv> unat (hr_tail r)"
  defines "w \<equiv> hr_capacity r - hr_top r mod hr_capacity r" and "s \<equiv> t + (c - t mod c)"
  assumes "unat sz \<le> c"
  shows "heap_available r < sz + w \<longleftrightarrow> \<not> s + unat sz \<le> l + c" "(hr_top r + w) mod hr_capacity r = of_nat (s mod c)"
    "hr_top r + w + sz = of_nat (s + unat sz)"
proof -
  have c0: "0 < c" "l \<le> t" "t - l \<le> c" using assms(1) by (auto simp: heap_wf_def c_def t_def l_def)
  have rm: "t + 2 * c < 2 ^ 64" using assms(2) by (simp add: heap_headroom_def c_def t_def)
  have av: "unat (heap_available r) = c - (t - l)"
    using heap_available_unat [OF assms(1)] by (simp add: c_def t_def l_def)
  have pos: "unat (hr_top r mod hr_capacity r) = t mod c" by (simp add: unat_mod c_def t_def)
  have tm: "t mod c < c" using c0 by simp
  with pos have w: "unat w = c - t mod c" by (simp add: w_def unat_sub word_le_nat_alt c_def)
  have top1: "unat (hr_top r + w) = s" using w rm by (simp add: unat_add_small t_def s_def)
  have "unat (sz + w) = unat sz + (c - t mod c)" using w assms(8) rm by (simp add: unat_add_small)
  then show "heap_available r < sz + w \<longleftrightarrow> \<not> s + unat sz \<le> l + c"
    using av c0 tm by (auto simp: word_less_nat_alt s_def)
  show "(hr_top r + w) mod hr_capacity r = of_nat (s mod c)"
    using top1 by (metis c_def of_nat_unat ucast_id unat_mod)
  show "hr_top r + w + sz = of_nat (s + unat sz)" using top1 by (metis of_nat_add of_nat_unat ucast_id)
qed

lemma heap_try_alloc_abs:
  fixes sz :: u64
  assumes wf: "heap_wf r" and room: "heap_headroom r"
  defines "c \<equiv> unat (hr_capacity r)" and "t \<equiv> unat (hr_top r)" and "l \<equiv> unat (hr_tail r)"
  defines "s \<equiv> heap_start c t (unat sz)"
  shows "heap_try_alloc sz r =
    (if 0 < unat sz \<and> s + unat sz \<le> l + c
     then Some (of_nat (s mod c), r\<lparr>hr_top := of_nat (s + unat sz)\<rparr>) else None)"
proof -
  let ?n = "unat sz"
  have c0: "0 < c" "c < 2 ^ 63" and lt: "l \<le> t" "t - l \<le> c"
    using wf by (auto simp: heap_wf_def c_def t_def l_def)
  have rm: "t + 2 * c < 2 ^ 64" using room by (simp add: heap_headroom_def c_def t_def)
  have av: "unat (heap_available r) = c - (t - l)"
    using heap_available_unat [OF wf] by (simp add: c_def t_def l_def)
  have pos: "unat (hr_top r mod hr_capacity r) = t mod c"
    by (simp add: unat_mod c_def t_def)
  have tm: "t mod c < c" using c0 by simp
  have sz0: "sz = 0 \<longleftrightarrow> ?n = 0" by (simp add: unat_eq_zero)
  show ?thesis
  proof (cases "?n = 0 \<or> c < ?n \<or> c - (t - l) < ?n")
    case True
    then have "heap_try_alloc sz r = None"
      by (auto simp: heap_try_alloc_def word_less_nat_alt av c_def sz0)
    moreover have "\<not> (0 < ?n \<and> s + ?n \<le> l + c)"
      using True lt heap_start_bounds(1) [OF c0(1), of t ?n] unfolding s_def by linarith
    ultimately show ?thesis by simp
  next
    case False
    then have n: "0 < ?n" "?n \<le> c" "?n \<le> c - (t - l)" by auto
    have g: "\<not> (sz = 0 \<or> hr_capacity r < sz)" "\<not> heap_available r < sz"
      using n by (auto simp: word_less_nat_alt av c_def sz0)
    have "t mod c + ?n < 2 ^ 64" using n tm rm by linarith
    then have "unat (hr_top r mod hr_capacity r + sz) = t mod c + ?n"
      using pos by (simp add: unat_add_small)
    then have fit: "hr_top r mod hr_capacity r + sz \<le> hr_capacity r \<longleftrightarrow> t mod c + ?n \<le> c"
      by (simp add: word_le_nat_alt c_def)
    show ?thesis
    proof (cases "t mod c + ?n \<le> c")
      case True
      then have "s = t" by (simp add: s_def heap_start_def)
      with True g fit n lt show ?thesis
        by (simp add: heap_try_alloc_def Let_def t_def c_def unat_mod [symmetric])
    next
      case wrap: False
      then have s: "s = t + (c - t mod c)" by (simp add: s_def heap_start_def)
      note ww = heap_wrap_words [OF wf room n(2) [unfolded c_def], folded t_def c_def l_def, folded s]
      from g fit wrap ww n show ?thesis by (simp add: heap_try_alloc_def Let_def)
    qed
  qed
qed

section \<open>The window contract and the client's view\<close>

interpretation heap_window: ring_window
  "\<lambda>r. unat (hr_capacity r)" "\<lambda>r. unat (hr_tail r)" "\<lambda>r. unat (hr_top r)"
  "\<lambda>r v. v mod unat (hr_capacity r)" heap_wf
  by unfold_locales (auto simp: heap_wf_def)

lemma heap_init_wf [wf_intros]:
  "0 < unat c \<Longrightarrow> unat c < 2 ^ 63 \<Longrightarrow> heap_wf (heap_init c r)"
  by (simp add: heap_wf_def heap_init_def)

lemma heap_reset_wf [wf_intros]: "heap_wf r \<Longrightarrow> heap_wf (heap_reset r)"
  by (simp add: heap_wf_def heap_reset_def)

lemma heap_retire_wf [wf_intros]:
  "heap_wf r \<Longrightarrow> unat (hr_tail r) \<le> unat w \<Longrightarrow> unat w \<le> unat (hr_top r) \<Longrightarrow>
   heap_wf (heap_retire_to w r)"
  by (auto simp: heap_wf_def heap_retire_to_def)

lemma heap_retire_simps [simp]:
  "hr_capacity (heap_retire_to w r) = hr_capacity r" "hr_top (heap_retire_to w r) = hr_top r"
  "hr_tail (heap_retire_to w r) = w"
  by (simp_all add: heap_retire_to_def)

text \<open>What a successful allocation returns, in natural numbers.\<close>

lemma heap_try_alloc_SomeE:
  assumes "heap_wf r" "heap_headroom r" "heap_try_alloc sz r = Some (pos, r')"
  obtains v where "unat (hr_top r) \<le> v" "unat pos = v mod unat (hr_capacity r)"
    "unat (hr_top r') = v + unat sz" "0 < unat sz" "unat pos + unat sz \<le> unat (hr_capacity r)"
    "v + unat sz \<le> unat (hr_tail r) + unat (hr_capacity r)"
    "hr_capacity r' = hr_capacity r" "hr_tail r' = hr_tail r" "heap_wf r'"
proof -
  let ?c = "unat (hr_capacity r)" and ?t = "unat (hr_top r)" and ?n = "unat sz"
  let ?v = "heap_start ?c ?t ?n"
  have c: "0 < ?c" "?t + 2 * ?c < 2 ^ 64" "unat (hr_tail r) \<le> ?t"
    using assms by (auto simp: heap_wf_def heap_headroom_def)
  from assms(3) have n: "0 < ?n" "?v + ?n \<le> unat (hr_tail r) + ?c"
    and pos: "pos = of_nat (?v mod ?c)" and r': "r' = r\<lparr>hr_top := of_nat (?v + ?n)\<rparr>"
    unfolding heap_try_alloc_abs [OF assms(1,2)] by (auto split: if_splits)
  have tv: "?t \<le> ?v" using heap_start_bounds(1) [OF c(1)] .
  with n c have nc: "?n \<le> ?c" and lt: "?v + ?n < 2 ^ 64" by linarith+
  have vm: "?v mod ?c < 2 ^ 64" using c mod_less_divisor [OF c(1), of ?v] by linarith
  have up: "unat pos = ?v mod ?c" using vm unfolding pos by (simp add: unat_of_nat)
  have ut: "unat (hr_top r') = ?v + ?n"
    using lt unfolding r' by (simp add: unat_of_nat del: of_nat_add)
  have "heap_wf r'" using assms(1) n tv ut by (auto simp: heap_wf_def r')
  then show ?thesis
    using that [of ?v] tv up ut n heap_start_fits [OF c(1) nc] by (auto simp: r')
qed

lemma heap_reach_capacity_wf: "heap_reach r bs \<Longrightarrow> heap_wf r"
proof (induction rule: heap_reach.induct)
  case (alloc r bs sz pos r')
  from alloc.IH alloc.hyps(2,3) show ?case by (rule heap_try_alloc_SomeE)
qed (auto intro: wf_intros)

lemma heap_reach_blocks:
  assumes "heap_reach r bs"
  shows "\<forall>(v, p, n) \<in> set bs. p = v mod unat (hr_capacity r) \<and> 0 < n \<and>
    p + n \<le> unat (hr_capacity r) \<and> unat (hr_tail r) \<le> v \<and> v + n \<le> unat (hr_top r)"
  using assms
proof (induction rule: heap_reach.induct)
  case (alloc r bs sz pos r')
  have wf: "heap_wf r" using alloc.hyps(1) by (rule heap_reach_capacity_wf)
  from wf alloc.hyps(2,3) obtain v where v: "unat (hr_top r) \<le> v"
    "unat pos = v mod unat (hr_capacity r)" "unat (hr_top r') = v + unat sz" "0 < unat sz"
    "unat pos + unat sz \<le> unat (hr_capacity r)" and eq: "hr_capacity r' = hr_capacity r"
    "hr_tail r' = hr_tail r"
    by (rule heap_try_alloc_SomeE)
  have "unat (hr_tail r) \<le> v" using wf v(1) by (simp add: heap_wf_def)
  moreover have "unat (hr_top r) \<le> unat (hr_top r')" using v by simp
  ultimately show ?case
    using alloc.IH v(2-5) unfolding eq by (auto split: prod.splits intro: order_trans)
next
  case (retire r bs w)
  then show ?case by auto
qed simp

lemma heap_reach_virtual_disjoint:
  assumes "heap_reach r bs"
  shows "sorted_wrt (\<lambda>(v, _, _) (v', _, n'). v' + n' \<le> v) bs"
  using assms
proof (induction rule: heap_reach.induct)
  case (alloc r bs sz pos r')
  have old: "\<forall>(v, p, n) \<in> set bs. v + n \<le> unat (hr_top r)"
    using heap_reach_blocks [OF alloc.hyps(1)] by auto
  from heap_reach_capacity_wf [OF alloc.hyps(1)] alloc.hyps(2,3) obtain v where
    "unat (hr_top r) \<le> v" "unat (hr_top r') = v + unat sz"
    by (rule heap_try_alloc_SomeE)
  then have "unat (hr_top r) \<le> unat (hr_top r') - unat sz" by simp
  with alloc.IH old show ?case by (auto split: prod.splits intro: order_trans)
next
  case (retire r bs w)
  then show ?case by (simp add: sorted_wrt_filter)
qed simp

text \<open>Two blocks in one window whose counter ranges are apart share no byte of the store.\<close>

lemma blocks_apart:
  fixes c l :: nat
  assumes "v' + n' \<le> v" "l \<le> v'" "v + n \<le> l + c" "v mod c + n \<le> c" "v' mod c + n' \<le> c"
  shows "block_bytes (v, v mod c, n) \<inter> block_bytes (v', v' mod c, n') = {}"
proof (rule ccontr)
  assume "block_bytes (v, v mod c, n) \<inter> block_bytes (v', v' mod c, n') \<noteq> {}"
  then obtain x where "v mod c \<le> x" "x < v mod c + n" "v' mod c \<le> x" "x < v' mod c + n'"
    unfolding block_bytes_def by (simp only: prod.case) (meson IntE atLeastLessThan_iff ex_in_conv)
  then have "x = v mod c + (x - v mod c)" "x - v mod c < n"
    "x = v' mod c + (x - v' mod c)" "x - v' mod c < n'" by linarith+
  then obtain i j where ij: "x = v mod c + i" "i < n" "x = v' mod c + j" "j < n'" by blast
  then have x: "x < c" using assms(4) by linarith
  have "(v + i) mod c = x mod c" unfolding ij(1) by (rule mod_add_left_eq [symmetric])
  moreover have "(v' + j) mod c = x mod c" unfolding ij(3) by (rule mod_add_left_eq [symmetric])
  ultimately have eq: "(v + i) mod c = (v' + j) mod c" by simp
  have "l \<le> v + i" "v + i < l + c" "l \<le> v' + j" "v' + j < l + c"
    using assms(1-3) ij(2,4) by linarith+
  then have "v + i = v' + j" using eq by (rule mod_window_inj)
  with assms(1) ij show False by linarith
qed

lemma heap_drained_none:
  assumes "heap_wf r" "heap_headroom r" "hr_top r = hr_tail r"
  shows "heap_try_alloc sz r = None \<longleftrightarrow>
      unat sz = 0 \<or>
      (unat (hr_capacity r) < unat (hr_top r) mod unat (hr_capacity r) + unat sz \<and>
       unat (hr_top r) mod unat (hr_capacity r) < unat sz)"
proof -
  let ?c = "unat (hr_capacity r)" and ?m = "unat (hr_top r) mod unat (hr_capacity r)"
  have m: "?m < ?c" using assms(1) by (simp add: heap_wf_def)
  have "heap_try_alloc sz r = None \<longleftrightarrow>
    \<not> (0 < unat sz \<and> heap_start ?c (unat (hr_top r)) (unat sz) + unat sz \<le> unat (hr_top r) + ?c)"
    unfolding heap_try_alloc_abs [OF assms(1,2)] using assms(3) by simp
  also have "\<dots> \<longleftrightarrow> unat sz = 0 \<or> (?c < ?m + unat sz \<and> ?m < unat sz)"
    using m by (simp add: heap_start_def) linarith
  finally show ?thesis .
qed

section \<open>Properties\<close>



text \<open>Progress of a drained ring (every allocation retired): a request is refused exactly when it is
  empty, or fits neither behind the current position nor before it. So a request of at most half
  the capacity always succeeds, while a larger one, though at most the capacity, can be refused by
  a ring that holds nothing.\<close>

theorem heap_drained_alloc:
  assumes "heap_wf r" "heap_headroom r" "hr_top r = hr_tail r"
  shows "(heap_try_alloc sz r = None \<longleftrightarrow>
      unat sz = 0 \<or>
      (unat (hr_capacity r) < unat (hr_top r) mod unat (hr_capacity r) + unat sz \<and>
       unat (hr_top r) mod unat (hr_capacity r) < unat sz)) \<and>
    (0 < unat sz \<and> 2 * unat sz \<le> unat (hr_capacity r) \<longrightarrow> heap_try_alloc sz r \<noteq> None)"
  using heap_drained_none [OF assms, of sz] by auto

text \<open>The counters' wrap-around is not handled: on a full ring of 16 bytes whose \<^verbatim>\<open>top_\<close> has passed
  the largest \<^verbatim>\<open>size_t\<close>, \<^verbatim>\<open>used()\<close> reports twice the capacity, \<^verbatim>\<open>available()\<close> an enormous number, and
  \<^verbatim>\<open>try_alloc\<close> succeeds and returns bytes that are still in use.\<close>

theorem heap_counter_wrap_overlaps:
  "let r = (heap_init 16 heap_new)\<lparr>hr_top := 8, hr_tail := - 8\<rparr> in
     hr_top r - hr_tail r = hr_capacity r \<and> heap_used r = 32 \<and> heap_available r = - 16 \<and>
     heap_try_alloc 8 r = Some (8, r\<lparr>hr_top := 16\<rparr>) \<and> hr_tail r mod hr_capacity r = 8"
  by (simp add: Let_def heap_try_alloc_def heap_available_def heap_used_def heap_init_def)

end
