(* ===== verification/Core_Identity.thy ===== *)
theory Core_Identity
  imports Linqu_Prelude
begin

text \<open>
  The identities of the system (src/src/core): levels, the seven-level coordinate with its order and
  its printed forms, task keys. A \<^verbatim>\<open>Level\<close> is an enum over \<^verbatim>\<open>uint8_t\<close> that the daemon also builds from
  any byte by a cast, so it is a byte with named values. The two structs are datatypes with the
  source's fields as selectors, so that their \<^verbatim>\<open>operator<\<close> can be the type's linear order.
\<close>

section \<open>Levels\<close>

type_synonym level = u8

definition NUM_LEVELS :: nat where
  "NUM_LEVELS = 7"

abbreviation LEVEL_CORE :: level where "LEVEL_CORE \<equiv> 0"
abbreviation LEVEL_CHIP_DIE :: level where "LEVEL_CHIP_DIE \<equiv> 1"
abbreviation LEVEL_CHIP :: level where "LEVEL_CHIP \<equiv> 2"
abbreviation LEVEL_HOST :: level where "LEVEL_HOST \<equiv> 3"
abbreviation LEVEL_POD :: level where "LEVEL_POD \<equiv> 4"
abbreviation LEVEL_CLOS1 :: level where "LEVEL_CLOS1 \<equiv> 5"
abbreviation LEVEL_CLOS2 :: level where "LEVEL_CLOS2 \<equiv> 6"

definition level_value :: "level \<Rightarrow> u8" where
  "level_value l = l"

definition level_name :: "level \<Rightarrow> string" where
  "level_name l =
     (if l = 0 then ''CORE'' else if l = 1 then ''CHIP_DIE'' else if l = 2 then ''CHIP''
      else if l = 3 then ''HOST'' else if l = 4 then ''POD'' else if l = 5 then ''CLOS1''
      else if l = 6 then ''CLOS2'' else ''UNKNOWN'')"

section \<open>Coordinates\<close>

datatype linqu_coordinate = LinquCoordinate
  (l6_idx: u8) (l5_idx: u8) (l4_idx: u8) (l3_idx: u16) (l2_idx: u16) (l1_idx: u8) (l0_idx: u16)

definition coord_zero :: linqu_coordinate where
  "coord_zero = LinquCoordinate 0 0 0 0 0 0 0"

definition coord_less :: "linqu_coordinate \<Rightarrow> linqu_coordinate \<Rightarrow> bool" where
  "coord_less a b =
     (if l6_idx a \<noteq> l6_idx b then l6_idx a < l6_idx b
      else if l5_idx a \<noteq> l5_idx b then l5_idx a < l5_idx b
      else if l4_idx a \<noteq> l4_idx b then l4_idx a < l4_idx b
      else if l3_idx a \<noteq> l3_idx b then l3_idx a < l3_idx b
      else if l2_idx a \<noteq> l2_idx b then l2_idx a < l2_idx b
      else if l1_idx a \<noteq> l1_idx b then l1_idx a < l1_idx b
      else l0_idx a < l0_idx b)"

instantiation linqu_coordinate :: linorder
begin

definition less_linqu_coordinate :: "linqu_coordinate \<Rightarrow> linqu_coordinate \<Rightarrow> bool" where
  "less_linqu_coordinate a b = coord_less a b"

definition less_eq_linqu_coordinate :: "linqu_coordinate \<Rightarrow> linqu_coordinate \<Rightarrow> bool" where
  "less_eq_linqu_coordinate a b = (a = b \<or> coord_less a b)"

instance
proof
  fix x y z :: linqu_coordinate
  show "(x < y) = (x \<le> y \<and> \<not> y \<le> x)"
    unfolding less_linqu_coordinate_def less_eq_linqu_coordinate_def coord_less_def
    by (cases x; cases y) auto
  show "x \<le> x" by (simp add: less_eq_linqu_coordinate_def)
  show "x \<le> z" if "x \<le> y" "y \<le> z"
    using that unfolding less_eq_linqu_coordinate_def coord_less_def
    by (auto split: if_splits)
  show "x = y" if "x \<le> y" "y \<le> x"
    using that unfolding less_eq_linqu_coordinate_def coord_less_def
    by (auto split: if_splits)
  show "x \<le> y \<or> y \<le> x"
    unfolding less_eq_linqu_coordinate_def coord_less_def
    by (cases x; cases y) auto
qed

end

definition coord_to_string :: "linqu_coordinate \<Rightarrow> string" where
  "coord_to_string c =
     ''(l6='' @ to_string_u (l6_idx c) @ '',l5='' @ to_string_u (l5_idx c) @
     '',l4='' @ to_string_u (l4_idx c) @ '',l3='' @ to_string_u (l3_idx c) @
     '',l2='' @ to_string_u (l2_idx c) @ '',l1='' @ to_string_u (l1_idx c) @
     '',l0='' @ to_string_u (l0_idx c) @ '')''"

definition coord_to_path :: "linqu_coordinate \<Rightarrow> string" where
  "coord_to_path c =
     ''L6_'' @ to_string_u (l6_idx c) @ ''/L5_'' @ to_string_u (l5_idx c) @
     ''/L4_'' @ to_string_u (l4_idx c) @ ''/L3_'' @ to_string_u (l3_idx c) @
     ''/L2_'' @ to_string_u (l2_idx c) @ ''/L1_'' @ to_string_u (l1_idx c) @
     ''/L0_'' @ to_string_u (l0_idx c)"

definition index_at :: "linqu_coordinate \<Rightarrow> level \<Rightarrow> u8" where
  "index_at c l =
     (let v = level_value l in
      if v = 0 then ucast (l0_idx c) else if v = 1 then l1_idx c
      else if v = 2 then ucast (l2_idx c) else if v = 3 then ucast (l3_idx c)
      else if v = 4 then l4_idx c else if v = 5 then l5_idx c
      else if v = 6 then l6_idx c else 0)"

section \<open>Task keys\<close>

datatype task_key = TaskKey
  (key_logical_system: string) (key_coord: linqu_coordinate) (key_scope_depth: u16)
  (key_task_id: u32)

definition task_key_default :: task_key where
  "task_key_default = TaskKey '''' coord_zero 0 0"

definition task_key_to_string :: "task_key \<Rightarrow> string" where
  "task_key_to_string k =
     key_logical_system k @ '':('' @ to_string_u (l6_idx (key_coord k)) @ '','' @
     to_string_u (l5_idx (key_coord k)) @ '','' @ to_string_u (l4_idx (key_coord k)) @ '','' @
     to_string_u (l3_idx (key_coord k)) @ ''):d'' @ to_string_u (key_scope_depth k) @
     '':t'' @ to_string_u (key_task_id k)"

section \<open>Parameters of the orchestration interface\<close>

text \<open>
  \<^verbatim>\<open>LinquParam\<close> and \<^verbatim>\<open>LinquSubTaskSpec\<close> of src/src/runtime/linqu_orchestration_api.h.
  \<^verbatim>\<open>LinquCoordinate_C\<close> has the fields of \<^verbatim>\<open>LinquCoordinate\<close> and every use copies them one by one,
  so both are one type here. A null \<^verbatim>\<open>kernel_so\<close> is \<open>None\<close>; \<^verbatim>\<open>private_params\<close> with its count is a list.
\<close>

datatype param_type = PARAM_INPUT | PARAM_OUTPUT | PARAM_INOUT | PARAM_SCALAR

record linqu_param =
  p_type :: param_type
  p_handle :: u64
  p_scalar_value :: u64

definition linqu_make_input :: "u64 \<Rightarrow> linqu_param" where
  "linqu_make_input h = \<lparr>p_type = PARAM_INPUT, p_handle = h, p_scalar_value = 0\<rparr>"

definition linqu_make_output :: "u64 \<Rightarrow> linqu_param" where
  "linqu_make_output h = \<lparr>p_type = PARAM_OUTPUT, p_handle = h, p_scalar_value = 0\<rparr>"

definition linqu_make_inout :: "u64 \<Rightarrow> linqu_param" where
  "linqu_make_inout h = \<lparr>p_type = PARAM_INOUT, p_handle = h, p_scalar_value = 0\<rparr>"

definition linqu_make_scalar :: "u64 \<Rightarrow> linqu_param" where
  "linqu_make_scalar v = \<lparr>p_type = PARAM_SCALAR, p_handle = 0, p_scalar_value = v\<rparr>"

record sub_task_spec =
  st_target :: linqu_coordinate
  st_kernel_so :: "string option"
  st_private_params :: "linqu_param list"

end
