(* ===== verification/Dep_Pool.thy ===== *)
theory Dep_Pool
  imports Linqu_Prelude
begin

text \<open>
  \<^verbatim>\<open>LinquDepListPool\<close> (src/src/ring/linqu_dep_pool.h and .cpp): the pool of linked-list cells that hold
  the fan-in and fan-out chains of the tasks. Offset 0 is reserved, cells are only ever allocated,
  and a chain ends at an offset that is not positive.
\<close>

section \<open>State and operations\<close>

record dep_entry =
  de_task_id :: i32
  de_next :: i32

record dep_pool =
  dp_pool :: "dep_entry list"
  dp_capacity :: i32
  dp_top :: i32

definition dep_entry_zero :: dep_entry where
  "dep_entry_zero = \<lparr>de_task_id = 0, de_next = 0\<rparr>"

definition dep_new :: dep_pool where
  "dep_new = \<lparr>dp_pool = [], dp_capacity = 0, dp_top = 1\<rparr>"

definition dep_init :: "i32 \<Rightarrow> dep_pool \<Rightarrow> dep_pool res" where
  "dep_init cap p = bindR (assertR (0 < cap)) (\<lambda>_.
     Inr (p\<lparr>dp_capacity := cap, dp_pool := vec_resize (dp_pool p) (nat (cap + 1)) dep_entry_zero,
            dp_top := 1\<rparr>))"

definition dep_reset :: "dep_pool \<Rightarrow> dep_pool" where
  "dep_reset p = p\<lparr>dp_top := 1\<rparr>"

definition dep_alloc_one :: "dep_pool \<Rightarrow> (i32 \<times> dep_pool) res" where
  "dep_alloc_one p =
     (if dp_capacity p < dp_top p then Inr (0, p)
      else
        let idx = dp_top p in
        bindR (vec_put (dp_pool p) idx \<lparr>de_task_id = - 1, de_next = - 1\<rparr>) (\<lambda>pool.
          Inr (idx, p\<lparr>dp_top := dp_top p + 1, dp_pool := pool\<rparr>)))"

definition dep_prepend :: "i32 \<Rightarrow> i32 \<Rightarrow> dep_pool \<Rightarrow> (i32 \<times> dep_pool) res" where
  "dep_prepend current_head task_id p =
     bindR (dep_alloc_one p) (\<lambda>(idx, p1).
     bindR (assertR (0 < idx)) (\<lambda>_.
     bindR (vec_put (dp_pool p1) idx \<lparr>de_task_id = task_id, de_next = current_head\<rparr>) (\<lambda>pool.
       Inr (idx, p1\<lparr>dp_pool := pool\<rparr>))))"

text \<open>\<^verbatim>\<open>get\<close> returns a null pointer (\<open>None\<close>) for an offset that is not positive.\<close>

definition dep_get :: "i32 \<Rightarrow> dep_pool \<Rightarrow> dep_entry option res" where
  "dep_get offset p =
     (if offset \<le> 0 then Inr None else bindR (vec_at (dp_pool p) offset) (\<lambda>e. Inr (Some e)))"

definition dep_used :: "dep_pool \<Rightarrow> i32" where
  "dep_used p = dp_top p - 1"

definition dep_available :: "dep_pool \<Rightarrow> i32" where
  "dep_available p = dp_capacity p - dep_used p"

text \<open>
  The shape of every chain loop of the runtime: while the cursor is positive, visit the cell's task
  and follow \<^verbatim>\<open>next\<close>. None of the loop bodies writes the pool, so it is a constant of the walk.
  The cursor alone decides the next step, so a walk of more steps than the pool has cells has
  visited a cell twice and never ends.
\<close>

fun dep_walk :: "nat \<Rightarrow> dep_pool \<Rightarrow> (i32 \<Rightarrow> 's \<Rightarrow> 's res) \<Rightarrow> i32 \<Rightarrow> 's \<Rightarrow> 's res" where
  "dep_walk fuel p f cur s =
     (if 0 < cur then
        (case fuel of 0 \<Rightarrow> Inl Diverges
         | Suc fuel' \<Rightarrow>
             bindR (dep_get cur p) (\<lambda>entry. case entry of
               None \<Rightarrow> Inr s
             | Some e \<Rightarrow> bindR (f (de_task_id e) s) (dep_walk fuel' p f (de_next e))))
      else Inr s)"

declare dep_walk.simps [simp del]

definition dep_for_each :: "dep_pool \<Rightarrow> (i32 \<Rightarrow> 's \<Rightarrow> 's res) \<Rightarrow> i32 \<Rightarrow> 's \<Rightarrow> 's res" where
  "dep_for_each p = dep_walk (length (dp_pool p)) p"

definition dep_count :: "i32 \<Rightarrow> dep_pool \<Rightarrow> int res" where
  "dep_count head p = dep_for_each p (\<lambda>_ n. Inr (n + 1)) head 0"

section \<open>Well-formedness and the abstract chain\<close>

text \<open>Every allocated cell points to an older cell or ends its chain.\<close>

definition dep_wf :: "dep_pool \<Rightarrow> bool" where
  "dep_wf p \<longleftrightarrow>
     0 < dp_capacity p \<and> length (dp_pool p) = nat (dp_capacity p + 1) \<and>
     1 \<le> dp_top p \<and> dp_top p \<le> dp_capacity p + 1 \<and>
     (\<forall>i. 0 < i \<and> i < dp_top p \<longrightarrow> de_next (dp_pool p ! nat i) < i)"

definition dep_head_ok :: "dep_pool \<Rightarrow> i32 \<Rightarrow> bool" where
  "dep_head_ok p h \<longleftrightarrow> h < dp_top p"

function dep_list :: "dep_pool \<Rightarrow> i32 \<Rightarrow> i32 list" where
  "dep_list p h =
     (if 0 < h \<and> de_next (dp_pool p ! nat h) < h
      then de_task_id (dp_pool p ! nat h) # dep_list p (de_next (dp_pool p ! nat h)) else [])"
  by pat_completeness auto
termination
  by (relation "measure (\<lambda>(p, h). nat h)") auto

declare dep_list.simps [simp del]

section \<open>The contract of a chain pool\<close>

text \<open>
  What the orchestrators rely on: chains behave as lists under \<open>prepend\<close>, a prepend leaves every
  other chain alone and uses one cell, and without a free cell it fails its \<^verbatim>\<open>assert\<close>.
\<close>

locale chain_pool =
  fixes prepend :: "i32 \<Rightarrow> i32 \<Rightarrow> 'p \<Rightarrow> (i32 \<times> 'p) res"
    and chain :: "'p \<Rightarrow> i32 \<Rightarrow> i32 list"
    and ok :: "'p \<Rightarrow> i32 \<Rightarrow> bool"
    and room :: "'p \<Rightarrow> int"
    and wf :: "'p \<Rightarrow> bool"
  assumes prepend_room: "wf p \<Longrightarrow> ok p h \<Longrightarrow> 0 < room p \<Longrightarrow>
      \<exists>h' p'. prepend h t p = Inr (h', p') \<and> wf p' \<and> ok p' h' \<and> chain p' h' = t # chain p h \<and>
        room p' = room p - 1 \<and> (\<forall>g. ok p g \<longrightarrow> ok p' g \<and> chain p' g = chain p g)"
    and prepend_full: "wf p \<Longrightarrow> room p \<le> 0 \<Longrightarrow> prepend h t p = Inl AssertFail"
    and nil_chain: "wf p \<Longrightarrow> h \<le> 0 \<Longrightarrow> ok p h \<and> chain p h = []"
begin

lemma prepend_InrD:
  assumes "wf p" "ok p h" "prepend h t p = Inr (h', p')"
  shows "wf p'" "ok p' h'" "chain p' h' = t # chain p h" "room p' = room p - 1"
    "\<forall>g. ok p g \<longrightarrow> ok p' g \<and> chain p' g = chain p g" "0 < room p"
proof -
  show "0 < room p" using assms prepend_full [of p h t] by (cases "room p \<le> 0") auto
  from prepend_room [OF assms(1,2) this, of t] assms(3)
  show "wf p'" "ok p' h'" "chain p' h' = t # chain p h" "room p' = room p - 1"
    "\<forall>g. ok p g \<longrightarrow> ok p' g \<and> chain p' g = chain p g" by auto
qed

text \<open>A whole chain built by repeated prepends from an empty head is the reversed input.\<close>

lemma prepend_all:
  assumes "wf p" "ok p h" "int (length ts) \<le> room p"
  shows "\<exists>h' p'. foldR (\<lambda>t (h, p). prepend h t p) ts (h, p) = Inr (h', p') \<and> wf p' \<and> ok p' h' \<and>
    chain p' h' = rev ts @ chain p h \<and> room p' = room p - int (length ts)"
  using assms
proof (induction ts arbitrary: h p)
  case Nil
  then show ?case by simp
next
  case (Cons t ts)
  from Cons.prems have "0 < room p" by simp
  from prepend_room [OF Cons.prems(1,2) this, of t] obtain h1 p1 where
    1: "prepend h t p = Inr (h1, p1)" "wf p1" "ok p1 h1" "chain p1 h1 = t # chain p h"
      "room p1 = room p - 1" by blast
  with Cons.prems Cons.IH [of p1 h1] show ?case by auto
qed

end

section \<open>The pool meets the contract\<close>

lemma dep_list_nonpos [simp]: "h \<le> 0 \<Longrightarrow> dep_list p h = []"
  by (simp add: dep_list.simps)

lemma dep_list_Cons:
  assumes "dep_wf p" "0 < h" "h < dp_top p"
  shows "dep_list p h = de_task_id (dp_pool p ! nat h) # dep_list p (de_next (dp_pool p ! nat h))"
  using assms by (subst dep_list.simps) (simp add: dep_wf_def)

text \<open>Writing a cell above every reachable one changes no chain.\<close>

lemma dep_list_frame:
  assumes "dep_wf p" "h < dp_top p" "dp_top p \<le> i"
  shows "dep_list (p\<lparr>dp_pool := (dp_pool p)[nat i := e], dp_top := t\<rparr>) h = dep_list p h"
  using assms(2)
proof (induction "nat h" arbitrary: h rule: less_induct)
  case less
  let ?q = "p\<lparr>dp_pool := (dp_pool p)[nat i := e], dp_top := t\<rparr>"
  show ?case
  proof (cases "0 < h")
    case True
    with less.prems assms(3) have nth: "dp_pool ?q ! nat h = dp_pool p ! nat h"
      by (simp add: nth_list_update_neq nat_eq_iff_pos)
    have nx: "de_next (dp_pool p ! nat h) < h"
      using assms(1) True less.prems by (simp add: dep_wf_def)
    then have "dep_list ?q (de_next (dp_pool p ! nat h)) = dep_list p (de_next (dp_pool p ! nat h))"
      using True less.prems by (intro less.hyps) auto
    with True nth nx show ?thesis by (simp add: dep_list.simps [of _ h])
  qed simp
qed

lemma dep_prepend_eq:
  assumes "dep_wf p" "dp_top p \<le> dp_capacity p"
  shows "dep_prepend h t p =
    Inr (dp_top p, p\<lparr>dp_pool := (dp_pool p)[nat (dp_top p) := \<lparr>de_task_id = t, de_next = h\<rparr>],
                    dp_top := dp_top p + 1\<rparr>)"
  using assms by (simp add: dep_prepend_def dep_alloc_one_def dep_wf_def Let_def)

lemma dep_prepend_full:
  "dp_capacity p < dp_top p \<Longrightarrow> dep_prepend h t p = Inl AssertFail"
  by (simp add: dep_prepend_def dep_alloc_one_def)

lemma dep_prepend_wf:
  assumes "dep_wf p" "dp_top p \<le> dp_capacity p" "h < dp_top p"
  shows "dep_wf (p\<lparr>dp_pool := (dp_pool p)[nat (dp_top p) := \<lparr>de_task_id = t, de_next = h\<rparr>],
                  dp_top := dp_top p + 1\<rparr>)"
  using assms by (auto simp: dep_wf_def nth_list_update)

interpretation dep: chain_pool dep_prepend dep_list dep_head_ok dep_available dep_wf
proof
  fix p h t
  assume wf: "dep_wf p" and ok: "dep_head_ok p h" and room: "0 < dep_available p"
  have top: "dp_top p \<le> dp_capacity p" using room by (simp add: dep_available_def dep_used_def)
  have h: "h < dp_top p" using ok by (simp add: dep_head_ok_def)
  let ?e = "\<lparr>de_task_id = t, de_next = h\<rparr>"
  let ?p = "p\<lparr>dp_pool := (dp_pool p)[nat (dp_top p) := ?e], dp_top := dp_top p + 1\<rparr>"
  have frame: "dep_list ?p g = dep_list p g" if "g < dp_top p" for g
    using dep_list_frame [OF wf that] by simp
  have "dp_pool ?p ! nat (dp_top p) = ?e" using wf top by (simp add: dep_wf_def)
  then have "dep_list ?p (dp_top p) = t # dep_list p h"
    using dep_list_Cons [OF dep_prepend_wf [OF wf top h], of "dp_top p" t] frame [OF h] wf
    by (simp add: dep_wf_def)
  then show "\<exists>h' p'. dep_prepend h t p = Inr (h', p') \<and> dep_wf p' \<and> dep_head_ok p' h' \<and>
      dep_list p' h' = t # dep_list p h \<and> dep_available p' = dep_available p - 1 \<and>
      (\<forall>g. dep_head_ok p g \<longrightarrow> dep_head_ok p' g \<and> dep_list p' g = dep_list p g)"
    using dep_prepend_eq [OF wf top, of h t] dep_prepend_wf [OF wf top h, of t] frame
    by (simp add: dep_head_ok_def dep_available_def dep_used_def)
next
  fix p h t
  assume "dep_wf p" "dep_available p \<le> 0"
  then show "dep_prepend h t p = Inl AssertFail"
    by (intro dep_prepend_full) (simp add: dep_available_def dep_used_def)
qed (auto simp: dep_head_ok_def dep_wf_def)

lemma dep_init_wf:
  "0 < cap \<Longrightarrow> \<exists>p'. dep_init cap p = Inr p' \<and> dep_wf p' \<and> dep_available p' = cap"
  by (auto simp: dep_init_def dep_wf_def dep_available_def dep_used_def)

lemma dep_reset_wf [wf_intros]: "dep_wf p \<Longrightarrow> dep_wf (dep_reset p)"
  by (auto simp: dep_wf_def dep_reset_def)

text \<open>Every chain loop is a fold over the abstract list; in particular it ends.\<close>

lemma dep_walk_foldR:
  assumes "dep_wf p" "h < dp_top p" "nat h \<le> fuel"
  shows "dep_walk fuel p f h s = foldR f (dep_list p h) s"
  using assms(2,3)
proof (induction fuel arbitrary: h s)
  case 0
  then show ?case by (simp add: dep_walk.simps)
next
  case (Suc fuel)
  show ?case
  proof (cases "0 < h")
    case True
    let ?e = "dp_pool p ! nat h"
    have "de_next ?e < h" and len: "h < int (length (dp_pool p))"
      using assms(1) True Suc.prems by (auto simp: dep_wf_def)
    then have "dep_walk fuel p f (de_next ?e) = foldR f (dep_list p (de_next ?e))"
      using Suc.prems by (intro ext Suc.IH) auto
    with True len show ?thesis
      by (simp add: dep_walk.simps [of "Suc fuel"] dep_get_def dep_list_Cons [OF assms(1) True Suc.prems(1)])
  qed (simp add: dep_walk.simps)
qed

lemma dep_for_each_foldR:
  assumes "dep_wf p" "dep_head_ok p h"
  shows "dep_for_each p f h s = foldR f (dep_list p h) s"
  unfolding dep_for_each_def using assms
  by (intro dep_walk_foldR) (auto simp: dep_head_ok_def dep_wf_def)

lemma dep_count_eq:
  assumes "dep_wf p" "dep_head_ok p h"
  shows "dep_count h p = Inr (int (length (dep_list p h)))"
proof -
  have "foldR (\<lambda>_ n. Inr (n + 1)) xs k = Inr (k + int (length xs))" for xs :: "i32 list" and k :: int
    by (induction xs arbitrary: k) auto
  then show ?thesis by (simp add: dep_count_def dep_for_each_foldR [OF assms])
qed

lemma dep_prepend_all_overflow:
  assumes "dep_wf p" "dep_head_ok p h" "dep_available p < int (length ts)"
  shows "foldR (\<lambda>t (h, p). dep_prepend h t p) ts (h, p) = Inl AssertFail"
  using assms
proof (induction ts arbitrary: h p)
  case Nil
  then show ?case by (auto simp: dep_wf_def dep_available_def dep_used_def)
next
  case (Cons t ts)
  show ?case
  proof (cases "0 < dep_available p")
    case True
    from dep.prepend_room [OF Cons.prems(1,2) True, of t] obtain h1 p1 where
      "dep_prepend h t p = Inr (h1, p1)" "dep_wf p1" "dep_head_ok p1 h1"
      "dep_available p1 = dep_available p - 1" by blast
    with Cons show ?thesis by simp
  next
    case False
    with Cons.prems(1) show ?thesis by (simp add: dep.prepend_full)
  qed
qed

section \<open>Properties\<close>

text \<open>C32. A chain built in a fresh pool is the list of its tasks, latest first: after prepending
  \<open>ts\<close>, every loop over the chain visits the tasks of \<open>rev ts\<close> in that order and ends, and
  \<^verbatim>\<open>count\<close> returns their number.\<close>

theorem dep_chain_build:
  fixes f :: "i32 \<Rightarrow> 's \<Rightarrow> 's res"
  assumes "dep_init cap dep_new = Inr p" "int (length ts) \<le> cap"
  shows "\<exists>h p'. foldR (\<lambda>t (h, p). dep_prepend h t p) ts (- 1, p) = Inr (h, p') \<and>
    dep_for_each p' f h s = foldR f (rev ts) s \<and> dep_count h p' = Inr (int (length ts))"
proof -
  from assms(1) have "0 < cap" by (cases "0 < cap") (auto simp: dep_init_def)
  with dep_init_wf [of cap dep_new] assms(1) have wf: "dep_wf p" "dep_available p = cap" by auto
  have nil: "dep_head_ok p (- 1)" "dep_list p (- 1) = []" using dep.nil_chain [OF wf(1)] by auto
  with dep.prepend_all [OF wf(1) nil(1), of ts] assms(2) wf(2) obtain h p' where
    "foldR (\<lambda>t (h, p). dep_prepend h t p) ts (- 1, p) = Inr (h, p')" "dep_wf p'" "dep_head_ok p' h"
    "dep_list p' h = rev ts" by auto
  then show ?thesis by (auto simp: dep_for_each_foldR dep_count_eq)
qed

theorem dep_chain_build_witness:
  "\<exists>p h p'. dep_init 4 dep_new = Inr p \<and>
     foldR (\<lambda>t (h, p). dep_prepend h t p) [7, 8, 9] (- 1, p) = Inr (h, p') \<and>
     dep_for_each p' (\<lambda>t s. Inr (s @ [t])) h [] = Inr [9, 8, 7]"
proof -
  obtain p where p: "dep_init 4 dep_new = Inr p" by (simp add: dep_init_def)
  from dep_chain_build [OF p, of "[7, 8, 9]" "\<lambda>t s. Inr (s @ [t])" "[]"] p show ?thesis by auto
qed

text \<open>A prepend touches no other chain: whatever chain head was valid before is valid after and
  denotes the same list, and exactly one cell is used up.\<close>

theorem dep_prepend_frame:
  assumes "dep_wf p" "dep_head_ok p h" "dep_head_ok p g" "dep_prepend h t p = Inr (h', p')"
  shows "dep_list p' g = dep_list p g \<and> dep_head_ok p' g \<and> dep_list p' h' = t # dep_list p h \<and>
    dep_used p' = dep_used p + 1 \<and> dep_wf p'"
proof -
  have "dp_capacity p' = dp_capacity p"
    using assms(4) by (auto simp: dep_prepend_def dep_alloc_one_def Let_def vec_put_def
        split: if_splits prod.splits elim!: bindR_InrE)
  with dep.prepend_InrD [OF assms(1,2,4)] assms(3) show ?thesis by (simp add: dep_available_def)
qed



end
