(* ===== verification/Task_Ring.thy ===== *)
theory Task_Ring
  imports Ring_Window Core_Identity
begin

text \<open>
  \<^verbatim>\<open>LinquTaskDescriptor\<close> and \<^verbatim>\<open>LinquTaskRing\<close> (src/src/ring/linqu_task_ring.h and .cpp): the fixed
  window of task descriptors. A task id is a free-running counter value; its descriptor lives in
  slot \<^verbatim>\<open>id & (window_size - 1)\<close>. The \<^verbatim>\<open>uint32_t\<close> counts are natural numbers: each is bounded by the
  number of dependency cells or of sub-tasks, far below \<open>2 ^ 32\<close>. A task closure is named by a number.
\<close>

section \<open>Descriptors\<close>

datatype task_status = PENDING | READY | RUNNING | COMPLETED | CONSUMED

record task_desc =
  td_key :: task_key
  td_dep_list_head :: i32
  td_fanin_count :: nat
  td_fanout_list_head :: i32
  td_fanout_count :: nat
  td_atomic_fanin_refcount :: nat
  td_atomic_fanout_refcount :: nat
  td_fanout_lock :: int
  td_task_freed :: bool
  td_kernel_so :: string
  td_output_offset :: u64
  td_output_size :: u64
  td_heap_end :: u64
  td_status :: task_status
  td_fn :: "nat option"
  td_fanout_refcount :: nat
  td_fanin_refcount :: nat
  td_is_group :: bool
  td_group_size :: nat
  td_sub_complete_count :: nat

definition fresh_descriptor :: task_desc where
  "fresh_descriptor =
     \<lparr>td_key = task_key_default, td_dep_list_head = - 1, td_fanin_count = 0,
      td_fanout_list_head = - 1, td_fanout_count = 1, td_atomic_fanin_refcount = 0,
      td_atomic_fanout_refcount = 0, td_fanout_lock = 0, td_task_freed = False,
      td_kernel_so = '''', td_output_offset = 0, td_output_size = 0, td_heap_end = 0,
      td_status = PENDING, td_fn = None, td_fanout_refcount = 0, td_fanin_refcount = 0,
      td_is_group = False, td_group_size = 0, td_sub_complete_count = 0\<rparr>"

definition reset_descriptor :: "task_desc \<Rightarrow> task_desc" where
  "reset_descriptor d =
     d\<lparr>td_key := task_key_default, td_dep_list_head := - 1, td_fanin_count := 0,
       td_fanout_list_head := - 1, td_fanout_count := 1, td_atomic_fanin_refcount := 0,
       td_atomic_fanout_refcount := 0, td_fanout_lock := 0, td_task_freed := False,
       td_kernel_so := '''', td_output_offset := 0, td_output_size := 0, td_heap_end := 0,
       td_status := PENDING, td_fn := None, td_fanout_refcount := 0, td_fanin_refcount := 0,
       td_is_group := False, td_group_size := 0, td_sub_complete_count := 0\<rparr>"

section \<open>The ring\<close>

record task_ring =
  tr_descriptors :: "task_desc list"
  tr_window_size :: i32
  tr_current_index :: i32
  tr_last_task_alive :: i32

definition task_ring_init :: "i32 \<Rightarrow> task_ring res" where
  "task_ring_init ws = bindR (assertR (0 < ws \<and> ws AND (ws - 1) = 0)) (\<lambda>_.
     Inr \<lparr>tr_descriptors = replicate (nat ws) fresh_descriptor, tr_window_size = ws,
          tr_current_index = 0, tr_last_task_alive = 0\<rparr>)"

definition task_ring_reset :: "task_ring \<Rightarrow> task_ring" where
  "task_ring_reset r =
     r\<lparr>tr_current_index := 0, tr_last_task_alive := 0,
       tr_descriptors := map reset_descriptor (tr_descriptors r)\<rparr>"

definition active_count :: "task_ring \<Rightarrow> i32" where
  "active_count r = tr_current_index r - tr_last_task_alive r"

definition has_space :: "task_ring \<Rightarrow> bool" where
  "has_space r \<longleftrightarrow> active_count r < tr_window_size r"

definition task_slot :: "task_ring \<Rightarrow> i32 \<Rightarrow> i32" where
  "task_slot r task_id = task_id AND (tr_window_size r - 1)"

definition task_get :: "task_ring \<Rightarrow> i32 \<Rightarrow> task_desc" where
  "task_get r task_id = tr_descriptors r ! nat (task_slot r task_id)"

definition task_upd :: "i32 \<Rightarrow> (task_desc \<Rightarrow> task_desc) \<Rightarrow> task_ring \<Rightarrow> task_ring" where
  "task_upd task_id f r =
     r\<lparr>tr_descriptors := (tr_descriptors r)[nat (task_slot r task_id) := f (task_get r task_id)]\<rparr>"

text \<open>\<open>- 1\<close> when the window is full, as in the source.\<close>

definition task_try_alloc :: "task_ring \<Rightarrow> (i32 \<times> task_ring) res" where
  "task_try_alloc r =
     (if \<not> has_space r then Inr (- 1, r)
      else
        let task_id = tr_current_index r in
        bindR (inc_i32 (tr_current_index r)) (\<lambda>ci.
          Inr (task_id, task_upd task_id reset_descriptor (r\<lparr>tr_current_index := ci\<rparr>))))"

definition task_alloc :: "task_ring \<Rightarrow> (i32 \<times> task_ring) res" where
  "task_alloc r = bindR (task_try_alloc r) (\<lambda>(task_id, r').
     bindR (assertR (0 \<le> task_id)) (\<lambda>_. Inr (task_id, r')))"

definition set_last_task_alive :: "i32 \<Rightarrow> task_ring \<Rightarrow> task_ring" where
  "set_last_task_alive v r = r\<lparr>tr_last_task_alive := v\<rparr>"

section \<open>Well-formedness\<close>

definition ring_wf :: "task_ring \<Rightarrow> bool" where
  "ring_wf r \<longleftrightarrow>
     0 < tr_window_size r \<and> tr_window_size r AND (tr_window_size r - 1) = 0 \<and>
     length (tr_descriptors r) = nat (tr_window_size r) \<and>
     0 \<le> tr_last_task_alive r \<and> tr_last_task_alive r \<le> tr_current_index r \<and>
     tr_current_index r \<le> tr_last_task_alive r + tr_window_size r \<and>
     tr_current_index r \<le> INT32_MAX"

definition task_live :: "task_ring \<Rightarrow> i32 \<Rightarrow> bool" where
  "task_live r i \<longleftrightarrow> tr_last_task_alive r \<le> i \<and> i < tr_current_index r"

lemma task_slot_mod: "ring_wf r \<Longrightarrow> task_slot r i = i mod tr_window_size r"
  by (simp add: task_slot_def ring_wf_def and_pred_is_mod)

lemma task_slot_range: "ring_wf r \<Longrightarrow> 0 \<le> task_slot r i \<and> nat (task_slot r i) < length (tr_descriptors r)"
  by (simp add: task_slot_mod) (simp add: ring_wf_def nat_less_iff)

interpretation task_window: ring_window
  "\<lambda>r. nat (tr_window_size r)" "\<lambda>r. nat (tr_last_task_alive r)" "\<lambda>r. nat (tr_current_index r)"
  "\<lambda>r v. nat (task_slot r (int v))" ring_wf
proof
  fix r v
  assume "ring_wf r"
  then show "nat (task_slot r (int v)) = v mod nat (tr_window_size r)"
    by (simp add: task_slot_mod) (simp add: ring_wf_def nat_mod_distrib)
qed (auto simp: ring_wf_def)

text \<open>Different live tasks have different slots, also against the next free position.\<close>

lemma task_slots_distinct:
  assumes "ring_wf r" "i \<noteq> j"
    "tr_last_task_alive r \<le> i" "i < tr_last_task_alive r + tr_window_size r"
    "tr_last_task_alive r \<le> j" "j < tr_last_task_alive r + tr_window_size r"
  shows "nat (task_slot r i) \<noteq> nat (task_slot r j)"
proof -
  have pos: "0 \<le> tr_last_task_alive r" "0 < tr_window_size r"
    using assms(1) by (auto simp: ring_wf_def)
  then have "nat i < nat (tr_last_task_alive r) + nat (tr_window_size r)"
    "nat j < nat (tr_last_task_alive r) + nat (tr_window_size r)" "nat i \<noteq> nat j"
    "nat (tr_last_task_alive r) \<le> nat i" "nat (tr_last_task_alive r) \<le> nat j"
    using assms(2-6) by linarith+
  then show ?thesis
    using task_window.slot_inj [OF assms(1), of "nat i" "nat j"] pos assms(3,5) by auto
qed

subsection \<open>Reading and writing descriptors\<close>

lemma task_upd_simps [simp]:
  "tr_window_size (task_upd i f r) = tr_window_size r"
  "tr_current_index (task_upd i f r) = tr_current_index r"
  "tr_last_task_alive (task_upd i f r) = tr_last_task_alive r"
  "length (tr_descriptors (task_upd i f r)) = length (tr_descriptors r)"
  "task_slot (task_upd i f r) j = task_slot r j"
  by (simp_all add: task_upd_def task_slot_def)

lemma ring_wf_upd [simp]: "ring_wf (task_upd i f r) \<longleftrightarrow> ring_wf r"
  by (simp add: ring_wf_def)

lemma task_live_upd [simp]: "task_live (task_upd i f r) j \<longleftrightarrow> task_live r j"
  by (simp add: task_live_def)

lemma active_count_upd [simp]:
  "active_count (task_upd i f r) = active_count r" "has_space (task_upd i f r) = has_space r"
  by (simp_all add: active_count_def has_space_def)

lemma task_get_upd_same [simp]: "ring_wf r \<Longrightarrow> task_get (task_upd i f r) i = f (task_get r i)"
  using task_slot_range [of r i] by (simp add: task_get_def) (simp add: task_upd_def task_get_def)

lemma task_upd_set:
  "set (tr_descriptors (task_upd i f r)) \<subseteq> insert (f (task_get r i)) (set (tr_descriptors r))"
  by (simp add: task_upd_def set_update_subset_insert)

lemma task_get_upd_slot:
  "ring_wf r \<Longrightarrow> task_get (task_upd i f r) j =
     (if task_slot r i = task_slot r j then f (task_get r j) else task_get r j)"
  using task_slot_range [of r i] task_slot_range [of r j]
  by (simp add: task_get_def) (auto simp: task_upd_def task_get_def nth_list_update nat_eq_iff_pos)

lemma task_get_upd_live:
  assumes "ring_wf r" "task_live r i" "task_live r j"
  shows "task_get (task_upd i f r) j = (if i = j then f (task_get r j) else task_get r j)"
proof (cases "i = j")
  case False
  have "tr_current_index r \<le> tr_last_task_alive r + tr_window_size r"
    using assms(1) by (simp add: ring_wf_def)
  with task_slots_distinct [OF assms(1) False] assms(2,3) False show ?thesis
    using assms(1) by (auto simp: task_get_upd_slot task_live_def)
qed (simp add: assms(1))

lemma task_ring_init_wf:
  assumes "task_ring_init ws = Inr r"
  shows "ring_wf r \<and> tr_window_size r = ws \<and> tr_current_index r = 0 \<and> tr_last_task_alive r = 0"
  using assms by (auto simp: task_ring_init_def ring_wf_def elim!: bindR_InrE)

lemma task_ring_reset_wf [wf_intros]: "ring_wf r \<Longrightarrow> ring_wf (task_ring_reset r)"
  by (auto simp: ring_wf_def task_ring_reset_def)

lemma set_last_task_alive_wf [wf_intros]:
  "ring_wf r \<Longrightarrow> tr_last_task_alive r \<le> v \<Longrightarrow> v \<le> tr_current_index r \<Longrightarrow>
   ring_wf (set_last_task_alive v r)"
  by (auto simp: ring_wf_def set_last_task_alive_def)

lemma set_last_task_alive_simps [simp]:
  "tr_window_size (set_last_task_alive v r) = tr_window_size r"
  "tr_current_index (set_last_task_alive v r) = tr_current_index r"
  "tr_last_task_alive (set_last_task_alive v r) = v"
  "task_get (set_last_task_alive v r) i = task_get r i"
  by (simp_all add: set_last_task_alive_def task_get_def task_slot_def)

lemma reset_descriptor_fresh: "reset_descriptor d = fresh_descriptor"
  by (simp add: reset_descriptor_def fresh_descriptor_def)

lemma task_alloc_eq:
  assumes "ring_wf r" "has_space r" "tr_current_index r < INT32_MAX"
  shows "task_alloc r = Inr (tr_current_index r,
    task_upd (tr_current_index r) reset_descriptor (r\<lparr>tr_current_index := tr_current_index r + 1\<rparr>))"
  using assms by (simp add: task_alloc_def task_try_alloc_def inc_i32_def ring_wf_def Let_def)

lemma task_alloc_InrD:
  assumes "task_alloc r = Inr (i, r')"
  shows "i = tr_current_index r"
    "r' = task_upd i reset_descriptor (r\<lparr>tr_current_index := i + 1\<rparr>)"
    "has_space r" "tr_current_index r < INT32_MAX"
  using assms
  by (auto simp: task_alloc_def task_try_alloc_def inc_i32_def Let_def
      split: if_splits elim!: bindR_InrE)

lemma task_get_extend [simp]:
  "task_get (r\<lparr>tr_current_index := c\<rparr>) j = task_get r j"
  by (simp add: task_get_def task_slot_def)

lemma ring_wf_extend:
  "ring_wf r \<Longrightarrow> has_space r \<Longrightarrow> tr_current_index r < INT32_MAX \<Longrightarrow>
   ring_wf (r\<lparr>tr_current_index := tr_current_index r + 1\<rparr>)"
  by (auto simp: ring_wf_def has_space_def active_count_def)

lemma task_alloc_wf:
  assumes "ring_wf r" "task_alloc r = Inr (i, r')"
  shows "ring_wf r'" "tr_current_index r' = i + 1" "tr_last_task_alive r' = tr_last_task_alive r"
    "tr_window_size r' = tr_window_size r" "task_live r' i" "task_get r' i = fresh_descriptor"
    "\<And>j. task_live r j \<Longrightarrow> task_live r' j \<and> task_get r' j = task_get r j"
proof -
  note d = task_alloc_InrD [OF assms(2)]
  let ?r1 = "r\<lparr>tr_current_index := i + 1\<rparr>"
  have wf1: "ring_wf ?r1" using ring_wf_extend [OF assms(1) d(3,4)] d(1) by simp
  have last: "tr_last_task_alive r \<le> i" using assms(1) d(1) by (simp add: ring_wf_def)
  show "ring_wf r'" "tr_current_index r' = i + 1" "tr_last_task_alive r' = tr_last_task_alive r"
    "tr_window_size r' = tr_window_size r" using wf1 by (simp_all add: d(2))
  show live_i: "task_live r' i" using last by (simp add: d(2) task_live_def)
  show "task_get r' i = fresh_descriptor" using wf1 by (simp add: d(2) reset_descriptor_fresh)
  fix j
  assume "task_live r j"
  then have j: "task_live ?r1 j" "i \<noteq> j" using d(1) by (auto simp: task_live_def)
  moreover have "task_live ?r1 i" using last by (simp add: task_live_def)
  ultimately show "task_live r' j \<and> task_get r' j = task_get r j"
    using task_get_upd_live [OF wf1] by (simp add: d(2))
qed

section \<open>Properties\<close>

text \<open>C19. Allocation of a task slot: in a well-formed ring it fails its \<^verbatim>\<open>assert\<close> exactly when the window
  is full; otherwise, below the largest task id, it returns the next id with a reset descriptor, and
  every live task keeps its descriptor.\<close>

theorem task_alloc_correct:
  assumes "ring_wf r" "tr_current_index r < INT32_MAX"
  shows "(task_alloc r = Inl AssertFail \<longleftrightarrow> active_count r = tr_window_size r) \<and>
    (active_count r < tr_window_size r \<longrightarrow>
      (\<exists>r'. task_alloc r = Inr (tr_current_index r, r') \<and> ring_wf r' \<and>
        task_get r' (tr_current_index r) = fresh_descriptor \<and>
        (\<forall>j. task_live r j \<longrightarrow> task_live r' j \<and> task_get r' j = task_get r j)))"
proof (cases "has_space r")
  case True
  from task_alloc_eq [OF assms(1) True assms(2)] obtain r' where
    a: "task_alloc r = Inr (tr_current_index r, r')" by blast
  from task_alloc_wf [OF assms(1) a] a True show ?thesis
    by (auto simp: has_space_def)
next
  case False
  then have "active_count r = tr_window_size r"
    using assms(1) by (auto simp: has_space_def ring_wf_def active_count_def)
  with False show ?thesis
    by (simp add: task_alloc_def task_try_alloc_def has_space_def)
qed

theorem task_alloc_correct_witness:
  "\<exists>r r'. task_ring_init 4 = Inr r \<and> task_alloc r = Inr (0, r') \<and> ring_wf r'"
proof -
  obtain r where r: "task_ring_init 4 = Inr r" by (simp add: task_ring_init_def)
  note wf = task_ring_init_wf [OF r]
  with task_alloc_correct [of r] have "\<exists>r'. task_alloc r = Inr (0, r') \<and> ring_wf r'"
    by (auto simp: active_count_def)
  with r show ?thesis by blast
qed

end
