(* ===== verification/Scope_Stack.thy ===== *)
theory Scope_Stack
  imports Task_Ring "HOL-Library.Multiset"
begin

text \<open>
  \<^verbatim>\<open>LinquScopeStack\<close> (src/src/runtime/linqu_scope.h and .cpp): nested scopes over one flat array of task
  ids. \<^verbatim>\<open>scope_begin\<close> records where a scope's tasks start, \<^verbatim>\<open>scope_end\<close> gives every task registered since
  then one fan-out reference and drops them. The callback that finds a descriptor is the task ring's
  \<^verbatim>\<open>get\<close>, as both callers pass it.
\<close>

section \<open>State and operations\<close>

record scope_stack =
  ss_scope_tasks :: "i32 list"
  ss_scope_tasks_size :: i32
  ss_scope_begins :: "i32 list"
  ss_stack_top :: i32
  ss_max_depth :: i32

definition scope_new :: scope_stack where
  "scope_new = \<lparr>ss_scope_tasks = [], ss_scope_tasks_size = 0, ss_scope_begins = [],
                ss_stack_top = - 1, ss_max_depth = 0\<rparr>"

definition scope_init :: "i32 \<Rightarrow> i32 \<Rightarrow> scope_stack \<Rightarrow> scope_stack" where
  "scope_init max_depth max_tasks s =
     s\<lparr>ss_max_depth := max_depth,
       ss_scope_tasks := vec_resize (ss_scope_tasks s) (nat max_tasks) 0,
       ss_scope_begins := vec_resize (ss_scope_begins s) (nat max_depth) 0,
       ss_scope_tasks_size := 0, ss_stack_top := - 1\<rparr>"

definition scope_reset :: "scope_stack \<Rightarrow> scope_stack" where
  "scope_reset s = s\<lparr>ss_scope_tasks_size := 0, ss_stack_top := - 1\<rparr>"

definition scope_depth :: "scope_stack \<Rightarrow> i32" where
  "scope_depth s = ss_stack_top s"

definition stack_scope_begin :: "scope_stack \<Rightarrow> scope_stack res" where
  "stack_scope_begin s =
     (let top = ss_stack_top s + 1 in
      bindR (assertR (top < ss_max_depth s)) (\<lambda>_.
      bindR (vec_put (ss_scope_begins s) top (ss_scope_tasks_size s)) (\<lambda>bs.
        Inr (s\<lparr>ss_stack_top := top, ss_scope_begins := bs\<rparr>))))"

text \<open>The body of the loop in \<^verbatim>\<open>scope_end\<close>.\<close>

definition scope_release :: "i32 \<Rightarrow> task_ring \<Rightarrow> task_ring" where
  "scope_release tid r =
     (if \<not> td_task_freed (task_get r tid)
      then task_upd tid (\<lambda>d. d\<lparr>td_fanout_refcount := td_fanout_refcount d + 1\<rparr>) r else r)"

fun scope_release_from :: "scope_stack \<Rightarrow> nat \<Rightarrow> i32 \<Rightarrow> task_ring \<Rightarrow> task_ring res" where
  "scope_release_from s 0 i r = Inr r"
| "scope_release_from s (Suc k) i r =
     bindR (vec_at (ss_scope_tasks s) i) (\<lambda>tid.
       scope_release_from s k (i + 1) (scope_release tid r))"

definition stack_scope_end :: "scope_stack \<Rightarrow> task_ring \<Rightarrow> (scope_stack \<times> task_ring) res" where
  "stack_scope_end s r =
     bindR (assertR (0 \<le> ss_stack_top s)) (\<lambda>_.
     bindR (vec_at (ss_scope_begins s) (ss_stack_top s)) (\<lambda>begin_idx.
     bindR (scope_release_from s (nat (ss_scope_tasks_size s - begin_idx)) begin_idx r) (\<lambda>r'.
       Inr (s\<lparr>ss_scope_tasks_size := begin_idx, ss_stack_top := ss_stack_top s - 1\<rparr>, r'))))"

definition stack_add_task :: "i32 \<Rightarrow> scope_stack \<Rightarrow> scope_stack res" where
  "stack_add_task task_id s =
     bindR (assertR (ss_scope_tasks_size s < int (length (ss_scope_tasks s)))) (\<lambda>_.
     bindR (vec_put (ss_scope_tasks s) (ss_scope_tasks_size s) task_id) (\<lambda>ts.
       Inr (s\<lparr>ss_scope_tasks := ts, ss_scope_tasks_size := ss_scope_tasks_size s + 1\<rparr>)))"

definition tasks_in_current_scope :: "scope_stack \<Rightarrow> i32 res" where
  "tasks_in_current_scope s =
     (if ss_stack_top s < 0 then Inr 0
      else bindR (vec_at (ss_scope_begins s) (ss_stack_top s)) (\<lambda>b. Inr (ss_scope_tasks_size s - b)))"

section \<open>Abstraction: a stack of task lists\<close>

definition scope_wf :: "scope_stack \<Rightarrow> bool" where
  "scope_wf s \<longleftrightarrow>
     0 \<le> ss_scope_tasks_size s \<and> ss_scope_tasks_size s \<le> int (length (ss_scope_tasks s)) \<and>
     - 1 \<le> ss_stack_top s \<and> ss_stack_top s < ss_max_depth s \<and>
     int (length (ss_scope_begins s)) = ss_max_depth s \<and>
     (\<forall>k. 0 \<le> k \<and> k \<le> ss_stack_top s \<longrightarrow> 0 \<le> ss_scope_begins s ! nat k) \<and>
     sorted (take (nat (ss_stack_top s + 1)) (ss_scope_begins s) @ [ss_scope_tasks_size s])"

text \<open>The live part of the flat array and the starts of the open scopes, innermost last.\<close>

definition scope_tasks :: "scope_stack \<Rightarrow> i32 list" where
  "scope_tasks s = take (nat (ss_scope_tasks_size s)) (ss_scope_tasks s)"

definition scope_starts :: "scope_stack \<Rightarrow> nat list" where
  "scope_starts s = map nat (take (nat (ss_stack_top s + 1)) (ss_scope_begins s))"

text \<open>The abstract machine: \<open>(tasks, starts)\<close>.\<close>

type_synonym scope_abs = "i32 list \<times> nat list"

definition scope_abs :: "scope_stack \<Rightarrow> scope_abs" where
  "scope_abs s = (scope_tasks s, scope_starts s)"

definition abs_begin :: "scope_abs \<Rightarrow> scope_abs" where
  "abs_begin a = (fst a, snd a @ [length (fst a)])"

definition abs_add :: "i32 \<Rightarrow> scope_abs \<Rightarrow> scope_abs" where
  "abs_add t a = (fst a @ [t], snd a)"

definition abs_end :: "scope_abs \<Rightarrow> i32 list \<times> scope_abs" where
  "abs_end a = (drop (last (snd a)) (fst a), (take (last (snd a)) (fst a), butlast (snd a)))"

text \<open>Programs over the stack: the operations in the order the orchestration code issues them.\<close>

datatype scope_op = SBegin | SAdd i32 | SEnd

fun scope_run :: "scope_op list \<Rightarrow> scope_stack \<times> task_ring \<Rightarrow> (scope_stack \<times> task_ring) res" where
  "scope_run [] sr = Inr sr"
| "scope_run (SBegin # ops) (s, r) = bindR (stack_scope_begin s) (\<lambda>s'. scope_run ops (s', r))"
| "scope_run (SAdd t # ops) (s, r) = bindR (stack_add_task t s) (\<lambda>s'. scope_run ops (s', r))"
| "scope_run (SEnd # ops) (s, r) = bindR (stack_scope_end s r) (scope_run ops)"

inductive balanced :: "scope_op list \<Rightarrow> bool" where
  nil: "balanced []"
| add: "balanced w \<Longrightarrow> balanced (SAdd t # w)"
| nest: "balanced u \<Longrightarrow> balanced w \<Longrightarrow> balanced (SBegin # u @ SEnd # w)"

fun added :: "scope_op list \<Rightarrow> i32 list" where
  "added [] = []"
| "added (SAdd t # w) = t # added w"
| "added (_ # w) = added w"

text \<open>The number of begins bounds the nesting depth.\<close>

fun begins :: "scope_op list \<Rightarrow> nat" where
  "begins [] = 0"
| "begins (SBegin # w) = Suc (begins w)"
| "begins (_ # w) = begins w"

section \<open>Simulation\<close>

lemma scope_begin_refines:
  assumes "scope_wf s" "ss_stack_top s + 1 < ss_max_depth s"
  shows "\<exists>s'. stack_scope_begin s = Inr s' \<and> scope_wf s' \<and> scope_abs s' = abs_begin (scope_abs s) \<and>
    ss_stack_top s' = ss_stack_top s + 1 \<and> ss_max_depth s' = ss_max_depth s \<and>
    ss_scope_tasks_size s' = ss_scope_tasks_size s \<and>
    length (ss_scope_tasks s') = length (ss_scope_tasks s)"
proof -
  let ?k = "nat (ss_stack_top s + 1)"
  let ?s = "s\<lparr>ss_stack_top := ss_stack_top s + 1,
              ss_scope_begins := (ss_scope_begins s)[?k := ss_scope_tasks_size s]\<rparr>"
  have k: "?k < length (ss_scope_begins s)" using assms by (auto simp: scope_wf_def)
  have eq: "stack_scope_begin s = Inr ?s"
    using assms k by (simp add: stack_scope_begin_def Let_def scope_wf_def)
  have take: "take (nat (2 + ss_stack_top s)) ((ss_scope_begins s)[?k := x]) =
      take ?k (ss_scope_begins s) @ [x]" for x
  proof -
    have "- 1 \<le> ss_stack_top s" using assms(1) by (simp add: scope_wf_def)
    then have "nat (2 + ss_stack_top s) = Suc ?k" by linarith
    with k show ?thesis by (simp add: take_Suc_conv_app_nth)
  qed
  have "scope_wf ?s"
    using assms k take [of "ss_scope_tasks_size s"]
    by (auto simp: scope_wf_def nth_list_update sorted_append nat_eq_iff_pos)
  moreover have "scope_abs ?s = abs_begin (scope_abs s)"
    using assms take [of "ss_scope_tasks_size s"]
    by (auto simp: scope_abs_def abs_begin_def scope_tasks_def scope_starts_def scope_wf_def)
  ultimately show ?thesis using eq by simp
qed

lemma scope_add_refines:
  assumes "scope_wf s" "ss_scope_tasks_size s < int (length (ss_scope_tasks s))"
  shows "\<exists>s'. stack_add_task t s = Inr s' \<and> scope_wf s' \<and> scope_abs s' = abs_add t (scope_abs s) \<and>
    ss_stack_top s' = ss_stack_top s \<and> ss_max_depth s' = ss_max_depth s \<and>
    ss_scope_tasks_size s' = ss_scope_tasks_size s + 1 \<and>
    length (ss_scope_tasks s') = length (ss_scope_tasks s)"
proof -
  let ?n = "ss_scope_tasks_size s"
  let ?s = "s\<lparr>ss_scope_tasks := (ss_scope_tasks s)[nat ?n := t], ss_scope_tasks_size := ?n + 1\<rparr>"
  have n: "0 \<le> ?n" "nat (?n + 1) = Suc (nat ?n)" "nat ?n < length (ss_scope_tasks s)"
    using assms by (auto simp: scope_wf_def)
  have eq: "stack_add_task t s = Inr ?s"
    using assms by (simp add: stack_add_task_def scope_wf_def)
  have "scope_wf ?s"
    using assms by (auto simp: scope_wf_def sorted_append)
  moreover have "scope_abs ?s = abs_add t (scope_abs s)"
    using n by (simp add: scope_abs_def abs_add_def scope_tasks_def scope_starts_def
        take_Suc_conv_app_nth)
  ultimately show ?thesis using eq by simp
qed

lemma scope_release_from_fold:
  assumes "0 \<le> i" "nat i + k \<le> length (ss_scope_tasks s)"
  shows "scope_release_from s k i r =
    Inr (fold scope_release (take k (drop (nat i) (ss_scope_tasks s))) r)"
  using assms
proof (induction k arbitrary: i r)
  case 0
  then show ?case by simp
next
  case (Suc k)
  have "take (Suc k) (drop (nat i) (ss_scope_tasks s)) =
      ss_scope_tasks s ! nat i # take k (drop (nat (i + 1)) (ss_scope_tasks s))"
    using Suc.prems by (simp add: Cons_nth_drop_Suc [symmetric] nat_add_distrib)
  moreover have "nat (i + 1) + k \<le> length (ss_scope_tasks s)" "0 \<le> i + 1"
    using Suc.prems by auto
  ultimately show ?case using Suc.prems Suc.IH [of "i + 1"] by simp
qed

lemma scope_end_refines:
  assumes "scope_wf s" "0 \<le> ss_stack_top s"
  shows "\<exists>s'. stack_scope_end s r =
      Inr (s', fold scope_release (fst (abs_end (scope_abs s))) r) \<and> scope_wf s' \<and>
    scope_abs s' = snd (abs_end (scope_abs s)) \<and>
    ss_stack_top s' = ss_stack_top s - 1 \<and> ss_max_depth s' = ss_max_depth s \<and>
    ss_scope_tasks_size s' \<le> ss_scope_tasks_size s \<and>
    length (ss_scope_tasks s') = length (ss_scope_tasks s)"
proof -
  let ?k = "nat (ss_stack_top s)" and ?n = "ss_scope_tasks_size s"
  let ?b = "ss_scope_begins s ! ?k"
  let ?s = "s\<lparr>ss_scope_tasks_size := ?b, ss_stack_top := ss_stack_top s - 1\<rparr>"
  have k: "?k < length (ss_scope_begins s)" "nat (ss_stack_top s + 1) = Suc ?k"
    using assms by (auto simp: scope_wf_def)
  have starts: "take (Suc ?k) (ss_scope_begins s) = take ?k (ss_scope_begins s) @ [?b]"
    using k by (simp add: take_Suc_conv_app_nth)
  have b: "0 \<le> ?b" "?b \<le> ?n" "sorted (take ?k (ss_scope_begins s) @ [?b])"
    using assms starts k(2) by (auto simp: scope_wf_def sorted_append)
  have n: "?n \<le> int (length (ss_scope_tasks s))" using assms by (simp add: scope_wf_def)
  have abs: "abs_end (scope_abs s) =
      (take (nat (?n - ?b)) (drop (nat ?b) (ss_scope_tasks s)),
       (take (nat ?b) (ss_scope_tasks s), map nat (take ?k (ss_scope_begins s))))"
    using b k starts by (simp add: abs_end_def scope_abs_def scope_tasks_def scope_starts_def
        drop_take nat_diff_distrib min_def)
  have "scope_release_from s (nat (?n - ?b)) ?b r =
      Inr (fold scope_release (take (nat (?n - ?b)) (drop (nat ?b) (ss_scope_tasks s))) r)"
    using b n by (intro scope_release_from_fold) auto
  then have eq: "stack_scope_end s r = Inr (?s, fold scope_release (fst (abs_end (scope_abs s))) r)"
    using assms k abs by (simp add: stack_scope_end_def scope_wf_def)
  have "scope_wf ?s" using assms b n k by (auto simp: scope_wf_def)
  moreover have "scope_abs ?s = snd (abs_end (scope_abs s))"
    using abs by (simp add: scope_abs_def scope_tasks_def scope_starts_def)
  ultimately show ?thesis using eq b by auto
qed

lemma scope_run_append: "scope_run (u @ w) sr = bindR (scope_run u sr) (scope_run w)"
proof (induction u sr rule: scope_run.induct)
  case (2 ops s r)
  then show ?case by (cases "stack_scope_begin s") auto
next
  case (3 t ops s r)
  then show ?case by (cases "stack_add_task t s") auto
next
  case (4 ops s r)
  then show ?case by (cases "stack_scope_end s r") auto
qed simp

lemma added_append [simp]: "added (u @ w) = added u @ added w"
  by (induction u rule: added.induct) auto

lemma begins_append [simp]: "begins (u @ w) = begins u + begins w"
  by (induction u rule: begins.induct) auto

text \<open>
  Room for a program: enough stack entries for its begins and enough array cells for its tasks.
\<close>

definition scope_room :: "scope_op list \<Rightarrow> scope_stack \<Rightarrow> bool" where
  "scope_room ops s \<longleftrightarrow> ss_stack_top s + int (begins ops) < ss_max_depth s \<and>
     ss_scope_tasks_size s + int (length (added ops)) \<le> int (length (ss_scope_tasks s))"

lemma scope_abs_size:
  "scope_wf s \<Longrightarrow> int (length (fst (scope_abs s))) = ss_scope_tasks_size s"
  by (auto simp: scope_abs_def scope_tasks_def scope_wf_def min_def)

text \<open>
  What a program does to a stack: it ends in \<open>s'\<close> with \<open>own\<close> registered in the innermost open
  scope and has released the tasks \<open>rel\<close>, in this order.
\<close>

definition scope_effect ::
  "scope_op list \<Rightarrow> scope_stack \<Rightarrow> task_ring \<Rightarrow> scope_stack \<Rightarrow> i32 list \<Rightarrow> i32 list \<Rightarrow> bool" where
  "scope_effect u s r s' own rel \<longleftrightarrow>
     scope_run u (s, r) = Inr (s', fold scope_release rel r) \<and> scope_wf s' \<and>
     scope_abs s' = (fst (scope_abs s) @ own, snd (scope_abs s)) \<and>
     mset own + mset rel = mset (added u) \<and>
     ss_stack_top s' = ss_stack_top s \<and> ss_max_depth s' = ss_max_depth s \<and>
     length (ss_scope_tasks s') = length (ss_scope_tasks s)"

lemma scope_effect_append:
  assumes "scope_effect u s r s1 own rel"
    and "scope_effect w s1 (fold scope_release rel r) s2 own' rel'"
  shows "scope_effect (u @ w) s r s2 (own @ own') (rel @ rel')"
proof -
  have "mset own + mset own' + (mset rel + mset rel') = mset own + mset rel + (mset own' + mset rel')"
    by (simp add: ac_simps)
  with assms show ?thesis by (simp add: scope_effect_def scope_run_append)
qed

lemma scope_effect_size:
  "scope_wf s \<Longrightarrow> scope_effect u s r s' own rel \<Longrightarrow>
   ss_scope_tasks_size s' = ss_scope_tasks_size s + int (length own)"
  using scope_abs_size [of s] scope_abs_size [of s'] by (auto simp: scope_effect_def)

lemma scope_effect_nest:
  assumes wf: "scope_wf s" and room: "scope_room (SBegin # u @ SEnd # w) s"
    and body: "\<And>s1. scope_wf s1 \<Longrightarrow> scope_room u s1 \<Longrightarrow> \<exists>s2 own rel. scope_effect u s1 r s2 own rel"
  shows "\<exists>s3 rel. scope_effect (SBegin # u @ [SEnd]) s r s3 [] rel"
proof -
  have "ss_stack_top s + 1 < ss_max_depth s" using room by (simp add: scope_room_def)
  from scope_begin_refines [OF wf this] obtain s1 where
    s1: "stack_scope_begin s = Inr s1" "scope_wf s1" "scope_abs s1 = abs_begin (scope_abs s)"
      "ss_stack_top s1 = ss_stack_top s + 1" "ss_max_depth s1 = ss_max_depth s"
      "ss_scope_tasks_size s1 = ss_scope_tasks_size s"
      "length (ss_scope_tasks s1) = length (ss_scope_tasks s)" by blast
  have "scope_room u s1" using room s1 by (simp add: scope_room_def)
  from body [OF s1(2) this] obtain s2 own rel where s2: "scope_effect u s1 r s2 own rel" by blast
  then have ae: "abs_end (scope_abs s2) = (own, scope_abs s)"
    by (simp add: scope_effect_def s1(3) abs_begin_def abs_end_def)
  have "0 \<le> ss_stack_top s2" "scope_wf s2"
    using s1 s2 wf by (auto simp: scope_effect_def scope_wf_def)
  from scope_end_refines [OF this(2,1), of "fold scope_release rel r"] obtain s3 where
    s3: "stack_scope_end s2 (fold scope_release rel r) =
        Inr (s3, fold scope_release own (fold scope_release rel r))" "scope_wf s3"
      "scope_abs s3 = scope_abs s" "ss_stack_top s3 = ss_stack_top s2 - 1"
      "ss_max_depth s3 = ss_max_depth s2"
      "length (ss_scope_tasks s3) = length (ss_scope_tasks s2)" unfolding ae by auto
  have "scope_effect (SBegin # u @ [SEnd]) s r s3 [] (rel @ own)"
    using s1 s2 s3 by (simp add: scope_effect_def scope_run_append union_commute)
  then show ?thesis by blast
qed

lemma balanced_run:
  assumes "balanced u" "scope_wf s" "scope_room u s"
  shows "\<exists>s' own rel. scope_effect u s r s' own rel"
  using assms
proof (induction u arbitrary: s r rule: balanced.induct)
  case nil
  then have "scope_effect [] s r s [] []" by (simp add: scope_effect_def)
  then show ?case by blast
next
  case (add w t)
  have "ss_scope_tasks_size s < int (length (ss_scope_tasks s))"
    using add.prems(2) by (simp add: scope_room_def)
  from scope_add_refines [OF add.prems(1) this, of t] obtain s1 where
    s1: "stack_add_task t s = Inr s1" "scope_wf s1" "scope_abs s1 = abs_add t (scope_abs s)"
      "ss_stack_top s1 = ss_stack_top s" "ss_max_depth s1 = ss_max_depth s"
      "ss_scope_tasks_size s1 = ss_scope_tasks_size s + 1"
      "length (ss_scope_tasks s1) = length (ss_scope_tasks s)" by blast
  then have e1: "scope_effect [SAdd t] s r s1 [t] []" by (simp add: scope_effect_def abs_add_def)
  have "scope_room w s1" using add.prems(2) s1 by (simp add: scope_room_def)
  from add.IH [OF s1(2) this, of r] obtain s' own rel where "scope_effect w s1 r s' own rel" by blast
  with scope_effect_append [OF e1, of w s' own rel] show ?case by auto
next
  case (nest u w)
  from scope_effect_nest [OF nest.prems nest.IH(1)] obtain s1 rel where
    e1: "scope_effect (SBegin # u @ [SEnd]) s r s1 [] rel" by blast
  have "scope_wf s1" "scope_room w s1"
    using e1 nest.prems scope_effect_size [OF nest.prems(1) e1]
    by (auto simp: scope_effect_def scope_room_def)
  from nest.IH(2) [OF this] obtain s' own rel' where
    "scope_effect w s1 (fold scope_release rel r) s' own rel'" by blast
  with scope_effect_append [OF e1] have "scope_effect (SBegin # u @ SEnd # w) s r s' own (rel @ rel')"
    by fastforce
  then show ?case by blast
qed

section \<open>Properties\<close>



end
