(* ===== verification/Tensor_Map.thy ===== *)
theory Tensor_Map
  imports Linqu_Prelude
begin

text \<open>
  \<^verbatim>\<open>LinquTensorMap\<close> (src/src/runtime/linqu_tensormap.h and .cpp): which task produces which tensor handle.
  A hash table whose bucket chains and per-task chains are threaded through a fixed pool of entries
  that is reused round-robin. Every \<^verbatim>\<open>while\<close> loop over a chain is a recursion with the pool's length as
  fuel: the cursor alone decides the next step, so a longer walk has met an entry twice and never
  ends (\<open>Diverges\<close>).
\<close>

section \<open>State\<close>

record tm_entry =
  te_tensor_handle :: u64
  te_producer_task_id :: i32
  te_next_in_bucket :: i32
  te_next_in_task :: i32
  te_valid :: bool
  te_is_output_alloc :: bool

definition tm_entry_zero :: tm_entry where
  "tm_entry_zero = \<lparr>te_tensor_handle = 0, te_producer_task_id = 0, te_next_in_bucket = 0,
     te_next_in_task = 0, te_valid = False, te_is_output_alloc = False\<rparr>"

record tensor_map =
  tm_buckets :: "i32 list"
  tm_pool :: "tm_entry list"
  tm_task_heads :: "i32 list"
  tm_num_buckets :: i32
  tm_pool_size :: i32
  tm_next_entry :: i32
  tm_last_task_alive :: i32

definition tm_new :: tensor_map where
  "tm_new = \<lparr>tm_buckets = [], tm_pool = [], tm_task_heads = [], tm_num_buckets = 0,
     tm_pool_size = 0, tm_next_entry = 0, tm_last_task_alive = 0\<rparr>"

section \<open>Operations\<close>

definition tm_init :: "i32 \<Rightarrow> i32 \<Rightarrow> tensor_map \<Rightarrow> tensor_map res" where
  "tm_init num_buckets pool_size tm =
     bindR (assertR (0 < num_buckets \<and> num_buckets AND (num_buckets - 1) = 0)) (\<lambda>_.
       Inr (tm\<lparr>tm_num_buckets := num_buckets, tm_pool_size := pool_size,
               tm_buckets := replicate (nat num_buckets) (- 1),
               tm_pool := vec_resize (tm_pool tm) (nat pool_size) tm_entry_zero,
               tm_task_heads := replicate (nat pool_size) (- 1),
               tm_next_entry := 0, tm_last_task_alive := 0\<rparr>))"

definition tm_reset :: "tensor_map \<Rightarrow> tensor_map" where
  "tm_reset tm =
     tm\<lparr>tm_buckets := map (\<lambda>_. - 1) (tm_buckets tm),
        tm_task_heads := map (\<lambda>_. - 1) (tm_task_heads tm),
        tm_next_entry := 0, tm_last_task_alive := 0\<rparr>"

definition tm_hash :: "tensor_map \<Rightarrow> u64 \<Rightarrow> i32" where
  "tm_hash tm handle =
     (let h = handle;
          h = h XOR drop_bit 33 h;
          h = h * 0xff51afd7ed558ccd;
          h = h XOR drop_bit 33 h
      in uint (h AND word_of_int (tm_num_buckets tm - 1)))"

text \<open>\<^verbatim>\<open>%\<close> on \<^verbatim>\<open>int32_t\<close> truncates towards zero.\<close>

definition c_rem :: "int \<Rightarrow> int \<Rightarrow> int" where
  "c_rem a b = (if 0 \<le> a then a mod b else - ((- a) mod b))"

text \<open>Walk a chain and clear \<^verbatim>\<open>valid\<close> on the entries that satisfy \<open>P\<close>.\<close>

fun invalidate_chain ::
  "nat \<Rightarrow> (tm_entry \<Rightarrow> i32) \<Rightarrow> (tm_entry \<Rightarrow> bool) \<Rightarrow> i32 \<Rightarrow> tm_entry list \<Rightarrow> tm_entry list res" where
  "invalidate_chain fuel nxt P cur pool =
     (if cur < 0 then Inr pool
      else (case fuel of 0 \<Rightarrow> Inl Diverges
        | Suc fuel' \<Rightarrow> bindR (vec_at pool cur) (\<lambda>e.
            invalidate_chain fuel' nxt P (nxt e)
              (if P e then pool[nat cur := e\<lparr>te_valid := False\<rparr>] else pool))))"

declare invalidate_chain.simps [simp del]

definition stale_for :: "tensor_map \<Rightarrow> u64 \<Rightarrow> i32 \<Rightarrow> tm_entry \<Rightarrow> bool" where
  "stale_for tm handle new_task_id e \<longleftrightarrow>
     te_valid e \<and> te_tensor_handle e = handle \<and>
     tm_last_task_alive tm \<le> te_producer_task_id e \<and> te_producer_task_id e < new_task_id \<and>
     te_is_output_alloc e"

definition remove_stale_for_handle :: "u64 \<Rightarrow> i32 \<Rightarrow> tensor_map \<Rightarrow> tensor_map res" where
  "remove_stale_for_handle handle new_task_id tm =
     bindR (vec_at (tm_buckets tm) (tm_hash tm handle)) (\<lambda>cur.
     bindR (invalidate_chain (length (tm_pool tm)) te_next_in_bucket (stale_for tm handle new_task_id)
              cur (tm_pool tm)) (\<lambda>pool. Inr (tm\<lparr>tm_pool := pool\<rparr>)))"

text \<open>
  The unlinking loop of \<^verbatim>\<open>insert\<close> follows \<^verbatim>\<open>prev_ptr\<close>, first the bucket head and then the \<^verbatim>\<open>next_in_bucket\<close>
  field of entry \<open>p\<close>.
\<close>

fun unlink_after :: "nat \<Rightarrow> i32 \<Rightarrow> i32 \<Rightarrow> tm_entry list \<Rightarrow> tm_entry list res" where
  "unlink_after fuel idx p pool =
     (case fuel of 0 \<Rightarrow> Inl Diverges
      | Suc fuel' \<Rightarrow> bindR (vec_at pool p) (\<lambda>e.
          if te_next_in_bucket e < 0 then Inr pool
          else if te_next_in_bucket e = idx
          then bindR (vec_at pool idx) (\<lambda>d.
                 Inr (pool[nat p := e\<lparr>te_next_in_bucket := te_next_in_bucket d\<rparr>]))
          else unlink_after fuel' idx (te_next_in_bucket e) pool))"

declare unlink_after.simps [simp del]

definition unlink_entry :: "i32 \<Rightarrow> tensor_map \<Rightarrow> tensor_map res" where
  "unlink_entry idx tm =
     bindR (vec_at (tm_pool tm) idx) (\<lambda>e.
     let old_bucket = tm_hash tm (te_tensor_handle e) in
     bindR (vec_at (tm_buckets tm) old_bucket) (\<lambda>head.
     if head < 0 then Inr tm
     else if head = idx
     then Inr (tm\<lparr>tm_buckets := (tm_buckets tm)[nat old_bucket := te_next_in_bucket e]\<rparr>)
     else bindR (unlink_after (length (tm_pool tm)) idx head (tm_pool tm)) (\<lambda>pool.
            Inr (tm\<lparr>tm_pool := pool\<rparr>))))"

text \<open>Lines 53 to 64 of \<^verbatim>\<open>insert\<close>: make the next pool entry free.\<close>

definition recycle_entry :: "i32 \<Rightarrow> tensor_map \<Rightarrow> tensor_map res" where
  "recycle_entry idx tm =
     bindR (vec_at (tm_pool tm) idx) (\<lambda>e.
     if te_valid e
     then bindR (unlink_entry idx tm) (\<lambda>tm1.
          bindR (vec_at (tm_pool tm1) idx) (\<lambda>e1.
            Inr (tm1\<lparr>tm_pool := (tm_pool tm1)[nat idx := e1\<lparr>te_valid := False\<rparr>]\<rparr>)))
     else Inr tm)"

text \<open>Lines 66 to 79: fill the entry and push it on its bucket chain and its task chain.\<close>

definition push_entry :: "i32 \<Rightarrow> u64 \<Rightarrow> i32 \<Rightarrow> bool \<Rightarrow> tensor_map \<Rightarrow> tensor_map res" where
  "push_entry idx handle producer_task_id is_output tm =
     bindR (inc_i32 (tm_next_entry tm)) (\<lambda>ne.
     let bucket = tm_hash tm handle; task_slot = c_rem producer_task_id (tm_pool_size tm) in
     bindR (vec_at (tm_buckets tm) bucket) (\<lambda>bhead.
     bindR (vec_at (tm_task_heads tm) task_slot) (\<lambda>thead.
     bindR (vec_put (tm_pool tm) idx
        \<lparr>te_tensor_handle = handle, te_producer_task_id = producer_task_id,
         te_next_in_bucket = bhead, te_next_in_task = thead, te_valid = True,
         te_is_output_alloc = is_output\<rparr>) (\<lambda>pool.
       Inr (tm\<lparr>tm_next_entry := ne, tm_pool := pool,
               tm_task_heads := (tm_task_heads tm)[nat task_slot := idx],
               tm_buckets := (tm_buckets tm)[nat bucket := idx]\<rparr>)))))"

definition tm_insert :: "u64 \<Rightarrow> i32 \<Rightarrow> bool \<Rightarrow> tensor_map \<Rightarrow> tensor_map res" where
  "tm_insert handle producer_task_id is_output tm =
     bindR (remove_stale_for_handle handle producer_task_id tm) (\<lambda>tm1.
     let idx = tm_next_entry tm1 mod tm_pool_size tm1 in
     bindR (recycle_entry idx tm1) (push_entry idx handle producer_task_id is_output))"

fun lookup_chain :: "nat \<Rightarrow> tensor_map \<Rightarrow> u64 \<Rightarrow> i32 \<Rightarrow> i32 \<Rightarrow> i32 res" where
  "lookup_chain fuel tm handle cur best =
     (if cur < 0 then Inr best
      else (case fuel of 0 \<Rightarrow> Inl Diverges
        | Suc fuel' \<Rightarrow> bindR (vec_at (tm_pool tm) cur) (\<lambda>e.
            lookup_chain fuel' tm handle (te_next_in_bucket e)
              (if te_valid e \<and> te_tensor_handle e = handle \<and>
                  tm_last_task_alive tm \<le> te_producer_task_id e \<and> best < te_producer_task_id e
               then te_producer_task_id e else best))))"

declare lookup_chain.simps [simp del]

text \<open>\<open>None\<close> is \<^verbatim>\<open>{-1, false}\<close>.\<close>

definition tm_lookup :: "u64 \<Rightarrow> tensor_map \<Rightarrow> i32 option res" where
  "tm_lookup handle tm =
     bindR (vec_at (tm_buckets tm) (tm_hash tm handle)) (\<lambda>cur.
     bindR (lookup_chain (length (tm_pool tm)) tm handle cur (- 1)) (\<lambda>best.
       Inr (if 0 \<le> best then Some best else None)))"

definition tm_invalidate_below :: "i32 \<Rightarrow> tensor_map \<Rightarrow> tensor_map" where
  "tm_invalidate_below last_alive tm = tm\<lparr>tm_last_task_alive := last_alive\<rparr>"

definition tm_cleanup_task :: "i32 \<Rightarrow> tensor_map \<Rightarrow> tensor_map res" where
  "tm_cleanup_task task_id tm =
     bindR (vec_at (tm_task_heads tm) (c_rem task_id (tm_pool_size tm))) (\<lambda>cur.
     bindR (invalidate_chain (length (tm_pool tm)) te_next_in_task
              (\<lambda>e. te_producer_task_id e = task_id) cur (tm_pool tm)) (\<lambda>pool.
       Inr (tm\<lparr>tm_pool := pool\<rparr>)))"

definition tm_task_chain_head :: "i32 \<Rightarrow> tensor_map \<Rightarrow> i32 res" where
  "tm_task_chain_head task_id tm = vec_at (tm_task_heads tm) (c_rem task_id (tm_pool_size tm))"

definition tm_valid_count :: "tensor_map \<Rightarrow> nat" where
  "tm_valid_count tm = length (filter (\<lambda>e. te_valid e \<and>
     tm_last_task_alive tm \<le> te_producer_task_id e) (tm_pool tm))"

section \<open>Chains\<close>

text \<open>The entries of a chain, in order, as a relation between the head and a list of indices.\<close>

fun chain_path :: "(tm_entry \<Rightarrow> i32) \<Rightarrow> tm_entry list \<Rightarrow> i32 \<Rightarrow> nat list \<Rightarrow> bool" where
  "chain_path nxt pool cur [] \<longleftrightarrow> cur < 0"
| "chain_path nxt pool cur (i # is) \<longleftrightarrow>
     cur = int i \<and> i < length pool \<and> chain_path nxt pool (nxt (pool ! i)) is"

text \<open>
  A map is well formed with bucket chains \<open>ch\<close>: each bucket head starts its chain, every linked entry
  hashes to its bucket and every valid entry is linked. Entries that \<^verbatim>\<open>remove_stale_for_handle\<close>
  invalidated stay linked.
\<close>

definition tm_chains :: "tensor_map \<Rightarrow> (nat \<Rightarrow> nat list) \<Rightarrow> bool" where
  "tm_chains tm ch \<longleftrightarrow>
     (\<forall>b < length (tm_buckets tm). chain_path te_next_in_bucket (tm_pool tm) (tm_buckets tm ! b) (ch b)) \<and>
     (\<forall>b < length (tm_buckets tm). \<forall>i \<in> set (ch b). tm_hash tm (te_tensor_handle (tm_pool tm ! i)) = int b) \<and>
     (\<forall>i < length (tm_pool tm). te_valid (tm_pool tm ! i) \<longrightarrow>
        i \<in> set (ch (nat (tm_hash tm (te_tensor_handle (tm_pool tm ! i))))))"

definition tm_sizes :: "tensor_map \<Rightarrow> bool" where
  "tm_sizes tm \<longleftrightarrow>
     0 < tm_num_buckets tm \<and> tm_num_buckets tm \<le> INT32_MAX \<and>
     length (tm_buckets tm) = nat (tm_num_buckets tm) \<and>
     0 < tm_pool_size tm \<and> length (tm_pool tm) = nat (tm_pool_size tm) \<and>
     length (tm_task_heads tm) = nat (tm_pool_size tm) \<and>
     0 \<le> tm_next_entry tm \<and> 0 \<le> tm_last_task_alive tm"

definition tm_wf :: "tensor_map \<Rightarrow> bool" where
  "tm_wf tm \<longleftrightarrow> tm_sizes tm \<and> (\<exists>ch. tm_chains tm ch)"

text \<open>The producers \<^verbatim>\<open>lookup\<close> chooses from.\<close>

definition tm_live :: "tensor_map \<Rightarrow> u64 \<Rightarrow> i32 set" where
  "tm_live tm h = te_producer_task_id ` {e \<in> set (tm_pool tm). te_valid e \<and> te_tensor_handle e = h \<and>
     tm_last_task_alive tm \<le> te_producer_task_id e}"

text \<open>
  The entry \<^verbatim>\<open>insert\<close> will reuse is safe to reuse: it is valid and stays so when stale entries are
  removed, so that \<^verbatim>\<open>insert\<close> unlinks it, or it is in no chain.
\<close>

definition tm_recyclable :: "tensor_map \<Rightarrow> (nat \<Rightarrow> nat list) \<Rightarrow> u64 \<Rightarrow> i32 \<Rightarrow> bool" where
  "tm_recyclable tm ch h t \<longleftrightarrow>
     (let idx = nat (tm_next_entry tm mod tm_pool_size tm); e = tm_pool tm ! idx in
      (te_valid e \<and> \<not> stale_for tm h t e) \<or> (\<forall>b < length (tm_buckets tm). idx \<notin> set (ch b)))"

section \<open>Chain lemmas\<close>

lemma chain_path_unique:
  "chain_path nxt pool cur is \<Longrightarrow> chain_path nxt pool cur js \<Longrightarrow> is = js"
proof (induction "is" arbitrary: cur js)
  case Nil
  then show ?case by (cases js) auto
next
  case (Cons i "is")
  then show ?case by (cases js) auto
qed

lemma chain_path_append:
  "chain_path nxt pool cur (is @ j # js) \<Longrightarrow> chain_path nxt pool (int j) (j # js)"
  by (induction "is" arbitrary: cur) auto

lemma chain_path_bounds: "chain_path nxt pool cur is \<Longrightarrow> i \<in> set is \<Longrightarrow> i < length pool"
  by (induction "is" arbitrary: cur) auto

lemma chain_path_distinct: "chain_path nxt pool cur is \<Longrightarrow> distinct is"
proof (induction "is" arbitrary: cur)
  case (Cons i "is")
  have "i \<notin> set is"
  proof
    assume "i \<in> set is"
    then obtain xs ys where split: "is = xs @ i # ys" by (meson split_list)
    from Cons.prems chain_path_append [of nxt pool "nxt (pool ! i)" xs i ys] split
    have "chain_path nxt pool (int i) (i # ys)" "chain_path nxt pool (int i) (i # is)" by auto
    then have "i # ys = i # is" by (rule chain_path_unique)
    with split show False by simp
  qed
  with Cons show ?case by auto
qed simp

lemma chain_path_length: "chain_path nxt pool cur is \<Longrightarrow> length is \<le> length pool"
proof -
  assume c: "chain_path nxt pool cur is"
  have "set is \<subseteq> {..<length pool}" using chain_path_bounds [OF c] by auto
  then have "card (set is) \<le> length pool"
    using card_mono [of "{..<length pool}"] by fastforce
  then show ?thesis using distinct_card [OF chain_path_distinct [OF c]] by simp
qed

lemma chain_path_cong:
  assumes "chain_path nxt pool cur is" "length pool' = length pool"
    and "\<And>i. i \<in> set is \<Longrightarrow> nxt (pool' ! i) = nxt (pool ! i)"
  shows "chain_path nxt pool' cur is"
  using assms by (induction "is" arbitrary: cur) auto

lemma chain_path_frame:
  "chain_path nxt pool cur is \<Longrightarrow> i \<notin> set is \<Longrightarrow> chain_path nxt (pool[i := e]) cur is"
  by (rule chain_path_cong [of nxt pool]) (simp_all add: nth_update_notin [of _ "set is"])

lemma chain_path_same_next:
  assumes "chain_path nxt pool cur is" "nxt e = nxt (pool ! i)"
  shows "chain_path nxt (pool[i := e]) cur is"
proof (rule chain_path_cong [OF assms(1)])
  fix j assume "j \<in> set is"
  with assms show "nxt (pool[i := e] ! j) = nxt (pool ! j)"
    using chain_path_bounds [OF assms(1)] by (cases "j = i") auto
qed simp

text \<open>The pool after a walk that cleared \<^verbatim>\<open>valid\<close> on the entries of \<open>S\<close> that satisfy \<open>P\<close>.\<close>

definition cleared :: "nat set \<Rightarrow> (tm_entry \<Rightarrow> bool) \<Rightarrow> tm_entry list \<Rightarrow> tm_entry list" where
  "cleared S P pool = map (\<lambda>i. if i \<in> S \<and> P (pool ! i) then (pool ! i)\<lparr>te_valid := False\<rparr> else pool ! i)
     [0..<length pool]"

lemma length_cleared [simp]: "length (cleared S P pool) = length pool"
  by (simp add: cleared_def)

lemma nth_cleared [simp]: "i < length pool \<Longrightarrow> cleared S P pool ! i =
    (if i \<in> S \<and> P (pool ! i) then (pool ! i)\<lparr>te_valid := False\<rparr> else pool ! i)"
  by (simp add: cleared_def)

lemma chain_path_cleared:
  assumes "chain_path nxt pool cur is" "\<And>e. nxt (e\<lparr>te_valid := False\<rparr>) = nxt e"
  shows "chain_path nxt (cleared S P pool) cur is"
  by (rule chain_path_cong [OF assms(1)])
    (use assms(2) chain_path_bounds [OF assms(1)] in simp_all)

lemma lookup_chain_fold:
  assumes "chain_path te_next_in_bucket (tm_pool tm) cur is" "length is \<le> fuel"
  shows "lookup_chain fuel tm h cur best = Inr (fold (\<lambda>i best.
    let e = tm_pool tm ! i in
    if te_valid e \<and> te_tensor_handle e = h \<and> tm_last_task_alive tm \<le> te_producer_task_id e \<and>
       best < te_producer_task_id e then te_producer_task_id e else best) is best)"
  using assms
proof (induction "is" arbitrary: cur fuel best)
  case Nil
  then show ?case by (simp add: lookup_chain.simps)
next
  case (Cons i "is")
  then obtain f where "fuel = Suc f" by (cases fuel) auto
  with Cons show ?case by (subst lookup_chain.simps) (simp add: Let_def)
qed

lemma Max_insert_max:
  "finite S \<Longrightarrow> Max (insert (max a b) S) = Max (insert a (insert b S))" for a b :: "'a::linorder"
  by (cases "S = {}") (simp_all add: max.assoc)

lemma fold_best:
  fixes best :: int
  shows "fold (\<lambda>i best. let e = g i in if P e \<and> best < f e then f e else best) ks best =
    Max (insert best (f ` {e \<in> g ` set ks. P e}))"
proof (induction ks arbitrary: best)
  case Nil
  then show ?case by simp
next
  case (Cons i ks)
  have fin: "finite (f ` {e \<in> g ` set ks. P e})" by simp
  show ?case
  proof (cases "P (g i)")
    case True
    then have "f ` {e \<in> g ` set (i # ks). P e} = insert (f (g i)) (f ` {e \<in> g ` set ks. P e})" by auto
    moreover have "(if P (g i) \<and> best < f (g i) then f (g i) else best) = max best (f (g i))"
      using True by (simp add: max_def)
    ultimately show ?thesis
      using Cons [of "max best (f (g i))"] Max_insert_max [OF fin, of best "f (g i)"]
      by (simp only: fold_Cons comp_apply Let_def)
  next
    case False
    then have "{e \<in> g ` set (i # ks). P e} = {e \<in> g ` set ks. P e}" by auto
    with False Cons show ?thesis by (simp add: Let_def)
  qed
qed

lemma invalidate_chain_cleared:
  assumes "chain_path nxt pool cur is" "length is \<le> fuel"
    and nx: "\<And>e. nxt (e\<lparr>te_valid := False\<rparr>) = nxt e"
  shows "invalidate_chain fuel nxt P cur pool = Inr (cleared (set is) P pool)"
  using assms(1,2)
proof (induction "is" arbitrary: cur fuel pool)
  case Nil
  then have "cleared (set []) P pool = pool" by (intro nth_equalityI) auto
  with Nil show ?case by (simp add: invalidate_chain.simps)
next
  case (Cons i "is")
  let ?e = "pool ! i"
  let ?pool = "if P ?e then pool[i := ?e\<lparr>te_valid := False\<rparr>] else pool"
  obtain f where f: "fuel = Suc f" "length is \<le> f" using Cons.prems(2) by (cases fuel) auto
  have i: "i \<notin> set is" using chain_path_distinct [OF Cons.prems(1)] by simp
  have "chain_path nxt ?pool (nxt ?e) is"
  proof (rule chain_path_cong)
    show "chain_path nxt pool (nxt ?e) is" using Cons.prems(1) by simp
  qed (use i in \<open>simp_all add: nth_update_notin [of _ "set is"]\<close>)
  then have "invalidate_chain f nxt P (nxt ?e) ?pool = Inr (cleared (set is) P ?pool)"
    using f(2) by (rule Cons.IH)
  moreover have "cleared (set is) P ?pool = cleared (set (i # is)) P pool"
  proof (rule nth_equalityI)
    show "length (cleared (set is) P ?pool) = length (cleared (set (i # is)) P pool)" by simp
    show "cleared (set is) P ?pool ! j = cleared (set (i # is)) P pool ! j"
      if "j < length (cleared (set is) P ?pool)" for j
      using that i by (cases "j = i") (auto simp: nth_list_update split: if_splits)
  qed
  moreover have "invalidate_chain fuel nxt P cur pool = invalidate_chain f nxt P (nxt ?e) ?pool"
    using Cons.prems(1) f(1) by (subst invalidate_chain.simps) simp
  ultimately show ?case by simp
qed

lemma unlink_after_removes:
  assumes "chain_path te_next_in_bucket pool (int p) (p # is)" "idx \<in> set is" "Suc (length is) \<le> fuel"
  shows "\<exists>q \<in> set (p # is). q \<noteq> idx \<and>
    (let pool' = pool[q := (pool ! q)\<lparr>te_next_in_bucket := te_next_in_bucket (pool ! idx)\<rparr>] in
      unlink_after fuel (int idx) (int p) pool = Inr pool' \<and>
      chain_path te_next_in_bucket pool' (int p) (p # remove1 idx is))"
  using assms
proof (induction "is" arbitrary: p fuel)
  case Nil
  then show ?case by simp
next
  case (Cons j js)
  obtain f where f: "fuel = Suc f" "Suc (length js) \<le> f" using Cons.prems(3) by (cases fuel) auto
  have dist: "distinct (p # j # js)" using chain_path_distinct [OF Cons.prems(1)] .
  have p: "p < length pool" "te_next_in_bucket (pool ! p) = int j" "j < length pool"
    and rest: "chain_path te_next_in_bucket pool (int j) (j # js)" using Cons.prems(1) by auto
  show ?case
  proof (cases "j = idx")
    case True
    let ?pool = "pool[p := (pool ! p)\<lparr>te_next_in_bucket := te_next_in_bucket (pool ! idx)\<rparr>]"
    have "chain_path te_next_in_bucket ?pool (te_next_in_bucket (pool ! idx)) js"
    proof (rule chain_path_cong)
      show "chain_path te_next_in_bucket pool (te_next_in_bucket (pool ! idx)) js"
        using rest True by simp
    qed (use dist in \<open>simp_all add: nth_update_notin [of _ "set js"]\<close>)
    then have "chain_path te_next_in_bucket ?pool (int p) (p # remove1 idx (j # js))"
      using True p by simp
    moreover have "unlink_after fuel (int idx) (int p) pool = Inr ?pool"
      using f p True by (subst unlink_after.simps) simp
    ultimately show ?thesis using True dist by (intro bexI [of _ p]) (auto simp: Let_def)
  next
    case False
    then have "idx \<in> set js" using Cons.prems(2) by simp
    from Cons.IH [OF rest this f(2)] obtain q pool' where q: "q \<in> set (j # js)" "q \<noteq> idx"
      and pool': "pool' = pool[q := (pool ! q)\<lparr>te_next_in_bucket := te_next_in_bucket (pool ! idx)\<rparr>]"
      and un: "unlink_after f (int idx) (int j) pool = Inr pool'"
      and ch: "chain_path te_next_in_bucket pool' (int j) (j # remove1 idx js)" by (auto simp: Let_def)
    have "p \<noteq> q" using q(1) dist by auto
    then have "pool' ! p = pool ! p" "length pool' = length pool" by (simp_all add: pool')
    then have "chain_path te_next_in_bucket pool' (int p) (p # remove1 idx (j # js))"
      using ch p False by simp
    moreover have "unlink_after fuel (int idx) (int p) pool = Inr pool'"
      using f p False un by (subst unlink_after.simps) simp
    ultimately show ?thesis
      unfolding Let_def pool' using q by (meson list.set_intros(2))
  qed
qed

section \<open>Lookup\<close>

lemma tm_hash_range:
  assumes "0 < tm_num_buckets tm" "tm_num_buckets tm \<le> INT32_MAX"
  shows "0 \<le> tm_hash tm h \<and> tm_hash tm h < tm_num_buckets tm"
proof -
  let ?m = "word_of_int (tm_num_buckets tm - 1) :: u64"
  have "uint ?m = (tm_num_buckets tm - 1) mod 2 ^ 64"
    by (simp only: uint_word_of_int) simp
  then have "uint ?m = tm_num_buckets tm - 1" using assms by simp
  moreover obtain x :: u64 where x: "tm_hash tm h = uint (x AND ?m)"
    unfolding tm_hash_def Let_def by blast
  moreover have "uint (x AND ?m) \<le> uint ?m"
    using word_and_le1 [of x ?m] by (simp only: word_le_def)
  ultimately show ?thesis by simp
qed

lemma tm_hash_bucket:
  "tm_sizes tm \<Longrightarrow> 0 \<le> tm_hash tm h \<and> tm_hash tm h < int (length (tm_buckets tm))"
  using tm_hash_range [of tm h] by (auto simp: tm_sizes_def)

lemma tm_lookup_max:
  assumes "tm_wf tm"
  shows "tm_lookup h tm = Inr (if tm_live tm h = {} then None else Some (Max (tm_live tm h)))"
proof -
  from assms obtain ch where sz: "tm_sizes tm" and ch: "tm_chains tm ch" by (auto simp: tm_wf_def)
  let ?b = "nat (tm_hash tm h)" and ?g = "\<lambda>i. tm_pool tm ! i"
  let ?P = "\<lambda>e. te_valid e \<and> te_tensor_handle e = h \<and> tm_last_task_alive tm \<le> te_producer_task_id e"
  have b: "?b < length (tm_buckets tm)" "vec_at (tm_buckets tm) (tm_hash tm h) = Inr (tm_buckets tm ! ?b)"
    using tm_hash_bucket [OF sz, of h] by auto
  have path: "chain_path te_next_in_bucket (tm_pool tm) (tm_buckets tm ! ?b) (ch ?b)"
    using ch b(1) by (simp add: tm_chains_def)
  have "{e \<in> ?g ` set (ch ?b). ?P e} = {e \<in> set (tm_pool tm). ?P e}"
  proof (intro equalityI subsetI)
    fix e assume "e \<in> {e \<in> ?g ` set (ch ?b). ?P e}"
    then show "e \<in> {e \<in> set (tm_pool tm). ?P e}" using chain_path_bounds [OF path] by auto
  next
    fix e assume e: "e \<in> {e \<in> set (tm_pool tm). ?P e}"
    then obtain i where "i < length (tm_pool tm)" "e = ?g i" by (auto simp: in_set_conv_nth)
    with e ch show "e \<in> {e \<in> ?g ` set (ch ?b). ?P e}" by (auto simp: tm_chains_def)
  qed
  then have live: "te_producer_task_id ` {e \<in> ?g ` set (ch ?b). ?P e} = tm_live tm h"
    by (simp add: tm_live_def)
  have look: "lookup_chain (length (tm_pool tm)) tm h (tm_buckets tm ! ?b) (- 1) =
      Inr (Max (insert (- 1) (tm_live tm h)))"
    using fold_best [of ?g ?P te_producer_task_id "ch ?b" "- 1"]
    unfolding live lookup_chain_fold [OF path chain_path_length [OF path]] by (simp add: Let_def)
  have fin: "finite (tm_live tm h)" and pos: "x \<in> tm_live tm h \<Longrightarrow> 0 \<le> x" for x
    using sz by (auto simp: tm_live_def tm_sizes_def)
  show ?thesis
  proof (cases "tm_live tm h = {}")
    case False
    then have "0 \<le> Max (tm_live tm h)" using pos Max_in [OF fin False] by blast
    with False fin b look show ?thesis by (simp add: tm_lookup_def)
  qed (use b look in \<open>simp add: tm_lookup_def\<close>)
qed

section \<open>Insertion\<close>

text \<open>The part of an entry that is not a link.\<close>

definition core :: "tm_entry \<Rightarrow> u64 \<times> i32 \<times> bool \<times> bool" where
  "core e = (te_tensor_handle e, te_producer_task_id e, te_valid e, te_is_output_alloc e)"

definition same_shape :: "tensor_map \<Rightarrow> tensor_map \<Rightarrow> bool" where
  "same_shape tm tm' \<longleftrightarrow>
     length (tm_buckets tm') = length (tm_buckets tm) \<and> length (tm_pool tm') = length (tm_pool tm) \<and>
     length (tm_task_heads tm') = length (tm_task_heads tm) \<and>
     tm_num_buckets tm' = tm_num_buckets tm \<and> tm_pool_size tm' = tm_pool_size tm \<and>
     tm_last_task_alive tm' = tm_last_task_alive tm"

lemma tm_hash_cong: "tm_num_buckets tm' = tm_num_buckets tm \<Longrightarrow> tm_hash tm' h = tm_hash tm h"
  by (simp add: tm_hash_def)

lemma same_shape_hash: "same_shape tm tm' \<Longrightarrow> tm_hash tm' h = tm_hash tm h"
  by (rule tm_hash_cong) (simp add: same_shape_def)

lemma same_shape_sizes:
  "same_shape tm tm' \<Longrightarrow> tm_sizes tm \<Longrightarrow> 0 \<le> tm_next_entry tm' \<Longrightarrow> tm_sizes tm'"
  by (simp add: same_shape_def tm_sizes_def)

lemma tm_chainsD:
  assumes "tm_chains tm ch" "b < length (tm_buckets tm)"
  shows "chain_path te_next_in_bucket (tm_pool tm) (tm_buckets tm ! b) (ch b)"
    "\<And>i. i \<in> set (ch b) \<Longrightarrow> tm_hash tm (te_tensor_handle (tm_pool tm ! i)) = int b"
    "\<And>i. i \<in> set (ch b) \<Longrightarrow> i < length (tm_pool tm)"
  using assms by (auto simp: tm_chains_def intro: chain_path_bounds)

lemma remove_stale_pool:
  fixes h :: u64 and t :: i32
  assumes "tm_sizes tm" "tm_chains tm ch"
  defines "pool \<equiv> cleared UNIV (stale_for tm h t) (tm_pool tm)"
  shows "remove_stale_for_handle h t tm = Inr (tm\<lparr>tm_pool := pool\<rparr>)"
    and "tm_chains (tm\<lparr>tm_pool := pool\<rparr>) ch"
proof -
  let ?b = "nat (tm_hash tm h)"
  have b: "?b < length (tm_buckets tm)" "vec_at (tm_buckets tm) (tm_hash tm h) = Inr (tm_buckets tm ! ?b)"
    using tm_hash_bucket [OF assms(1), of h] by auto
  note path = tm_chainsD(1) [OF assms(2) b(1)]
  have "cleared (set (ch ?b)) (stale_for tm h t) (tm_pool tm) = pool"
    using assms(2) unfolding pool_def
    by (intro nth_equalityI) (auto simp: stale_for_def tm_chains_def)
  then show "remove_stale_for_handle h t tm = Inr (tm\<lparr>tm_pool := pool\<rparr>)"
    using invalidate_chain_cleared [OF path chain_path_length [OF path], of "stale_for tm h t"] b
    by (simp add: remove_stale_for_handle_def)
  have hash: "tm_hash (tm\<lparr>tm_pool := pool\<rparr>) = tm_hash tm" by (intro ext tm_hash_cong) simp
  show "tm_chains (tm\<lparr>tm_pool := pool\<rparr>) ch"
    unfolding tm_chains_def hash
  proof (intro conjI allI impI ballI)
    fix c assume c: "c < length (tm_buckets (tm\<lparr>tm_pool := pool\<rparr>))"
    then have c': "c < length (tm_buckets tm)" by simp
    show "chain_path te_next_in_bucket (tm_pool (tm\<lparr>tm_pool := pool\<rparr>))
        (tm_buckets (tm\<lparr>tm_pool := pool\<rparr>) ! c) (ch c)"
      using tm_chainsD(1) [OF assms(2) c'] by (simp add: pool_def chain_path_cleared)
    show "tm_hash tm (te_tensor_handle (tm_pool (tm\<lparr>tm_pool := pool\<rparr>) ! i)) = int c"
      if "i \<in> set (ch c)" for i
      using tm_chainsD(2,3) [OF assms(2) c' that] by (simp add: pool_def)
  next
    fix i assume "i < length (tm_pool (tm\<lparr>tm_pool := pool\<rparr>))"
      and "te_valid (tm_pool (tm\<lparr>tm_pool := pool\<rparr>) ! i)"
    then show "i \<in> set (ch (nat (tm_hash tm (te_tensor_handle (tm_pool (tm\<lparr>tm_pool := pool\<rparr>) ! i)))))"
      using assms(2) by (auto simp: pool_def tm_chains_def split: if_splits)
  qed
qed

text \<open>Pushing an unlinked entry.\<close>

lemma push_chains:
  assumes "tm_sizes tm" "tm_chains tm ch" "idx < length (tm_pool tm)"
    and free: "\<forall>b < length (tm_buckets tm). idx \<notin> set (ch b)"
    and e: "te_tensor_handle e = h" "te_next_in_bucket e = tm_buckets tm ! nat (tm_hash tm h)"
  shows "tm_chains (tm\<lparr>tm_next_entry := n, tm_pool := (tm_pool tm)[idx := e], tm_task_heads := hs,
      tm_buckets := (tm_buckets tm)[nat (tm_hash tm h) := int idx]\<rparr>)
    (ch(nat (tm_hash tm h) := idx # ch (nat (tm_hash tm h))))" (is "tm_chains ?tm ?ch")
proof -
  let ?b = "nat (tm_hash tm h)"
  have b: "?b < length (tm_buckets tm)" "0 \<le> tm_hash tm h"
    using tm_hash_bucket [OF assms(1), of h] by auto
  have hash: "tm_hash ?tm = tm_hash tm" by (intro ext tm_hash_cong) simp
  have path: "chain_path te_next_in_bucket ((tm_pool tm)[idx := e]) (tm_buckets tm ! c) (ch c)"
    if "c < length (tm_buckets tm)" for c
    using tm_chainsD(1) [OF assms(2) that] free that by (simp add: chain_path_frame)
  show ?thesis
    unfolding tm_chains_def hash
  proof (intro conjI allI impI ballI)
    fix c assume "c < length (tm_buckets ?tm)"
    then have c: "c < length (tm_buckets tm)" by simp
    show "chain_path te_next_in_bucket (tm_pool ?tm) (tm_buckets ?tm ! c) (?ch c)"
      using path [OF c] path [OF b(1)] b assms(3) e by (auto simp: nth_list_update)
    fix i assume i: "i \<in> set (?ch c)"
    show "tm_hash tm (te_tensor_handle (tm_pool ?tm ! i)) = int c"
    proof (cases "i = idx")
      case True
      with i free c have "c = ?b" by (auto split: if_splits)
      with True assms(3) b e show ?thesis by simp
    next
      case False
      with i have "i \<in> set (ch c)" by (auto split: if_splits)
      with False tm_chainsD(2) [OF assms(2) c this] show ?thesis by simp
    qed
  next
    fix i assume i: "i < length (tm_pool ?tm)" "te_valid (tm_pool ?tm ! i)"
    show "i \<in> set (?ch (nat (tm_hash tm (te_tensor_handle (tm_pool ?tm ! i)))))"
    proof (cases "i = idx")
      case True
      with assms(3) e show ?thesis by simp
    next
      case False
      with i assms(2) show ?thesis by (auto simp: tm_chains_def)
    qed
  qed
qed

lemma push_entry_pool:
  assumes "tm_sizes tm" "tm_chains tm ch" "idx < length (tm_pool tm)"
    and free: "\<forall>b < length (tm_buckets tm). idx \<notin> set (ch b)"
    and "0 \<le> t" "tm_next_entry tm < INT32_MAX"
  shows "\<exists>tm'. push_entry (int idx) h t out tm = Inr tm' \<and> same_shape tm tm' \<and>
    tm_next_entry tm' = tm_next_entry tm + 1 \<and>
    tm_chains tm' (ch(nat (tm_hash tm h) := idx # ch (nat (tm_hash tm h)))) \<and>
    (\<forall>j. j \<noteq> idx \<longrightarrow> tm_pool tm' ! j = tm_pool tm ! j) \<and> core (tm_pool tm' ! idx) = (h, t, True, out)"
proof -
  let ?b = "nat (tm_hash tm h)" and ?ts = "nat (c_rem t (tm_pool_size tm))"
  let ?e = "\<lparr>te_tensor_handle = h, te_producer_task_id = t, te_next_in_bucket = tm_buckets tm ! ?b,
      te_next_in_task = tm_task_heads tm ! ?ts, te_valid = True, te_is_output_alloc = out\<rparr>"
  let ?tm = "tm\<lparr>tm_next_entry := tm_next_entry tm + 1, tm_pool := (tm_pool tm)[idx := ?e],
      tm_task_heads := (tm_task_heads tm)[?ts := int idx],
      tm_buckets := (tm_buckets tm)[?b := int idx]\<rparr>"
  have b: "?b < length (tm_buckets tm)" "0 \<le> tm_hash tm h"
    using tm_hash_bucket [OF assms(1), of h] by auto
  have ts: "0 \<le> c_rem t (tm_pool_size tm)" "c_rem t (tm_pool_size tm) < int (length (tm_task_heads tm))"
    using assms(1,5) by (auto simp: c_rem_def tm_sizes_def)
  have eq: "push_entry (int idx) h t out tm = Inr ?tm"
    using assms(3,6) b ts by (simp add: push_entry_def inc_i32_def Let_def)
  have "tm_chains ?tm (ch(?b := idx # ch ?b))" by (rule push_chains [OF assms(1-3) free]) simp_all
  with eq assms(3) show ?thesis by (auto simp: same_shape_def core_def)
qed

text \<open>Unlinking a valid entry: it leaves its chain, nothing else but one link changes.\<close>

lemma unlink_entry_pool:
  assumes "tm_sizes tm" "tm_chains tm ch" "idx < length (tm_pool tm)" "te_valid (tm_pool tm ! idx)"
  defines "b \<equiv> nat (tm_hash tm (te_tensor_handle (tm_pool tm ! idx)))"
  shows "\<exists>tm'. unlink_entry (int idx) tm = Inr tm' \<and> same_shape tm tm' \<and>
    tm_next_entry tm' = tm_next_entry tm \<and>
    (\<forall>j < length (tm_pool tm). core (tm_pool tm' ! j) = core (tm_pool tm ! j)) \<and>
    (\<forall>c < length (tm_buckets tm). chain_path te_next_in_bucket (tm_pool tm') (tm_buckets tm' ! c)
       ((ch(b := remove1 idx (ch b))) c))"
proof -
  let ?e = "tm_pool tm ! idx"
  have b: "b < length (tm_buckets tm)" "tm_hash tm (te_tensor_handle ?e) = int b"
    using tm_hash_bucket [OF assms(1), of "te_tensor_handle ?e"] by (auto simp: b_def)
  have inb: "idx \<in> set (ch b)" using assms(2-4) by (auto simp: tm_chains_def b_def)
  note path = tm_chainsD(1) [OF assms(2) b(1)]
  have dist: "distinct (ch b)" using path by (rule chain_path_distinct)
  obtain p "is" where chb: "ch b = p # is" using inb by (cases "ch b") auto
  have head: "tm_buckets tm ! b = int p" using path chb by simp
  show ?thesis
  proof (cases "p = idx")
    case True
    let ?tm = "tm\<lparr>tm_buckets := (tm_buckets tm)[b := te_next_in_bucket ?e]\<rparr>"
    have "unlink_entry (int idx) tm = Inr ?tm"
      using assms(3) b head True by (simp add: unlink_entry_def)
    moreover have "chain_path te_next_in_bucket (tm_pool ?tm) (tm_buckets ?tm ! c)
        ((ch(b := remove1 idx (ch b))) c)" if "c < length (tm_buckets tm)" for c
      using tm_chainsD(1) [OF assms(2) that] path chb True b(1) by (cases "c = b") auto
    ultimately show ?thesis by (auto simp: same_shape_def)
  next
    case False
    then have "idx \<in> set is" using inb chb by simp
    moreover have "chain_path te_next_in_bucket (tm_pool tm) (int p) (p # is)" using path chb head by simp
    moreover have "Suc (length is) \<le> length (tm_pool tm)" using chain_path_length [OF path] chb by simp
    ultimately obtain q pool' where q: "q \<in> set (ch b)" "q \<noteq> idx"
      and pool': "pool' = (tm_pool tm)[q := (tm_pool tm ! q)\<lparr>te_next_in_bucket := te_next_in_bucket ?e\<rparr>]"
      and un: "unlink_after (length (tm_pool tm)) (int idx) (int p) (tm_pool tm) = Inr pool'"
      and new: "chain_path te_next_in_bucket pool' (int p) (p # remove1 idx is)"
      using unlink_after_removes [of "tm_pool tm" p "is" idx "length (tm_pool tm)"] unfolding chb Let_def
      by blast
    have eq: "unlink_entry (int idx) tm = Inr (tm\<lparr>tm_pool := pool'\<rparr>)"
      using assms(3) b head False un by (simp add: unlink_entry_def)
    have other: "chain_path te_next_in_bucket pool' (tm_buckets tm ! c)
        ((ch(b := remove1 idx (ch b))) c)" if "c < length (tm_buckets tm)" for c
    proof (cases "c = b")
      case True
      with new head chb False show ?thesis by simp
    next
      case c: False
      have "q \<notin> set (ch c)"
        using tm_chainsD(2) [OF assms(2) that] tm_chainsD(2) [OF assms(2) b(1) q(1)] c by fastforce
      with c tm_chainsD(1) [OF assms(2) that] show ?thesis
        unfolding pool' by (simp add: chain_path_frame)
    qed
    have "core (pool' ! j) = core (tm_pool tm ! j)" if "j < length (tm_pool tm)" for j
      using that by (cases "j = q") (simp_all add: pool' core_def)
    with eq other show ?thesis by (auto simp: same_shape_def pool')
  qed
qed

text \<open>Making an entry free, whether it is valid (unlinked and cleared) or in no chain (left alone).\<close>

lemma chain_without:
  fixes idx :: nat
  assumes "tm_chains tm ch" "c < length (tm_buckets tm)"
  defines "b \<equiv> nat (tm_hash tm (te_tensor_handle (tm_pool tm ! idx)))"
  shows "idx \<notin> set ((ch(b := remove1 idx (ch b))) c)" "set ((ch(b := remove1 idx (ch b))) c) \<subseteq> set (ch c)"
proof -
  show "set ((ch(b := remove1 idx (ch b))) c) \<subseteq> set (ch c)"
    by (auto split: if_splits dest: set_remove1_subset [THEN subsetD])
  show "idx \<notin> set ((ch(b := remove1 idx (ch b))) c)"
  proof (cases "c = b")
    case True
    with chain_path_distinct [OF tm_chainsD(1) [OF assms(1,2)]] show ?thesis by simp
  next
    case False
    with tm_chainsD(2) [OF assms(1,2), of idx] show ?thesis by (auto simp: b_def)
  qed
qed

text \<open>Clearing the valid bit of an entry that has left its chain gives the chains without it.\<close>

lemma clear_unlinked_chains:
  fixes idx :: nat
  assumes "tm_chains tm ch" "same_shape tm tm1"
    and cr: "\<forall>j < length (tm_pool tm). core (tm_pool tm1 ! j) = core (tm_pool tm ! j)"
  defines "b \<equiv> nat (tm_hash tm (te_tensor_handle (tm_pool tm ! idx)))"
  defines "ch' \<equiv> ch(b := remove1 idx (ch b))"
  defines "tm' \<equiv> tm1\<lparr>tm_pool := (tm_pool tm1)[idx := (tm_pool tm1 ! idx)\<lparr>te_valid := False\<rparr>]\<rparr>"
  assumes paths: "\<forall>c < length (tm_buckets tm). chain_path te_next_in_bucket (tm_pool tm1) (tm_buckets tm1 ! c) (ch' c)"
  shows "tm_chains tm' ch'"
proof -
  have sh: "same_shape tm tm'" using assms(2) by (simp add: same_shape_def tm'_def)
  have len: "length (tm_pool tm') = length (tm_pool tm)" "length (tm_pool tm1) = length (tm_pool tm)"
    "length (tm_buckets tm') = length (tm_buckets tm)"
    using assms(2) by (auto simp: same_shape_def tm'_def)
  have ent: "te_tensor_handle (tm_pool tm' ! j) = te_tensor_handle (tm_pool tm ! j)"
    "te_valid (tm_pool tm' ! j) \<longleftrightarrow> te_valid (tm_pool tm ! j) \<and> j \<noteq> idx" if "j < length (tm_pool tm)" for j
    using cr that len unfolding tm'_def by (cases "j = idx"; auto simp: core_def)+
  show ?thesis unfolding tm_chains_def same_shape_hash [OF sh]
  proof (intro conjI allI impI ballI)
    fix c assume "c < length (tm_buckets tm')"
    then have c: "c < length (tm_buckets tm)" using len by simp
    show "chain_path te_next_in_bucket (tm_pool tm') (tm_buckets tm' ! c) (ch' c)"
      using paths c by (simp add: tm'_def chain_path_same_next)
    show "tm_hash tm (te_tensor_handle (tm_pool tm' ! i)) = int c" if "i \<in> set (ch' c)" for i
    proof -
      have "i \<in> set (ch c)" using chain_without(2) [OF assms(1) c] that unfolding ch'_def b_def by blast
      with tm_chainsD(2,3) [OF assms(1) c] ent(1) show ?thesis by simp
    qed
  next
    fix i assume i: "i < length (tm_pool tm')" "te_valid (tm_pool tm' ! i)"
    then have i': "i < length (tm_pool tm)" "te_valid (tm_pool tm ! i)" "i \<noteq> idx" using len ent by auto
    then have "i \<in> set (ch (nat (tm_hash tm (te_tensor_handle (tm_pool tm ! i)))))"
      using assms(1) by (simp add: tm_chains_def)
    then show "i \<in> set (ch' (nat (tm_hash tm (te_tensor_handle (tm_pool tm' ! i)))))"
      unfolding ent(1) [OF i'(1)] ch'_def using i'(3) by auto
  qed
qed

lemma recycle_entry_pool:
  assumes "tm_sizes tm" "tm_chains tm ch" "idx < length (tm_pool tm)"
    and "te_valid (tm_pool tm ! idx) \<or> (\<forall>b < length (tm_buckets tm). idx \<notin> set (ch b))"
  shows "\<exists>tm' ch'. recycle_entry (int idx) tm = Inr tm' \<and> same_shape tm tm' \<and>
    tm_next_entry tm' = tm_next_entry tm \<and> tm_chains tm' ch' \<and>
    (\<forall>b < length (tm_buckets tm). idx \<notin> set (ch' b) \<and> set (ch' b) \<subseteq> set (ch b)) \<and>
    (\<forall>j < length (tm_pool tm). j \<noteq> idx \<longrightarrow> core (tm_pool tm' ! j) = core (tm_pool tm ! j))"
proof (cases "te_valid (tm_pool tm ! idx)")
  case False
  with assms have "recycle_entry (int idx) tm = Inr tm" by (simp add: recycle_entry_def)
  with False assms(2,4) show ?thesis
    by (intro exI [of _ tm] exI [of _ ch]) (auto simp: same_shape_def)
next
  case True
  let ?b = "nat (tm_hash tm (te_tensor_handle (tm_pool tm ! idx)))"
  let ?ch = "ch(?b := remove1 idx (ch ?b))"
  from unlink_entry_pool [OF assms(1-3) True] obtain tm1 where
    un: "unlink_entry (int idx) tm = Inr tm1" and sh: "same_shape tm tm1"
    and ne: "tm_next_entry tm1 = tm_next_entry tm"
    and cr: "\<forall>j < length (tm_pool tm). core (tm_pool tm1 ! j) = core (tm_pool tm ! j)"
    and paths: "\<forall>c < length (tm_buckets tm). chain_path te_next_in_bucket (tm_pool tm1) (tm_buckets tm1 ! c) (?ch c)"
    by blast
  let ?tm = "tm1\<lparr>tm_pool := (tm_pool tm1)[idx := (tm_pool tm1 ! idx)\<lparr>te_valid := False\<rparr>]\<rparr>"
  have "recycle_entry (int idx) tm = Inr ?tm"
    using assms(3) True un sh by (simp add: recycle_entry_def same_shape_def)
  moreover have "same_shape tm ?tm" using sh by (simp add: same_shape_def)
  moreover have "tm_next_entry ?tm = tm_next_entry tm" using ne by simp
  moreover have "core (tm_pool ?tm ! j) = core (tm_pool tm ! j)" if "j < length (tm_pool tm)" "j \<noteq> idx" for j
    using cr that by simp
  ultimately show ?thesis
    using clear_unlinked_chains [OF assms(2) sh cr paths] chain_without [OF assms(2)]
    by (intro exI [of _ ?tm] exI [of _ ?ch]) blast
qed

text \<open>The whole of \<^verbatim>\<open>insert\<close> when the next pool entry is safe to reuse.\<close>

lemma tm_insert_pool:
  assumes "tm_sizes tm" "tm_chains tm ch" "tm_recyclable tm ch h t" "0 \<le> t" "tm_next_entry tm < INT32_MAX"
  defines "idx \<equiv> nat (tm_next_entry tm mod tm_pool_size tm)"
  shows "\<exists>tm' ch'. tm_insert h t out tm = Inr tm' \<and> same_shape tm tm' \<and> tm_sizes tm' \<and>
    tm_next_entry tm' = tm_next_entry tm + 1 \<and> tm_chains tm' ch' \<and>
    (\<forall>b < length (tm_buckets tm). set (ch' b) \<subseteq> insert idx (set (ch b))) \<and>
    core (tm_pool tm' ! idx) = (h, t, True, out) \<and>
    (\<forall>j < length (tm_pool tm). j \<noteq> idx \<longrightarrow> core (tm_pool tm' ! j) =
      core (if stale_for tm h t (tm_pool tm ! j) then (tm_pool tm ! j)\<lparr>te_valid := False\<rparr>
            else tm_pool tm ! j))"
proof -
  let ?tm1 = "tm\<lparr>tm_pool := cleared UNIV (stale_for tm h t) (tm_pool tm)\<rparr>"
  note rs = remove_stale_pool [OF assms(1,2), of h t]
  have sh1: "same_shape tm ?tm1" by (simp add: same_shape_def)
  have sz1: "tm_sizes ?tm1" using assms(1) same_shape_sizes [OF sh1] by (simp add: tm_sizes_def)
  have idx: "idx < length (tm_pool ?tm1)" "tm_next_entry tm mod tm_pool_size tm = int idx"
    using assms(1) by (auto simp: idx_def tm_sizes_def nat_less_iff)
  have rec: "te_valid (tm_pool ?tm1 ! idx) \<or> (\<forall>b < length (tm_buckets ?tm1). idx \<notin> set (ch b))"
    using assms(3) idx(1) by (auto simp: tm_recyclable_def Let_def idx_def [symmetric])
  from recycle_entry_pool [OF sz1 rs(2) idx(1) rec] obtain tm2 ch2 where
    r2: "recycle_entry (int idx) ?tm1 = Inr tm2" "same_shape ?tm1 tm2" "tm_chains tm2 ch2"
      "tm_next_entry tm2 = tm_next_entry tm"
      "\<forall>b < length (tm_buckets tm). idx \<notin> set (ch2 b) \<and> set (ch2 b) \<subseteq> set (ch b)"
      "\<forall>j < length (tm_pool tm). j \<noteq> idx \<longrightarrow> core (tm_pool tm2 ! j) = core (tm_pool ?tm1 ! j)"
    by auto
  have sh2: "same_shape tm tm2" using sh1 r2(2) by (simp add: same_shape_def)
  have sz2: "tm_sizes tm2" using same_shape_sizes [OF sh2 assms(1)] r2(4) assms(1) by (simp add: tm_sizes_def)
  have len2: "length (tm_buckets tm2) = length (tm_buckets tm)" "length (tm_pool tm2) = length (tm_pool tm)"
    using sh2 by (auto simp: same_shape_def)
  have "\<exists>tm'. push_entry (int idx) h t out tm2 = Inr tm' \<and> same_shape tm2 tm' \<and>
    tm_next_entry tm' = tm_next_entry tm2 + 1 \<and>
    tm_chains tm' (ch2(nat (tm_hash tm2 h) := idx # ch2 (nat (tm_hash tm2 h)))) \<and>
    (\<forall>j. j \<noteq> idx \<longrightarrow> tm_pool tm' ! j = tm_pool tm2 ! j) \<and> core (tm_pool tm' ! idx) = (h, t, True, out)"
    using idx r2(4,5) assms(4,5) len2 by (intro push_entry_pool [OF sz2 r2(3)]) auto
  then obtain tm' where
    p: "push_entry (int idx) h t out tm2 = Inr tm'" "same_shape tm2 tm'"
      "tm_next_entry tm' = tm_next_entry tm + 1"
      "tm_chains tm' (ch2(nat (tm_hash tm2 h) := idx # ch2 (nat (tm_hash tm2 h))))"
      "\<forall>j. j \<noteq> idx \<longrightarrow> tm_pool tm' ! j = tm_pool tm2 ! j" "core (tm_pool tm' ! idx) = (h, t, True, out)"
    using r2(4) by auto
  have eq: "tm_insert h t out tm = Inr tm'"
    using rs(1) r2(1) p(1) idx(2) by (simp add: tm_insert_def)
  have sh': "same_shape tm tm'" using sh2 p(2) by (simp add: same_shape_def)
  moreover have "tm_sizes tm'"
    using same_shape_sizes [OF sh' assms(1)] p(3) assms(1) by (simp add: tm_sizes_def)
  moreover have "\<forall>b < length (tm_buckets tm).
      set ((ch2(nat (tm_hash tm2 h) := idx # ch2 (nat (tm_hash tm2 h)))) b) \<subseteq> insert idx (set (ch b))"
    using r2(5) by (auto split: if_splits)
  moreover have "\<forall>j < length (tm_pool tm). j \<noteq> idx \<longrightarrow> core (tm_pool tm' ! j) =
      core (if stale_for tm h t (tm_pool tm ! j) then (tm_pool tm ! j)\<lparr>te_valid := False\<rparr>
            else tm_pool tm ! j)"
    using r2(6) p(5) by simp
  ultimately show ?thesis using eq p(3,4,6) by blast
qed

section \<open>The contract of a producer index\<close>

text \<open>
  What submission relies on: the index is a finite map from handles to their latest producer, where
  task ids only grow and retiring forgets the producers below a bound. \<open>inv m b\<close> also says that no
  recorded producer exceeds \<open>b\<close>; \<open>room\<close> is how many insertions the contract still covers.
\<close>

locale producer_index =
  fixes insert :: "u64 \<Rightarrow> i32 \<Rightarrow> 'm \<Rightarrow> 'm res"
    and lookup :: "u64 \<Rightarrow> 'm \<Rightarrow> i32 option res"
    and retire :: "i32 \<Rightarrow> 'm \<Rightarrow> 'm"
    and abs :: "'m \<Rightarrow> u64 \<Rightarrow> i32 option"
    and low :: "'m \<Rightarrow> i32"
    and room :: "'m \<Rightarrow> int"
    and inv :: "'m \<Rightarrow> i32 \<Rightarrow> bool"
  assumes insert_abs: "inv m b \<Longrightarrow> b \<le> t \<Longrightarrow> low m \<le> t \<Longrightarrow> 0 < room m \<Longrightarrow>
      \<exists>m'. insert h t m = Inr m' \<and> inv m' t \<and> abs m' = (abs m)(h \<mapsto> t) \<and> low m' = low m \<and>
        room m' = room m - 1"
    and lookup_abs: "inv m b \<Longrightarrow> lookup h m = Inr (abs m h)"
    and retire_abs: "inv m b \<Longrightarrow> low m \<le> k \<Longrightarrow> inv (retire k m) b \<and> low (retire k m) = k \<and>
      room (retire k m) = room m \<and>
      abs (retire k m) h = (case abs m h of None \<Rightarrow> None | Some t \<Rightarrow> if k \<le> t then Some t else None)"
begin

lemma insert_all:
  assumes "inv m b" "sorted (b # map snd xs)" "low m \<le> b" "int (length xs) \<le> room m"
  shows "\<exists>m'. foldR (\<lambda>(h, t). insert h t) xs m = Inr m' \<and> inv m' (last (b # map snd xs)) \<and>
    abs m' = (\<lambda>h. case map_of (rev xs) h of Some t \<Rightarrow> Some t | None \<Rightarrow> abs m h) \<and> low m' = low m \<and>
    room m' = room m - int (length xs)"
  using assms
proof (induction xs arbitrary: m b)
  case Nil
  then show ?case by simp
next
  case (Cons x xs)
  obtain h t where x: "x = (h, t)" by (cases x)
  have "b \<le> t" "low m \<le> t" "0 < room m" using Cons.prems x by auto
  from insert_abs [OF Cons.prems(1) this, of h] obtain m1 where
    m1: "insert h t m = Inr m1" "inv m1 t" "abs m1 = (abs m)(h \<mapsto> t)" "low m1 = low m"
      "room m1 = room m - 1" by blast
  have "\<exists>m'. foldR (\<lambda>(h, t). insert h t) xs m1 = Inr m' \<and> inv m' (last (t # map snd xs)) \<and>
    abs m' = (\<lambda>h. case map_of (rev xs) h of Some t \<Rightarrow> Some t | None \<Rightarrow> abs m1 h) \<and> low m' = low m1 \<and>
    room m' = room m1 - int (length xs)"
    using Cons.prems x m1 \<open>low m \<le> t\<close> by (intro Cons.IH) auto
  then obtain m' where m': "foldR (\<lambda>(h, t). insert h t) xs m1 = Inr m'" "inv m' (last (t # map snd xs))"
    "abs m' = (\<lambda>h. case map_of (rev xs) h of Some t \<Rightarrow> Some t | None \<Rightarrow> abs m1 h)" "low m' = low m1"
    "room m' = room m1 - int (length xs)" by blast
  have "abs m' = (\<lambda>h. case map_of (rev (x # xs)) h of Some t \<Rightarrow> Some t | None \<Rightarrow> abs m h)"
    unfolding m'(3) m1(3) x by (auto simp: map_add_def fun_eq_iff split: option.splits)
  with m' m1 x show ?case by simp
qed

end

text \<open>
  The map meets the contract during its first lap over the pool, with every entry an output
  registration, as both runtimes use it.
\<close>

definition tm_abs :: "tensor_map \<Rightarrow> u64 \<Rightarrow> i32 option" where
  "tm_abs tm h = (if tm_live tm h = {} then None else Some (Max (tm_live tm h)))"

definition tm_room :: "tensor_map \<Rightarrow> int" where
  "tm_room tm = tm_pool_size tm - tm_next_entry tm"

definition tm_inv :: "tensor_map \<Rightarrow> i32 \<Rightarrow> bool" where
  "tm_inv tm b \<longleftrightarrow> tm_sizes tm \<and> tm_pool_size tm \<le> INT32_MAX \<and> tm_next_entry tm \<le> tm_pool_size tm \<and>
     (\<exists>ch. tm_chains tm ch \<and> (\<forall>c < length (tm_buckets tm). \<forall>i \<in> set (ch c). int i < tm_next_entry tm)) \<and>
     (\<forall>i < length (tm_pool tm). te_valid (tm_pool tm ! i) \<longrightarrow>
        te_is_output_alloc (tm_pool tm ! i) \<and> te_producer_task_id (tm_pool tm ! i) \<le> b)"

lemma tm_live_iff:
  "p \<in> tm_live tm h \<longleftrightarrow>
     (\<exists>j < length (tm_pool tm). \<exists>out. core (tm_pool tm ! j) = (h, p, True, out)) \<and> tm_last_task_alive tm \<le> p"
  by (auto simp: tm_live_def core_def in_set_conv_nth image_iff)

lemma unchained_invalid:
  assumes "tm_sizes tm" "tm_chains tm ch" "i < length (tm_pool tm)" "\<forall>c < length (tm_buckets tm). i \<notin> set (ch c)"
  shows "\<not> te_valid (tm_pool tm ! i)"
proof
  assume "te_valid (tm_pool tm ! i)"
  then have "i \<in> set (ch (nat (tm_hash tm (te_tensor_handle (tm_pool tm ! i)))))"
    using assms(2,3) unfolding tm_chains_def by blast
  moreover have "nat (tm_hash tm (te_tensor_handle (tm_pool tm ! i))) < length (tm_buckets tm)"
    using tm_hash_bucket [OF assms(1), of "te_tensor_handle (tm_pool tm ! i)"] by linarith
  ultimately show False using assms(4) by blast
qed

text \<open>The pool after an insertion: entry \<open>idx\<close> is written, the older entries of the same handle are invalidated and every
  other one stands.\<close>

definition written :: "u64 \<Rightarrow> i32 \<Rightarrow> nat \<Rightarrow> tensor_map \<Rightarrow> tensor_map \<Rightarrow> bool" where
  "written h t idx tm tm' \<longleftrightarrow> length (tm_pool tm') = length (tm_pool tm) \<and>
     tm_last_task_alive tm' = tm_last_task_alive tm \<and> core (tm_pool tm' ! idx) = (h, t, True, True) \<and>
     (\<forall>j < length (tm_pool tm). j \<noteq> idx \<longrightarrow> core (tm_pool tm' ! j) =
        core (if stale_for tm h t (tm_pool tm ! j) then (tm_pool tm ! j)\<lparr>te_valid := False\<rparr> else tm_pool tm ! j))"

lemma written_other:
  assumes "written h t idx tm tm'" "j < length (tm_pool tm)" "j \<noteq> idx"
  shows "core (tm_pool tm' ! j) = (h', p, True, out) \<longleftrightarrow>
    core (tm_pool tm ! j) = (h', p, True, out) \<and> \<not> stale_for tm h t (tm_pool tm ! j)"
  using assms by (auto simp: written_def core_def stale_for_def)

lemma written_outputs:
  assumes "written h t idx tm tm'" "b \<le> t"
    and "\<forall>i < length (tm_pool tm). te_valid (tm_pool tm ! i) \<longrightarrow>
        te_is_output_alloc (tm_pool tm ! i) \<and> te_producer_task_id (tm_pool tm ! i) \<le> b"
    and "i < length (tm_pool tm')" "te_valid (tm_pool tm' ! i)"
  shows "te_is_output_alloc (tm_pool tm' ! i) \<and> te_producer_task_id (tm_pool tm' ! i) \<le> t"
proof (cases "i = idx")
  case True
  with assms(1) show ?thesis by (simp add: written_def core_def)
next
  case False
  have i: "i < length (tm_pool tm)" using assms(1,4) by (simp add: written_def)
  from written_other [OF assms(1) i False, of "te_tensor_handle (tm_pool tm' ! i)"
      "te_producer_task_id (tm_pool tm' ! i)" "te_is_output_alloc (tm_pool tm' ! i)"] assms(5)
  have "core (tm_pool tm ! i) = core (tm_pool tm' ! i)" by (simp add: core_def)
  with assms(2,5) spec [OF assms(3), of i] i show ?thesis by (auto simp: core_def)
qed

lemma written_live:
  assumes "written h t idx tm tm'" "idx < length (tm_pool tm)" "b \<le> t" "tm_last_task_alive tm \<le> t"
    and "\<forall>i < length (tm_pool tm). te_valid (tm_pool tm ! i) \<longrightarrow>
        te_is_output_alloc (tm_pool tm ! i) \<and> te_producer_task_id (tm_pool tm ! i) \<le> b"
  shows "tm_live tm' h = {t}"
proof (intro equalityI subsetI)
  fix p assume "p \<in> tm_live tm' h"
  then obtain j out where j: "j < length (tm_pool tm)" "core (tm_pool tm' ! j) = (h, p, True, out)"
    "tm_last_task_alive tm \<le> p" using assms(1) by (auto simp: tm_live_iff written_def)
  show "p \<in> {t}"
  proof (cases "j = idx")
    case True
    with j assms(1) show ?thesis by (simp add: written_def)
  next
    case False
    with written_other [OF assms(1)] j
    have "core (tm_pool tm ! j) = (h, p, True, out)" "\<not> stale_for tm h t (tm_pool tm ! j)" by auto
    with assms(3,5) j show ?thesis by (force simp: core_def stale_for_def)
  qed
next
  fix p assume "p \<in> {t}"
  then show "p \<in> tm_live tm' h" using assms(1,2,4) by (auto simp: tm_live_iff written_def)
qed

lemma written_live_other:
  assumes "written h t idx tm tm'" "\<not> te_valid (tm_pool tm ! idx)" "h' \<noteq> h"
  shows "tm_live tm' h' = tm_live tm h'"
proof -
  have "(core (tm_pool tm' ! j) = (h', p, True, out)) = (core (tm_pool tm ! j) = (h', p, True, out))"
    if j: "j < length (tm_pool tm)" for j p out
  proof (cases "j = idx")
    case True
    with assms show ?thesis by (auto simp: core_def written_def)
  next
    case False
    with written_other [OF assms(1) j False, of h' p out] assms(3) show ?thesis
      by (auto simp: core_def stale_for_def)
  qed
  then have "p \<in> tm_live tm' h' \<longleftrightarrow> p \<in> tm_live tm h'" for p
    using assms(1) unfolding tm_live_iff written_def by metis
  then show ?thesis by blast
qed

lemma tm_insert_first_lap:
  assumes "tm_inv tm b" "b \<le> t" "tm_last_task_alive tm \<le> t" "0 < tm_room tm"
  shows "\<exists>tm'. tm_insert h t True tm = Inr tm' \<and> tm_inv tm' t \<and> tm_abs tm' = (tm_abs tm)(h \<mapsto> t) \<and>
    tm_last_task_alive tm' = tm_last_task_alive tm \<and> tm_room tm' = tm_room tm - 1"
proof -
  from assms(1) obtain ch where sz: "tm_sizes tm" and ch: "tm_chains tm ch"
    and old: "\<forall>c < length (tm_buckets tm). \<forall>i \<in> set (ch c). int i < tm_next_entry tm"
    and lim: "tm_pool_size tm \<le> INT32_MAX"
    and ent: "\<forall>i < length (tm_pool tm). te_valid (tm_pool tm ! i) \<longrightarrow>
        te_is_output_alloc (tm_pool tm ! i) \<and> te_producer_task_id (tm_pool tm ! i) \<le> b"
    by (auto simp: tm_inv_def)
  let ?idx = "nat (tm_next_entry tm mod tm_pool_size tm)"
  have nx: "0 \<le> tm_next_entry tm" "tm_next_entry tm < tm_pool_size tm" "0 \<le> tm_last_task_alive tm"
    using sz assms(4) by (auto simp: tm_sizes_def tm_room_def)
  then have idx: "int ?idx = tm_next_entry tm" "?idx < length (tm_pool tm)"
    using sz by (auto simp: tm_sizes_def)
  then have free: "\<forall>c < length (tm_buckets tm). ?idx \<notin> set (ch c)" using old by fastforce
  then have rec: "tm_recyclable tm ch h t" by (simp add: tm_recyclable_def Let_def)
  have "0 \<le> t" "tm_next_entry tm < INT32_MAX" using nx assms(3) lim by auto
  from tm_insert_pool [OF sz ch rec this, of True] obtain tm' ch' where
    ins: "tm_insert h t True tm = Inr tm'" "same_shape tm tm'" "tm_sizes tm'"
      "tm_next_entry tm' = tm_next_entry tm + 1" "tm_chains tm' ch'"
      "\<forall>b < length (tm_buckets tm). set (ch' b) \<subseteq> insert ?idx (set (ch b))"
    and w: "written h t ?idx tm tm'" by (auto simp: written_def same_shape_def)
  have len: "tm_last_task_alive tm' = tm_last_task_alive tm"
    "length (tm_buckets tm') = length (tm_buckets tm)" "tm_pool_size tm' = tm_pool_size tm"
    using ins(2) by (auto simp: same_shape_def)
  have "\<forall>c < length (tm_buckets tm'). \<forall>i \<in> set (ch' c). int i < tm_next_entry tm'"
    using ins(4,6) old idx(1) by (fastforce simp: len)
  then have "tm_inv tm' t"
    using ins(3-5) lim nx written_outputs [OF w assms(2) ent] by (auto simp: tm_inv_def len)
  moreover have "tm_abs tm' = (tm_abs tm)(h \<mapsto> t)"
    using written_live [OF w idx(2) assms(2,3) ent] written_live_other [OF w unchained_invalid [OF sz ch idx(2) free]]
    by (auto simp: tm_abs_def fun_eq_iff)
  ultimately show ?thesis using ins(1,4) len by (auto simp: tm_room_def)
qed

lemma tm_inv_wf: "tm_inv tm b \<Longrightarrow> tm_wf tm"
  by (auto simp: tm_inv_def tm_wf_def)

lemma tm_retire_live:
  assumes "tm_last_task_alive tm \<le> k"
  shows "tm_live (tm_invalidate_below k tm) h = {p \<in> tm_live tm h. k \<le> p}"
proof -
  have "p \<in> tm_live (tm_invalidate_below k tm) h \<longleftrightarrow> p \<in> tm_live tm h \<and> k \<le> p" for p
    using assms unfolding tm_live_iff by (auto simp: tm_invalidate_below_def)
  then show ?thesis by blast
qed

lemma tm_inv_retire:
  assumes "tm_inv m b" "tm_last_task_alive m \<le> k"
  shows "tm_inv (tm_invalidate_below k m) b"
proof -
  let ?m = "tm_invalidate_below k m"
  have h: "tm_hash ?m = tm_hash m"
    by (intro ext tm_hash_cong) (simp add: tm_invalidate_below_def)
  have f: "tm_pool ?m = tm_pool m" "tm_buckets ?m = tm_buckets m" "tm_pool_size ?m = tm_pool_size m"
    "tm_next_entry ?m = tm_next_entry m" by (simp_all add: tm_invalidate_below_def)
  have "tm_sizes ?m" if "tm_sizes m"
    using that assms(2) by (simp add: tm_sizes_def tm_invalidate_below_def)
  with assms(1) show ?thesis unfolding tm_inv_def tm_chains_def h f by blast
qed

lemma tm_live_finite: "finite (tm_live tm h)"
  by (simp add: tm_live_def)

interpretation tm_index: producer_index "\<lambda>h t. tm_insert h t True" tm_lookup tm_invalidate_below tm_abs
  tm_last_task_alive tm_room tm_inv
proof
  fix m b k h
  assume inv: "tm_inv m b" and k: "tm_last_task_alive m \<le> k"
  have "tm_inv (tm_invalidate_below k m) b"
    by (rule tm_inv_retire [OF inv k])
  moreover have "tm_abs (tm_invalidate_below k m) h =
      (case tm_abs m h of None \<Rightarrow> None | Some t \<Rightarrow> if k \<le> t then Some t else None)"
  proof (cases "k \<le> Max (tm_live m h) \<and> tm_live m h \<noteq> {}")
    case True
    then have "Max {p \<in> tm_live m h. k \<le> p} = Max (tm_live m h)"
      by (intro Max_eqI) (auto simp: tm_live_finite)
    moreover have "{p \<in> tm_live m h. k \<le> p} \<noteq> {}" using True Max_in [OF tm_live_finite] by blast
    ultimately show ?thesis using True by (simp add: tm_abs_def tm_retire_live [OF k])
  next
    case False
    then have "{p \<in> tm_live m h. k \<le> p} = {}"
      using Max_ge [OF tm_live_finite] order_trans by blast
    with False show ?thesis by (simp add: tm_abs_def tm_retire_live [OF k])
  qed
  ultimately show "tm_inv (tm_invalidate_below k m) b \<and> tm_last_task_alive (tm_invalidate_below k m) = k \<and>
      tm_room (tm_invalidate_below k m) = tm_room m \<and>
      tm_abs (tm_invalidate_below k m) h =
        (case tm_abs m h of None \<Rightarrow> None | Some t \<Rightarrow> if k \<le> t then Some t else None)"
    by (simp add: tm_room_def tm_invalidate_below_def)
qed (auto simp: tm_insert_first_lap tm_lookup_max [OF tm_inv_wf] tm_abs_def)

lemma tm_inv_mono: "tm_inv m b \<Longrightarrow> b \<le> b' \<Longrightarrow> tm_inv m b'"
  unfolding tm_inv_def by (meson order_trans)

lemma tm_abs_range:
  assumes "tm_inv m b" "tm_abs m h = Some p"
  shows "tm_last_task_alive m \<le> p \<and> p \<le> b"
proof -
  have "p \<in> tm_live m h"
    using assms(2) Max_in [OF tm_live_finite] by (auto simp: tm_abs_def split: if_splits)
  then obtain j out where j: "j < length (tm_pool m)" "core (tm_pool m ! j) = (h, p, True, out)"
    "tm_last_task_alive m \<le> p" by (auto simp: tm_live_iff)
  with assms(1) show ?thesis by (auto simp: tm_inv_def core_def)
qed

lemma tm_init_inv:
  assumes "tm_init nb ps tm_new = Inr tm" "nb \<le> INT32_MAX" "0 < ps" "ps \<le> INT32_MAX"
  shows "tm_inv tm b \<and> tm_room tm = ps \<and> tm_last_task_alive tm = 0 \<and> tm_abs tm = Map.empty"
proof -
  have tm: "tm = tm_new\<lparr>tm_num_buckets := nb, tm_pool_size := ps, tm_buckets := replicate (nat nb) (- 1),
      tm_pool := replicate (nat ps) tm_entry_zero, tm_task_heads := replicate (nat ps) (- 1),
      tm_next_entry := 0, tm_last_task_alive := 0\<rparr>" and nb: "0 < nb"
    using assms(1) by (auto simp: tm_init_def tm_new_def vec_resize_def elim!: bindR_InrE)
  have "tm_chains tm (\<lambda>_. [])" by (simp add: tm_chains_def tm tm_entry_zero_def)
  then have "tm_inv tm b"
    unfolding tm_inv_def using assms(2-4) nb
    by (auto simp: tm_sizes_def tm tm_entry_zero_def intro!: exI [of _ "\<lambda>_. []"])
  moreover have "tm_live tm h = {}" for h by (auto simp: tm_live_def tm tm_entry_zero_def)
  ultimately show ?thesis by (simp add: tm_abs_def tm_room_def tm fun_eq_iff)
qed

section \<open>Properties\<close>

text \<open>C8. The tensor map finds the latest producer. On a fresh map, a sequence of output registrations
  with growing task ids, no longer than the pool, succeeds; after it and after retiring the tasks
  below \<open>k\<close>, a lookup returns the last task that registered the handle, unless that task is below
  \<open>k\<close> or there is none.\<close>

theorem tm_lookup_latest_producer:
  assumes "tm_init nb ps tm_new = Inr tm" "nb \<le> INT32_MAX" "0 < ps" "ps \<le> INT32_MAX"
    and "sorted (map snd xs)" "\<forall>x \<in> set xs. 0 \<le> snd x" "int (length xs) \<le> ps" "0 \<le> k"
  shows "\<exists>tm'. foldR (\<lambda>(h, t). tm_insert h t True) xs tm = Inr tm' \<and>
    tm_lookup h (tm_invalidate_below k tm') = Inr (case map_of (rev xs) h of None \<Rightarrow> None
      | Some t \<Rightarrow> if k \<le> t then Some t else None)"
proof -
  note init = tm_init_inv [OF assms(1-4), of 0]
  have "sorted (0 # map snd xs)" using assms(5,6) by auto
  with tm_index.insert_all [of tm 0 xs] init assms(7) obtain tm' where
    tm': "foldR (\<lambda>(h, t). tm_insert h t True) xs tm = Inr tm'" "tm_inv tm' (last (0 # map snd xs))"
      "tm_abs tm' = (\<lambda>h. case map_of (rev xs) h of Some t \<Rightarrow> Some t | None \<Rightarrow> tm_abs tm h)"
      "tm_last_task_alive tm' = 0" by auto
  from tm_index.retire_abs [OF tm'(2), of k h] tm'(4) assms(8)
  have r: "tm_inv (tm_invalidate_below k tm') (last (0 # map snd xs))"
    "tm_abs (tm_invalidate_below k tm') h =
      (case tm_abs tm' h of None \<Rightarrow> None | Some t \<Rightarrow> if k \<le> t then Some t else None)" by auto
  have "tm_abs tm h = None" using init by simp
  with tm_index.lookup_abs [OF r(1), of h] r(2) tm'(1,3) show ?thesis
    by (simp split: option.splits)
qed

theorem tm_lookup_latest_producer_witness:
  "\<exists>tm tm'. tm_init 64 256 tm_new = Inr tm \<and>
     foldR (\<lambda>(h, t). tm_insert h t True) [(7, 0), (9, 1), (7, 2)] tm = Inr tm' \<and>
     tm_lookup 7 (tm_invalidate_below 1 tm') = Inr (Some 2)"
proof -
  obtain tm where tm: "tm_init 64 256 tm_new = Inr tm" by (simp add: tm_init_def)
  from tm_lookup_latest_producer [OF tm, of "[(7, 0), (9, 1), (7, 2)]" 1 7] tm show ?thesis by auto
qed

end
