(* ===== verification/Tensor_Map_Reuse.thy ===== *)
theory Tensor_Map_Reuse
  imports Tensor_Map
begin

text \<open>
  What happens to \<^verbatim>\<open>LinquTensorMap\<close> past the first lap of its pool, the part the contract of
  \<open>Tensor_Map\<close> leaves out. \<^verbatim>\<open>remove_stale_for_handle\<close> clears \<^verbatim>\<open>valid\<close> and leaves the entry in
  its bucket, and \<^verbatim>\<open>insert\<close> unlinks a reused entry only when it is valid: a handle that has been
  registered often enough closes its bucket chain into a cycle.
\<close>

section \<open>Inserting over stale entries\<close>

lemma insert_all_stale:
  assumes "tm_sizes tm" "tm_chains tm ch" "0 \<le> t" "tm_next_entry tm < INT32_MAX"
    and stale: "\<And>i. i < length (tm_pool tm) \<Longrightarrow> te_valid (tm_pool tm ! i) \<Longrightarrow> stale_for tm h t (tm_pool tm ! i)"
  defines "idx \<equiv> nat (tm_next_entry tm mod tm_pool_size tm)" and "b \<equiv> nat (tm_hash tm h)"
  shows "\<exists>tm'. tm_insert h t out tm = Inr tm' \<and> same_shape tm tm' \<and>
    tm_next_entry tm' = tm_next_entry tm + 1 \<and> tm_buckets tm' = (tm_buckets tm)[b := int idx] \<and>
    te_next_in_bucket (tm_pool tm' ! idx) = tm_buckets tm ! b \<and>
    (\<forall>j < length (tm_pool tm). j \<noteq> idx \<longrightarrow>
       te_next_in_bucket (tm_pool tm' ! j) = te_next_in_bucket (tm_pool tm ! j) \<and> \<not> te_valid (tm_pool tm' ! j)) \<and>
    core (tm_pool tm' ! idx) = (h, t, True, out)"
proof -
  let ?tm1 = "tm\<lparr>tm_pool := cleared UNIV (stale_for tm h t) (tm_pool tm)\<rparr>"
  note rs = remove_stale_pool [OF assms(1,2), of h t]
  have idx: "idx < length (tm_pool tm)" "tm_next_entry tm mod tm_pool_size tm = int idx"
    using assms(1) by (auto simp: idx_def tm_sizes_def nat_less_iff)
  have inv: "\<not> te_valid (tm_pool ?tm1 ! j)" if "j < length (tm_pool tm)" for j
    using that stale [OF that] by auto
  have "recycle_entry (int idx) ?tm1 = Inr ?tm1"
    using idx(1) inv [OF idx(1)] by (simp add: recycle_entry_def)
  then have ins: "tm_insert h t out tm = push_entry (int idx) h t out ?tm1"
    using rs(1) idx(2) by (simp add: tm_insert_def Let_def)
  have hash: "tm_hash ?tm1 h = tm_hash tm h" by (rule tm_hash_cong) simp
  have bk: "0 \<le> tm_hash tm h" "tm_hash tm h < int (length (tm_buckets tm))"
    using tm_hash_bucket [OF assms(1)] by auto
  have ts: "0 \<le> c_rem t (tm_pool_size tm)" "c_rem t (tm_pool_size tm) < int (length (tm_task_heads tm))"
    using assms(1,3) by (auto simp: c_rem_def tm_sizes_def)
  show ?thesis unfolding ins using assms(4) idx(1) hash bk ts inv
    by (simp add: push_entry_def inc_i32_def Let_def same_shape_def core_def b_def del: nth_cleared)
      (simp add: nth_list_update)
qed

text \<open>The map after the tasks \<open>0 .. m - 1\<close> registered the one handle \<open>h\<close>: one chain, newest first.\<close>

definition one_chain :: "u64 \<Rightarrow> nat \<Rightarrow> tensor_map \<Rightarrow> bool" where
  "one_chain h m tm \<longleftrightarrow> tm_next_entry tm = int m \<and>
     tm_buckets tm ! nat (tm_hash tm h) = int m - 1 \<and>
     (\<forall>i < m. te_next_in_bucket (tm_pool tm ! i) = int i - 1) \<and>
     (\<forall>i < length (tm_pool tm). te_valid (tm_pool tm ! i) \<longrightarrow>
        te_tensor_handle (tm_pool tm ! i) = h \<and> te_is_output_alloc (tm_pool tm ! i) \<and>
        0 \<le> te_producer_task_id (tm_pool tm ! i) \<and> te_producer_task_id (tm_pool tm ! i) < int m)"

lemma one_chain_step:
  assumes "tm_inv tm b" "b \<le> int m" "tm_last_task_alive tm = 0" "one_chain h m tm"
    and "int m < tm_pool_size tm"
  shows "\<exists>tm'. tm_insert h (int m) True tm = Inr tm' \<and> tm_inv tm' (int m) \<and>
    tm_last_task_alive tm' = 0 \<and> tm_pool_size tm' = tm_pool_size tm \<and> one_chain h (Suc m) tm'"
proof -
  have room: "0 < tm_room tm" using assms(4,5) by (simp add: tm_room_def one_chain_def)
  have "tm_last_task_alive tm \<le> int m" using assms(3) by simp
  from tm_insert_first_lap [OF assms(1,2) this room, of h] obtain tm' where
    tm': "tm_insert h (int m) True tm = Inr tm'" "tm_inv tm' (int m)" "tm_last_task_alive tm' = 0"
    using assms(3) by auto
  from assms(1) obtain ch where sz: "tm_sizes tm" and ch: "tm_chains tm ch" "tm_pool_size tm \<le> INT32_MAX"
    by (auto simp: tm_inv_def)
  have lt: "tm_next_entry tm < INT32_MAX" "0 \<le> int m" using assms(4,5) ch(2) by (auto simp: one_chain_def)
  have "stale_for tm h (int m) (tm_pool tm ! i)"
    if "i < length (tm_pool tm)" "te_valid (tm_pool tm ! i)" for i
    using that assms(3,4) by (auto simp: stale_for_def one_chain_def)
  from insert_all_stale [OF sz ch(1) lt(2,1) this, of True] tm'(1)
  have d: "same_shape tm tm'" "tm_next_entry tm' = tm_next_entry tm + 1"
    "tm_buckets tm' = (tm_buckets tm)[nat (tm_hash tm h) := int m]"
    "te_next_in_bucket (tm_pool tm' ! m) = tm_buckets tm ! nat (tm_hash tm h)"
    "\<forall>j < length (tm_pool tm). j \<noteq> m \<longrightarrow>
       te_next_in_bucket (tm_pool tm' ! j) = te_next_in_bucket (tm_pool tm ! j) \<and> \<not> te_valid (tm_pool tm' ! j)"
    "core (tm_pool tm' ! m) = (h, int m, True, True)"
    using assms(4,5) by (auto simp: one_chain_def)
  have b: "nat (tm_hash tm h) < length (tm_buckets tm)" using tm_hash_bucket [OF sz, of h] by linarith
  have m: "m < length (tm_pool tm)" using sz assms(5) by (simp add: tm_sizes_def)
  have "one_chain h (Suc m) tm'"
    unfolding one_chain_def
  proof (intro conjI allI impI)
    fix i assume "i < Suc m"
    then show "te_next_in_bucket (tm_pool tm' ! i) = int i - 1"
      using d(4,5) assms(4) m by (cases "i = m") (auto simp: one_chain_def)
  next
    fix i assume i: "i < length (tm_pool tm')" "te_valid (tm_pool tm' ! i)"
    then have "i = m" using d(1,5) by (auto simp: same_shape_def)
    with d(6) show "te_tensor_handle (tm_pool tm' ! i) = h" "te_is_output_alloc (tm_pool tm' ! i)"
      "0 \<le> te_producer_task_id (tm_pool tm' ! i)" "te_producer_task_id (tm_pool tm' ! i) < int (Suc m)"
      by (auto simp: core_def)
  qed (use d(2,3) assms(4) b same_shape_hash [OF d(1)] in \<open>auto simp: one_chain_def\<close>)
  with tm' d(1) show ?thesis by (auto simp: same_shape_def)
qed

lemma one_chain_build:
  assumes "tm_init nb ps tm_new = Inr tm" "nb \<le> INT32_MAX" "0 < ps" "ps \<le> INT32_MAX" "int m \<le> ps"
  shows "\<exists>tm'. foldR (\<lambda>t. tm_insert h t True) (map int [0..<m]) tm = Inr tm' \<and> tm_inv tm' (int m) \<and>
    tm_last_task_alive tm' = 0 \<and> tm_pool_size tm' = ps \<and> one_chain h m tm'"
  using assms(5)
proof (induction m)
  case 0
  have tm: "tm = tm_new\<lparr>tm_num_buckets := nb, tm_pool_size := ps, tm_buckets := replicate (nat nb) (- 1),
      tm_pool := replicate (nat ps) tm_entry_zero, tm_task_heads := replicate (nat ps) (- 1),
      tm_next_entry := 0, tm_last_task_alive := 0\<rparr>"
    using assms(1) by (auto simp: tm_init_def tm_new_def vec_resize_def elim!: bindR_InrE)
  have i: "tm_inv tm 0 \<and> tm_last_task_alive tm = 0" using tm_init_inv [OF assms(1-4), of 0] by simp
  then have "nat (tm_hash tm h) < length (tm_buckets tm)"
    using tm_hash_bucket [of tm h] unfolding tm_inv_def by linarith
  then have "one_chain h 0 tm" by (simp add: one_chain_def tm tm_entry_zero_def)
  with i show ?case by (simp add: tm)
next
  case (Suc m)
  then obtain tm1 where 1: "foldR (\<lambda>t. tm_insert h t True) (map int [0..<m]) tm = Inr tm1"
    "tm_inv tm1 (int m)" "tm_last_task_alive tm1 = 0" "tm_pool_size tm1 = ps" "one_chain h m tm1"
    by auto
  from one_chain_step [OF 1(2) _ 1(3,5)] Suc.prems 1(4) obtain tm2 where
    2: "tm_insert h (int m) True tm1 = Inr tm2" "tm_inv tm2 (int m)" "tm_last_task_alive tm2 = 0"
      "tm_pool_size tm2 = ps" "one_chain h (Suc m) tm2" by auto
  have "tm_inv tm2 (int (Suc m))" using 2(2) by (fastforce simp: tm_inv_def)
  with 1(1) 2 show ?case by (simp add: foldR_append)
qed

section \<open>Walking a cycle\<close>

lemma walk_cycle_diverges:
  assumes "\<And>i. i < n \<Longrightarrow> \<exists>j < n. te_next_in_bucket (tm_pool tm ! i) = int j" "n \<le> length (tm_pool tm)" "i < n"
  shows "lookup_chain fuel tm h (int i) best = Inl Diverges"
  using assms(3)
proof (induction fuel arbitrary: i best)
  case 0
  then show ?case by (simp add: lookup_chain.simps)
next
  case (Suc fuel)
  from assms(1) [OF Suc.prems] obtain j where "j < n" "te_next_in_bucket (tm_pool tm ! i) = int j" by blast
  with Suc assms(2) show ?case by (subst lookup_chain.simps) simp
qed

lemma invalidate_cycle_diverges:
  assumes "\<And>i. i < n \<Longrightarrow> \<exists>j < n. te_next_in_bucket (pool ! i) = int j" "n \<le> length pool" "i < n"
  shows "invalidate_chain fuel te_next_in_bucket P (int i) pool = Inl Diverges"
  using assms
proof (induction fuel arbitrary: i pool)
  case 0
  then show ?case by (simp add: invalidate_chain.simps)
next
  case (Suc fuel)
  let ?pool = "if P (pool ! i) then pool[i := (pool ! i)\<lparr>te_valid := False\<rparr>] else pool"
  obtain j where j: "j < n" "te_next_in_bucket (pool ! i) = int j" using Suc.prems by blast
  have "te_next_in_bucket (?pool ! k) = te_next_in_bucket (pool ! k)" for k
    using Suc.prems(2,3) by (cases "k = i") auto
  then have "invalidate_chain fuel te_next_in_bucket P (int j) ?pool = Inl Diverges"
    using Suc.prems j(1) by (intro Suc.IH) auto
  with j Suc.prems show ?case by (subst invalidate_chain.simps) (simp split: if_splits)
qed

section \<open>Properties\<close>

text \<open>C25. A handle that is registered once more than the pool has entries closes its bucket into a
  cycle. Whatever the table sizes, the registrations by tasks \<open>0 .. ps\<close> all succeed, and from then on
  \<^verbatim>\<open>lookup\<close> of that handle never returns (no number of steps is enough), nor does the next \<^verbatim>\<open>insert\<close>.\<close>

theorem tm_reuse_never_returns:
  assumes "tm_init nb ps tm_new = Inr tm" "nb \<le> INT32_MAX" "0 < ps" "ps < INT32_MAX"
  shows "\<exists>tm'. foldR (\<lambda>t. tm_insert h t True) (map int [0..<nat ps] @ [ps]) tm = Inr tm' \<and>
    tm_lookup h tm' = Inl Diverges \<and> tm_insert h (ps + 1) True tm' = Inl Diverges \<and>
    (\<forall>fuel. lookup_chain fuel tm' h (tm_buckets tm' ! nat (tm_hash tm' h)) (- 1) = Inl Diverges)"
proof -
  let ?n = "nat ps"
  have "ps \<le> INT32_MAX" "int ?n \<le> ps" using assms(3,4) by auto
  from one_chain_build [OF assms(1-3) this] obtain tm1 where
    1: "foldR (\<lambda>t. tm_insert h t True) (map int [0..<?n]) tm = Inr tm1" "tm_inv tm1 (int ?n)"
      "tm_last_task_alive tm1 = 0" "tm_pool_size tm1 = ps" "one_chain h ?n tm1" by blast
  from 1(2) obtain ch where sz: "tm_sizes tm1" and ch: "tm_chains tm1 ch" by (auto simp: tm_inv_def)
  have n: "length (tm_pool tm1) = ?n" "tm_next_entry tm1 = ps"
    using sz 1(4,5) assms(3) by (auto simp: tm_sizes_def one_chain_def)
  have "stale_for tm1 h ps (tm_pool tm1 ! i)"
    if "i < length (tm_pool tm1)" "te_valid (tm_pool tm1 ! i)" for i
    using that 1(3,5) assms(3) by (auto simp: stale_for_def one_chain_def)
  from insert_all_stale [OF sz ch _ _ this, of True] 1(4) assms(3,4) n obtain tm2 where
    2: "tm_insert h ps True tm1 = Inr tm2" "same_shape tm1 tm2"
      "tm_buckets tm2 = (tm_buckets tm1)[nat (tm_hash tm1 h) := 0]"
      "te_next_in_bucket (tm_pool tm2 ! 0) = tm_buckets tm1 ! nat (tm_hash tm1 h)"
      "\<forall>j < ?n. j \<noteq> 0 \<longrightarrow> te_next_in_bucket (tm_pool tm2 ! j) = te_next_in_bucket (tm_pool tm1 ! j)"
    by auto
  have len: "length (tm_pool tm2) = ?n" using 2(2) n by (simp add: same_shape_def)
  have cyc: "\<exists>j < ?n. te_next_in_bucket (tm_pool tm2 ! i) = int j" if "i < ?n" for i
  proof (cases "i = 0")
    case True
    with 2(4) 1(5) assms(3) show ?thesis by (intro exI [of _ "?n - 1"]) (auto simp: one_chain_def)
  next
    case False
    with 2(5) 1(5) that show ?thesis by (intro exI [of _ "i - 1"]) (auto simp: one_chain_def)
  qed
  have b: "0 \<le> tm_hash tm1 h" "nat (tm_hash tm1 h) < length (tm_buckets tm1)"
    using tm_hash_bucket [OF sz, of h] by (auto simp: nat_less_iff)
  have hd: "tm_buckets tm2 ! nat (tm_hash tm2 h) = int 0" "tm_hash tm2 h = tm_hash tm1 h"
    "length (tm_buckets tm2) = length (tm_buckets tm1)"
    using 2(3) b same_shape_hash [OF 2(2), of h] by auto
  have walk: "lookup_chain fuel tm2 h (int 0) best = Inl Diverges" for fuel best
    by (rule walk_cycle_diverges [OF cyc]) (use len assms(3) in auto)
  have "invalidate_chain fuel te_next_in_bucket P (int 0) (tm_pool tm2) = Inl Diverges" for fuel P
    by (rule invalidate_cycle_diverges [OF cyc]) (use len assms(3) in auto)
  then have "tm_insert h (ps + 1) True tm2 = Inl Diverges"
    using hd b by (simp add: tm_insert_def remove_stale_for_handle_def nat_less_iff)
  moreover have "tm_lookup h tm2 = Inl Diverges"
    using walk hd b by (simp add: tm_lookup_def nat_less_iff)
  ultimately show ?thesis using 1(1) 2(1) walk hd(1) by (simp add: foldR_append)
qed

theorem tm_reuse_never_returns_witness:
  "\<exists>tm tm'. tm_init 64 256 tm_new = Inr tm \<and>
     foldR (\<lambda>t. tm_insert 7 t True) (map int [0..<256] @ [256]) tm = Inr tm' \<and> tm_lookup 7 tm' = Inl Diverges"
proof -
  obtain tm where tm: "tm_init 64 256 tm_new = Inr tm" by (simp add: tm_init_def)
  have "(256 :: int) < INT32_MAX" by simp
  from tm_reuse_never_returns [OF tm _ _ this, of 7] tm show ?thesis by (auto simp del: upt_rec_numeral)
qed

end
