(* ===== verification/Wire_Format.thy ===== *)
theory Wire_Format
  imports Core_Identity
begin

text \<open>
  The wire format: \<^verbatim>\<open>LinquHeader\<close> (src/src/transport/linqu_header.h) and the payloads of
  src/src/transport/msg_types.h with their \<^verbatim>\<open>serialize\<close> and \<^verbatim>\<open>deserialize\<close>. A buffer is a byte list whose length
  is the \<^verbatim>\<open>len\<close> argument; reading past it is \<open>OutOfBounds\<close>, as is writing past a vector that was sized in
  wrapping 32-bit arithmetic. The contract \<open>wire_codec\<close> is what the daemon and the dispatcher rely on.
\<close>

section \<open>Reading where an encoding was written\<close>

named_theorems wire_simps \<open>readers applied to concatenated encodings\<close>

lemma read_skip [wire_simps]:
  "length xs \<le> off \<Longrightarrow> read_bytes (xs @ ys) off n = read_bytes ys (off - length xs) n"
  "length xs \<le> off \<Longrightarrow> read_u8 (xs @ ys) off = read_u8 ys (off - length xs)"
  "length xs \<le> off \<Longrightarrow> read_u16 (xs @ ys) off = read_u16 ys (off - length xs)"
  "length xs \<le> off \<Longrightarrow> read_u32 (xs @ ys) off = read_u32 ys (off - length xs)"
  "length xs \<le> off \<Longrightarrow> read_u64 (xs @ ys) off = read_u64 ys (off - length xs)"
  by (auto simp: read_u8_def read_u16_def read_u32_def read_u64_def read_bytes_def)

lemma read_skip1 [wire_simps]:
  "0 < off \<Longrightarrow> read_bytes (x # ys) off n = read_bytes ys (off - 1) n"
  "0 < off \<Longrightarrow> read_u8 (x # ys) off = read_u8 ys (off - 1)"
  "0 < off \<Longrightarrow> read_u16 (x # ys) off = read_u16 ys (off - 1)"
  "0 < off \<Longrightarrow> read_u32 (x # ys) off = read_u32 ys (off - 1)"
  "0 < off \<Longrightarrow> read_u64 (x # ys) off = read_u64 ys (off - 1)"
  using read_skip [of "[x]" off ys] by simp_all

lemma read_here [wire_simps]:
  "n = length bs \<Longrightarrow> read_bytes (bs @ ys) 0 n = Inr bs"
  "read_u8 (b # ys) 0 = Inr b"
  "read_u16 (be16 x @ ys) 0 = Inr x"
  "read_u32 (be32 y @ ys) 0 = Inr y"
  "read_u64 (be64 z @ ys) 0 = Inr z"
  using read_bytes_mid [of 0 "[]" n bs ys] read_u8_mid [of 0 "[]" b ys] read_be_mid [of 0 "[]" _ ys]
  by simp_all

lemma read_here_last [wire_simps]:
  "n = length bs \<Longrightarrow> read_bytes bs 0 n = Inr bs"
  "read_u16 (be16 x) 0 = Inr x" "read_u32 (be32 y) 0 = Inr y" "read_u64 (be64 z) 0 = Inr z"
  using read_here(1) [of n bs "[]"] read_here(3-5) [of _ "[]"] by simp_all

definition byte_of_char :: "char \<Rightarrow> byte" where
  "byte_of_char c = of_nat (of_char c)"

definition char_of_byte :: "byte \<Rightarrow> char" where
  "char_of_byte b = char_of (unat b)"

lemma char_byte_inverse [simp]: "char_of_byte (byte_of_char c) = c"
  by (simp add: char_of_byte_def byte_of_char_def unsigned_of_nat take_bit_eq_mod char_of_mod_256)

lemma char_byte_map [simp]: "map (char_of_byte \<circ> byte_of_char) s = s"
  by (induction s) simp_all

lemma unat_of_nat32: "n < 2 ^ 32 \<Longrightarrow> unat (of_nat n :: u32) = n"
  by (simp add: unsigned_of_nat take_bit_nat_eq_self)

section \<open>The message header\<close>

type_synonym msg_type = u8

abbreviation HEARTBEAT :: msg_type where "HEARTBEAT \<equiv> 0"
abbreviation REG_CODE :: msg_type where "REG_CODE \<equiv> 1"
abbreviation REG_DATA :: msg_type where "REG_DATA \<equiv> 2"
abbreviation CALL_TASK :: msg_type where "CALL_TASK \<equiv> 3"
abbreviation SCOPE_EXIT :: msg_type where "SCOPE_EXIT \<equiv> 4"
abbreviation RETRY_WITH_CODE :: msg_type where "RETRY_WITH_CODE \<equiv> 5"
abbreviation TASK_COMPLETE :: msg_type where "TASK_COMPLETE \<equiv> 6"
abbreviation SHUTDOWN :: msg_type where "SHUTDOWN \<equiv> 7"

definition LINQU_MAGIC :: u32 where
  "LINQU_MAGIC = 0x4C51524D"

definition WIRE_SIZE :: nat where
  "WIRE_SIZE = 24"

record linqu_header =
  magic :: u32
  version :: u8
  hdr_msg_type :: msg_type
  sender_level :: u8
  reserved :: u8
  payload_size :: u32
  sender_l6 :: u8
  sender_l5 :: u8
  sender_l4 :: u8
  sender_l3_hi :: u8
  sender_l3_lo :: u8
  target_l6 :: u8
  target_l5 :: u8
  target_l4 :: u8
  target_l3_hi :: u8
  target_l3_lo :: u8
  padding0 :: u8
  padding1 :: u8

definition header_zero :: linqu_header where
  "header_zero = \<lparr>magic = 0, version = 0, hdr_msg_type = 0, sender_level = 0, reserved = 0,
     payload_size = 0, sender_l6 = 0, sender_l5 = 0, sender_l4 = 0, sender_l3_hi = 0, sender_l3_lo = 0,
     target_l6 = 0, target_l5 = 0, target_l4 = 0, target_l3_hi = 0, target_l3_lo = 0,
     padding0 = 0, padding1 = 0\<rparr>"

definition set_sender :: "linqu_coordinate \<Rightarrow> linqu_header \<Rightarrow> linqu_header" where
  "set_sender c h = h\<lparr>sender_l6 := l6_idx c, sender_l5 := l5_idx c, sender_l4 := l4_idx c,
     sender_l3_hi := ucast (drop_bit 8 (l3_idx c)), sender_l3_lo := ucast (l3_idx c AND 0xFF)\<rparr>"

definition get_sender :: "linqu_header \<Rightarrow> linqu_coordinate" where
  "get_sender h = LinquCoordinate (sender_l6 h) (sender_l5 h) (sender_l4 h)
     (push_bit 8 (ucast (sender_l3_hi h)) OR ucast (sender_l3_lo h)) 0 0 0"

definition set_target :: "linqu_coordinate \<Rightarrow> linqu_header \<Rightarrow> linqu_header" where
  "set_target c h = h\<lparr>target_l6 := l6_idx c, target_l5 := l5_idx c, target_l4 := l4_idx c,
     target_l3_hi := ucast (drop_bit 8 (l3_idx c)), target_l3_lo := ucast (l3_idx c AND 0xFF)\<rparr>"

definition get_target :: "linqu_header \<Rightarrow> linqu_coordinate" where
  "get_target h = LinquCoordinate (target_l6 h) (target_l5 h) (target_l4 h)
     (push_bit 8 (ucast (target_l3_hi h)) OR ucast (target_l3_lo h)) 0 0 0"

definition header_serialize :: "linqu_header \<Rightarrow> byte list" where
  "header_serialize h =
     be32 (magic h) @
     [version h, hdr_msg_type h, sender_level h, reserved h] @
     be32 (payload_size h) @
     [sender_l6 h, sender_l5 h, sender_l4 h, sender_l3_hi h, sender_l3_lo h,
      target_l6 h, target_l5 h, target_l4 h, target_l3_hi h, target_l3_lo h,
      padding0 h, padding1 h]"

definition header_deserialize :: "byte list \<Rightarrow> linqu_header res" where
  "header_deserialize buf =
     bindR (read_u32 buf 0) (\<lambda>mg. bindR (read_u8 buf 4) (\<lambda>ver. bindR (read_u8 buf 5) (\<lambda>ty.
     bindR (read_u8 buf 6) (\<lambda>sl. bindR (read_u8 buf 7) (\<lambda>rs. bindR (read_u32 buf 8) (\<lambda>ps.
     bindR (read_u8 buf 12) (\<lambda>s6. bindR (read_u8 buf 13) (\<lambda>s5. bindR (read_u8 buf 14) (\<lambda>s4.
     bindR (read_u8 buf 15) (\<lambda>s3h. bindR (read_u8 buf 16) (\<lambda>s3l.
     bindR (read_u8 buf 17) (\<lambda>t6. bindR (read_u8 buf 18) (\<lambda>t5. bindR (read_u8 buf 19) (\<lambda>t4.
     bindR (read_u8 buf 20) (\<lambda>t3h. bindR (read_u8 buf 21) (\<lambda>t3l.
     bindR (read_u8 buf 22) (\<lambda>p0. bindR (read_u8 buf 23) (\<lambda>p1.
     Inr \<lparr>magic = mg, version = ver, hdr_msg_type = ty, sender_level = sl, reserved = rs,
       payload_size = ps, sender_l6 = s6, sender_l5 = s5, sender_l4 = s4, sender_l3_hi = s3h,
       sender_l3_lo = s3l, target_l6 = t6, target_l5 = t5, target_l4 = t4, target_l3_hi = t3h,
       target_l3_lo = t3l, padding0 = p0, padding1 = p1\<rparr>))))))))))))))))))"

definition header_make ::
  "msg_type \<Rightarrow> u8 \<Rightarrow> linqu_coordinate \<Rightarrow> linqu_coordinate \<Rightarrow> u32 \<Rightarrow> linqu_header" where
  "header_make ty sl sender target ps =
     set_target target (set_sender sender
       (header_zero\<lparr>magic := LINQU_MAGIC, version := 1, hdr_msg_type := ty, sender_level := sl,
                    payload_size := ps\<rparr>))"

lemma length_header_serialize [simp]: "length (header_serialize h) = WIRE_SIZE"
  by (simp add: header_serialize_def WIRE_SIZE_def)

lemma header_read_back: "header_deserialize (header_serialize h) = Inr h"
  by (simp add: header_deserialize_def header_serialize_def wire_simps)

lemma split16: "push_bit 8 (ucast (ucast (drop_bit 8 x) :: u8)) OR ucast (ucast (x AND 0xFF) :: u8) = (x :: u16)"
proof -
  have m: "(0xFF :: u16) = mask 8" by (simp add: mask_eq_exp_minus_1)
  show ?thesis unfolding m by (intro bit_word_eqI) (auto simp: bit_simps)
qed

section \<open>Payloads\<close>

record param_entry =
  pe_type :: u8
  pe_handle :: u64
  pe_scalar_value :: u64

record call_task_payload =
  ct_kernel_so_name :: string
  ct_task_id :: u32
  ct_scope_depth :: u16
  ct_num_params :: u32
  ct_params :: "param_entry list"

definition call_task_default :: call_task_payload where
  "call_task_default = \<lparr>ct_kernel_so_name = '''', ct_task_id = 0, ct_scope_depth = 0, ct_num_params = 0,
     ct_params = []\<rparr>"

definition param_entry_bytes :: "param_entry \<Rightarrow> byte list" where
  "param_entry_bytes e = pe_type e # be64 (pe_handle e) @ be64 (pe_scalar_value e)"

text \<open>
  \<^verbatim>\<open>buf.resize(4 + name_len + 4 + 2 + 4)\<close> is a 32-bit sum: from \<open>2^32 - 14\<close> bytes of name on it wraps
  and the copies run past the buffer.
\<close>

definition call_task_serialize :: "call_task_payload \<Rightarrow> byte list res" where
  "call_task_serialize p =
     (let name_len = of_nat (length (ct_kernel_so_name p)) :: u32 in
      if unat (name_len + 14) < unat name_len + 14 then Inl OutOfBounds
      else Inr (be32 name_len @ map byte_of_char (take (unat name_len) (ct_kernel_so_name p)) @
        be32 (ct_task_id p) @ be16 (ct_scope_depth p) @ be32 (ct_num_params p) @
        concat (map param_entry_bytes (take (unat (ct_num_params p)) (ct_params p)))))"

text \<open>The parameter loop: \<open>n\<close> entries to go, \<open>off\<close> the read offset.\<close>

primrec read_params :: "nat \<Rightarrow> byte list \<Rightarrow> nat \<Rightarrow> param_entry list res" where
  "read_params 0 buf off = Inr []"
| "read_params (Suc n) buf off =
     (if off + 17 \<le> length buf
      then bindR (read_u8 buf off) (\<lambda>ty. bindR (read_u64 buf (off + 1)) (\<lambda>h.
           bindR (read_u64 buf (off + 9)) (\<lambda>v. bindR (read_params n buf (off + 17)) (\<lambda>es.
             Inr (\<lparr>pe_type = ty, pe_handle = h, pe_scalar_value = v\<rparr> # es)))))
      else Inr [])"

definition call_task_deserialize :: "byte list \<Rightarrow> call_task_payload res" where
  "call_task_deserialize buf =
     (let len = length buf; p = call_task_default in
      if len < 14 then Inr p
      else bindR (read_u32 buf 0) (\<lambda>nlw.
        let nl = unat nlw in
        if 4 + nl > len then Inr p
        else bindR (read_bytes buf 4 nl) (\<lambda>name.
          let off = 4 + nl in
          bindR (read_u32 buf off) (\<lambda>tid.
          bindR (read_u16 buf (off + 4)) (\<lambda>sd.
          bindR (read_u32 buf (off + 6)) (\<lambda>np.
          bindR (read_params (unat np) buf (off + 10)) (\<lambda>es.
            Inr (p\<lparr>ct_kernel_so_name := map char_of_byte name, ct_task_id := tid,
                   ct_scope_depth := sd, ct_num_params := np, ct_params := es\<rparr>))))))))"

record task_complete_payload =
  tc_task_id :: u32
  tc_status :: i32

definition task_complete_serialize :: "task_complete_payload \<Rightarrow> byte list" where
  "task_complete_serialize p = be32 (tc_task_id p) @ be32 (word_of_int (tc_status p))"

definition task_complete_deserialize :: "byte list \<Rightarrow> task_complete_payload res" where
  "task_complete_deserialize buf =
     (if length buf < 8 then Inr \<lparr>tc_task_id = 0, tc_status = 0\<rparr>
      else bindR (read_u32 buf 0) (\<lambda>tid. bindR (read_u32 buf 4) (\<lambda>st.
        Inr \<lparr>tc_task_id = tid, tc_status = sint st\<rparr>)))"

record shutdown_payload =
  sp_graceful :: u8

definition shutdown_serialize :: "shutdown_payload \<Rightarrow> byte list" where
  "shutdown_serialize p = [sp_graceful p]"

definition shutdown_deserialize :: "byte list \<Rightarrow> shutdown_payload res" where
  "shutdown_deserialize buf =
     (if 1 \<le> length buf then bindR (read_u8 buf 0) (\<lambda>g. Inr \<lparr>sp_graceful = g\<rparr>)
      else Inr \<lparr>sp_graceful = 1\<rparr>)"

record reg_code_payload =
  rc_blob_hash :: u64
  rc_code_binary :: "byte list"

definition reg_code_serialize :: "reg_code_payload \<Rightarrow> byte list" where
  "reg_code_serialize p =
     be64 (rc_blob_hash p) @ be32 (of_nat (length (rc_code_binary p))) @ rc_code_binary p"

definition reg_code_deserialize :: "byte list \<Rightarrow> reg_code_payload res" where
  "reg_code_deserialize buf =
     (if length buf < 12 then Inr \<lparr>rc_blob_hash = 0, rc_code_binary = []\<rparr>
      else bindR (read_u64 buf 0) (\<lambda>bh. bindR (read_u32 buf 8) (\<lambda>sz.
        if 12 + unat sz \<le> length buf
        then bindR (read_bytes buf 12 (unat sz)) (\<lambda>code. Inr \<lparr>rc_blob_hash = bh, rc_code_binary = code\<rparr>)
        else Inr \<lparr>rc_blob_hash = bh, rc_code_binary = []\<rparr>)))"

record reg_data_payload =
  rd_data_handle :: u64
  rd_scope_depth :: u16
  rd_buffer_bytes :: "byte list"

definition reg_data_serialize :: "reg_data_payload \<Rightarrow> byte list" where
  "reg_data_serialize p =
     be64 (rd_data_handle p) @ be16 (rd_scope_depth p) @
     be32 (of_nat (length (rd_buffer_bytes p))) @ rd_buffer_bytes p"

definition reg_data_deserialize :: "byte list \<Rightarrow> reg_data_payload res" where
  "reg_data_deserialize buf =
     (if length buf < 14 then Inr \<lparr>rd_data_handle = 0, rd_scope_depth = 0, rd_buffer_bytes = []\<rparr>
      else bindR (read_u64 buf 0) (\<lambda>dh. bindR (read_u16 buf 8) (\<lambda>sd. bindR (read_u32 buf 10) (\<lambda>sz.
        if 14 + unat sz \<le> length buf
        then bindR (read_bytes buf 14 (unat sz)) (\<lambda>bs.
          Inr \<lparr>rd_data_handle = dh, rd_scope_depth = sd, rd_buffer_bytes = bs\<rparr>)
        else Inr \<lparr>rd_data_handle = dh, rd_scope_depth = sd, rd_buffer_bytes = []\<rparr>))))"

record scope_exit_payload =
  se_scope_depth :: u16

definition scope_exit_serialize :: "scope_exit_payload \<Rightarrow> byte list" where
  "scope_exit_serialize p = be16 (se_scope_depth p)"

definition scope_exit_deserialize :: "byte list \<Rightarrow> scope_exit_payload res" where
  "scope_exit_deserialize buf =
     (if 2 \<le> length buf then bindR (read_u16 buf 0) (\<lambda>sd. Inr \<lparr>se_scope_depth = sd\<rparr>)
      else Inr \<lparr>se_scope_depth = 0\<rparr>)"

record retry_with_code_payload =
  rw_blob_hash :: u64

definition retry_with_code_serialize :: "retry_with_code_payload \<Rightarrow> byte list" where
  "retry_with_code_serialize p = be64 (rw_blob_hash p)"

definition retry_with_code_deserialize :: "byte list \<Rightarrow> retry_with_code_payload res" where
  "retry_with_code_deserialize buf =
     (if 8 \<le> length buf then bindR (read_u64 buf 0) (\<lambda>bh. Inr \<lparr>rw_blob_hash = bh\<rparr>)
      else Inr \<lparr>rw_blob_hash = 0\<rparr>)"

record heartbeat_payload =
  hb_sender_l6 :: u8
  hb_sender_l5 :: u8
  hb_sender_l4 :: u8
  hb_sender_l3 :: u16
  hb_status :: u8
  hb_timestamp :: u64
  hb_logical_system :: string
  hb_physical_system :: string

definition heartbeat_default :: heartbeat_payload where
  "heartbeat_default = \<lparr>hb_sender_l6 = 0, hb_sender_l5 = 0, hb_sender_l4 = 0, hb_sender_l3 = 0,
     hb_status = 0, hb_timestamp = 0, hb_logical_system = '''', hb_physical_system = ''''\<rparr>"

text \<open>
  The buffer sizes are 32-bit sums again. The first buffer of the function is one byte shorter than
  the second and only its first five bytes are written, so it is too small only when the second is.
\<close>

definition heartbeat_serialize :: "heartbeat_payload \<Rightarrow> byte list res" where
  "heartbeat_serialize p =
     (let ls_len = of_nat (length (hb_logical_system p)) :: u32;
          ps_len = of_nat (length (hb_physical_system p)) :: u32 in
      if unat (22 + ls_len + ps_len) < 22 + unat ls_len + unat ps_len then Inl OutOfBounds
      else Inr ([hb_sender_l6 p, hb_sender_l5 p, hb_sender_l4 p] @ be16 (hb_sender_l3 p) @ [hb_status p] @
        be64 (hb_timestamp p) @
        be32 ls_len @ map byte_of_char (take (unat ls_len) (hb_logical_system p)) @
        be32 ps_len @ map byte_of_char (take (unat ps_len) (hb_physical_system p))))"

text \<open>One of the two trailing strings: the offset after it and the string, when it fits.\<close>

definition read_sized_string :: "byte list \<Rightarrow> nat \<Rightarrow> (nat \<times> string) res" where
  "read_sized_string buf off =
     (if off + 4 \<le> length buf
      then bindR (read_u32 buf off) (\<lambda>nlw.
        let nl = unat nlw; off = off + 4 in
        if off + nl \<le> length buf
        then bindR (read_bytes buf off nl) (\<lambda>bs. Inr (off + nl, map char_of_byte bs))
        else Inr (off, ''''))
      else Inr (off, ''''))"

definition heartbeat_deserialize :: "byte list \<Rightarrow> heartbeat_payload res" where
  "heartbeat_deserialize buf =
     (if length buf < 14 then Inr heartbeat_default
      else bindR (read_u8 buf 0) (\<lambda>s6. bindR (read_u8 buf 1) (\<lambda>s5. bindR (read_u8 buf 2) (\<lambda>s4.
           bindR (read_u16 buf 3) (\<lambda>s3. bindR (read_u8 buf 5) (\<lambda>st. bindR (read_u64 buf 6) (\<lambda>ts.
           bindR (read_sized_string buf 14) (\<lambda>(off, ls). bindR (read_sized_string buf off) (\<lambda>(off', ps).
             Inr \<lparr>hb_sender_l6 = s6, hb_sender_l5 = s5, hb_sender_l4 = s4, hb_sender_l3 = s3, hb_status = st,
               hb_timestamp = ts, hb_logical_system = ls, hb_physical_system = ps\<rparr>)))))))))"

record tensor_lookup_payload =
  tl_handle :: u64
  tl_requestor_l6 :: u8
  tl_requestor_l5 :: u8
  tl_requestor_l4 :: u8
  tl_requestor_l3 :: u16

definition tensor_lookup_serialize :: "tensor_lookup_payload \<Rightarrow> byte list" where
  "tensor_lookup_serialize p =
     be64 (tl_handle p) @ [tl_requestor_l6 p, tl_requestor_l5 p, tl_requestor_l4 p] @ be16 (tl_requestor_l3 p)"

definition tensor_lookup_deserialize :: "byte list \<Rightarrow> tensor_lookup_payload res" where
  "tensor_lookup_deserialize buf =
     (if length buf < 13
      then Inr \<lparr>tl_handle = 0, tl_requestor_l6 = 0, tl_requestor_l5 = 0, tl_requestor_l4 = 0, tl_requestor_l3 = 0\<rparr>
      else bindR (read_u64 buf 0) (\<lambda>h. bindR (read_u8 buf 8) (\<lambda>r6. bindR (read_u8 buf 9) (\<lambda>r5.
           bindR (read_u8 buf 10) (\<lambda>r4. bindR (read_u16 buf 11) (\<lambda>r3.
             Inr \<lparr>tl_handle = h, tl_requestor_l6 = r6, tl_requestor_l5 = r5, tl_requestor_l4 = r4,
               tl_requestor_l3 = r3\<rparr>))))))"

record tensor_data_payload =
  tdp_handle :: u64
  tdp_producer_task_id :: i32
  tdp_data :: "byte list"

definition tensor_data_serialize :: "tensor_data_payload \<Rightarrow> byte list" where
  "tensor_data_serialize p =
     be64 (tdp_handle p) @ be32 (word_of_int (tdp_producer_task_id p)) @
     be32 (of_nat (length (tdp_data p))) @ tdp_data p"

definition tensor_data_deserialize :: "byte list \<Rightarrow> tensor_data_payload res" where
  "tensor_data_deserialize buf =
     (if length buf < 16 then Inr \<lparr>tdp_handle = 0, tdp_producer_task_id = - 1, tdp_data = []\<rparr>
      else bindR (read_u64 buf 0) (\<lambda>h. bindR (read_u32 buf 8) (\<lambda>pt. bindR (read_u32 buf 12) (\<lambda>sz.
        if 16 + unat sz \<le> length buf
        then bindR (read_bytes buf 16 (unat sz)) (\<lambda>bs.
          Inr \<lparr>tdp_handle = h, tdp_producer_task_id = sint pt, tdp_data = bs\<rparr>)
        else Inr \<lparr>tdp_handle = h, tdp_producer_task_id = sint pt, tdp_data = []\<rparr>))))"

section \<open>The contract of a codec\<close>

text \<open>A payload that fits its length fields is read back unchanged, and no received buffer makes the
  reader leave it. \<^verbatim>\<open>CallTaskPayload\<close> keeps only the first half of it.\<close>

locale wire_codec =
  fixes ser :: "'p \<Rightarrow> byte list res"
    and des :: "byte list \<Rightarrow> 'p res"
    and fits :: "'p \<Rightarrow> bool"
  assumes roundtrip: "fits p \<Longrightarrow> \<exists>bs. ser p = Inr bs \<and> des bs = Inr p"
begin

lemma ser_inj: "fits p \<Longrightarrow> fits q \<Longrightarrow> ser p = ser q \<Longrightarrow> p = q"
  using roundtrip [of p] roundtrip [of q] by auto

end

locale safe_codec = wire_codec +
  assumes in_bounds: "\<exists>p. des buf = Inr p"
begin

lemma des_cases: obtains p where "des buf = Inr p"
  using in_bounds by blast

end

lemma sint_word_of_int32: "- (2 ^ 31) \<le> x \<Longrightarrow> x < 2 ^ 31 \<Longrightarrow> sint (word_of_int x :: u32) = x"
  by (simp add: int_word_sint)

lemma read_params_concat:
  "read_params (length es) (pre @ concat (map param_entry_bytes es)) (length pre) = Inr es"
proof (induction es arbitrary: pre)
  case (Cons e es)
  have "pre @ concat (map param_entry_bytes (e # es)) =
      (pre @ param_entry_bytes e) @ concat (map param_entry_bytes es)" by simp
  moreover have "length (pre @ param_entry_bytes e) = length pre + 17"
    by (simp add: param_entry_bytes_def)
  ultimately have tl: "read_params (length es) (pre @ concat (map param_entry_bytes (e # es))) (length pre + 17) = Inr es"
    using Cons.IH [of "pre @ param_entry_bytes e"] by simp
  then show ?case by (simp add: param_entry_bytes_def [of e] wire_simps)
qed simp

lemma bindR_total:
  "\<exists>v. m = Inr v \<Longrightarrow> (\<And>v. m = Inr v \<Longrightarrow> \<exists>w. f v = Inr w) \<Longrightarrow> \<exists>w. bindR m f = Inr w"
  by auto

lemma read_bytes_in_range: "off + n \<le> length buf \<Longrightarrow> \<exists>v. read_bytes buf off n = Inr v"
  by (simp add: read_bytes_def)

lemmas in_bounds_intros = bindR_total read_in_range read_bytes_in_range

lemma read_params_safe: "\<exists>es. read_params n buf off = Inr es"
proof (induction n arbitrary: off)
  case (Suc n)
  show ?case by (simp only: read_params.simps split: if_split)
      (intro conjI impI in_bounds_intros Suc; simp)
qed simp

definition call_task_fits :: "call_task_payload \<Rightarrow> bool" where
  "call_task_fits p \<longleftrightarrow> length (ct_kernel_so_name p) + 14 < 2 ^ 32 \<and>
     unat (ct_num_params p) = length (ct_params p)"

interpretation call_task_codec: wire_codec call_task_serialize call_task_deserialize call_task_fits
proof
  fix p assume "call_task_fits p"
  then have len: "length (ct_kernel_so_name p) + 14 < 2 ^ 32"
    and np: "unat (ct_num_params p) = length (ct_params p)" by (auto simp: call_task_fits_def)
  let ?nl = "of_nat (length (ct_kernel_so_name p)) :: u32"
  let ?pre = "be32 ?nl @ map byte_of_char (ct_kernel_so_name p) @ be32 (ct_task_id p) @
    be16 (ct_scope_depth p) @ be32 (ct_num_params p)"
  have nl: "unat ?nl = length (ct_kernel_so_name p)" using len by (intro unat_of_nat32) simp
  have "unat (?nl + 14) = unat ?nl + 14" using nl len by (simp add: unat_word_ariths)
  then have ser: "call_task_serialize p = Inr (?pre @ concat (map param_entry_bytes (ct_params p)))"
    using np nl by (simp add: call_task_serialize_def Let_def)
  have "read_params (length (ct_params p)) (?pre @ concat (map param_entry_bytes (ct_params p)))
      (length (ct_kernel_so_name p) + 14) = Inr (ct_params p)"
    using read_params_concat [of "ct_params p" ?pre] by (simp add: add.commute)
  then have "call_task_deserialize (?pre @ concat (map param_entry_bytes (ct_params p))) = Inr p"
    using nl np by (simp add: call_task_deserialize_def Let_def wire_simps call_task_default_def add.commute)
  with ser show "\<exists>bs. call_task_serialize p = Inr bs \<and> call_task_deserialize bs = Inr p" by blast
qed


interpretation task_complete_codec: safe_codec "\<lambda>p. Inr (task_complete_serialize p)" task_complete_deserialize
  "\<lambda>p. - (2 ^ 31) \<le> tc_status p \<and> tc_status p < 2 ^ 31"
proof
  show "\<exists>p. task_complete_deserialize buf = Inr p" for buf
    unfolding task_complete_deserialize_def by (simp only: split: if_split) (intro conjI impI in_bounds_intros; simp)
qed (auto simp: task_complete_serialize_def task_complete_deserialize_def wire_simps sint_word_of_int32)

interpretation shutdown_codec: safe_codec "\<lambda>p. Inr (shutdown_serialize p)" shutdown_deserialize "\<lambda>_. True"
proof
  show "\<exists>p. shutdown_deserialize buf = Inr p" for buf
    unfolding shutdown_deserialize_def by (simp only: split: if_split) (intro conjI impI in_bounds_intros; simp)
qed (auto simp: shutdown_serialize_def shutdown_deserialize_def wire_simps)

interpretation reg_code_codec: safe_codec "\<lambda>p. Inr (reg_code_serialize p)" reg_code_deserialize
  "\<lambda>p. length (rc_code_binary p) < 2 ^ 32"
proof
  show "\<exists>p. reg_code_deserialize buf = Inr p" for buf
    unfolding reg_code_deserialize_def
    by (simp only: split: if_split) (intro conjI impI in_bounds_intros; simp add: read_bytes_def)
qed (auto simp: reg_code_serialize_def reg_code_deserialize_def wire_simps unat_of_nat32)

interpretation reg_data_codec: safe_codec "\<lambda>p. Inr (reg_data_serialize p)" reg_data_deserialize
  "\<lambda>p. length (rd_buffer_bytes p) < 2 ^ 32"
proof
  show "\<exists>p. reg_data_deserialize buf = Inr p" for buf
    unfolding reg_data_deserialize_def
    by (simp only: split: if_split) (intro conjI impI in_bounds_intros; simp add: read_bytes_def)
qed (auto simp: reg_data_serialize_def reg_data_deserialize_def wire_simps unat_of_nat32)

interpretation scope_exit_codec: safe_codec "\<lambda>p. Inr (scope_exit_serialize p)" scope_exit_deserialize "\<lambda>_. True"
proof
  show "\<exists>p. scope_exit_deserialize buf = Inr p" for buf
    unfolding scope_exit_deserialize_def by (simp only: split: if_split) (intro conjI impI in_bounds_intros; simp)
qed (auto simp: scope_exit_serialize_def scope_exit_deserialize_def wire_simps)

interpretation retry_codec: safe_codec "\<lambda>p. Inr (retry_with_code_serialize p)" retry_with_code_deserialize
  "\<lambda>_. True"
proof
  show "\<exists>p. retry_with_code_deserialize buf = Inr p" for buf
    unfolding retry_with_code_deserialize_def
    by (simp only: split: if_split) (intro conjI impI in_bounds_intros; simp)
qed (auto simp: retry_with_code_serialize_def retry_with_code_deserialize_def wire_simps)

interpretation tensor_lookup_codec: safe_codec "\<lambda>p. Inr (tensor_lookup_serialize p)" tensor_lookup_deserialize
  "\<lambda>_. True"
proof
  show "\<exists>p. tensor_lookup_deserialize buf = Inr p" for buf
    unfolding tensor_lookup_deserialize_def
    by (simp only: split: if_split) (intro conjI impI in_bounds_intros; simp)
qed (auto simp: tensor_lookup_serialize_def tensor_lookup_deserialize_def wire_simps)

interpretation tensor_data_codec: safe_codec "\<lambda>p. Inr (tensor_data_serialize p)" tensor_data_deserialize
  "\<lambda>p. length (tdp_data p) < 2 ^ 32 \<and> - (2 ^ 31) \<le> tdp_producer_task_id p \<and> tdp_producer_task_id p < 2 ^ 31"
proof
  show "\<exists>p. tensor_data_deserialize buf = Inr p" for buf
    unfolding tensor_data_deserialize_def
    by (simp only: split: if_split) (intro conjI impI in_bounds_intros; simp add: read_bytes_def)
qed (auto simp: tensor_data_serialize_def tensor_data_deserialize_def wire_simps unat_of_nat32 sint_word_of_int32)

lemma read_sized_string_safe: "\<exists>p. read_sized_string buf off = Inr p"
  unfolding read_sized_string_def Let_def
  by (simp only: split: if_split) (intro conjI impI in_bounds_intros; simp add: read_bytes_def)

lemma read_second_string_safe:
  "\<exists>p. (case x of (off, s) \<Rightarrow> bindR (read_sized_string buf off) (\<lambda>(off', s'). Inr (g s s'))) = Inr p"
  using read_sized_string_safe [of buf "fst x"] by (cases x) auto

lemma read_sized_string_mid:
  assumes "length s < 2 ^ 32" "off = length pre"
  shows "read_sized_string (pre @ be32 (of_nat (length s)) @ map byte_of_char s @ post) off =
    Inr (length pre + 4 + length s, s)"
  using assms by (simp add: read_sized_string_def wire_simps unat_of_nat32 Let_def)

definition heartbeat_fits :: "heartbeat_payload \<Rightarrow> bool" where
  "heartbeat_fits p \<longleftrightarrow> length (hb_logical_system p) + length (hb_physical_system p) + 22 < 2 ^ 32"

interpretation heartbeat_codec: safe_codec heartbeat_serialize heartbeat_deserialize heartbeat_fits
proof
  show "\<exists>p. heartbeat_deserialize buf = Inr p" for buf
    unfolding heartbeat_deserialize_def
    by (simp only: split: if_split)
      (intro conjI impI in_bounds_intros read_sized_string_safe read_second_string_safe; simp)
next
  fix p assume "heartbeat_fits p"
  then have fits: "length (hb_logical_system p) + length (hb_physical_system p) + 22 < 2 ^ 32"
    by (simp add: heartbeat_fits_def)
  let ?ls = "hb_logical_system p" and ?ps = "hb_physical_system p"
  let ?pre = "[hb_sender_l6 p, hb_sender_l5 p, hb_sender_l4 p] @ be16 (hb_sender_l3 p) @ [hb_status p] @
        be64 (hb_timestamp p)"
  let ?pre2 = "?pre @ be32 (of_nat (length ?ls)) @ map byte_of_char ?ls"
  let ?tail = "be32 (of_nat (length ?ps)) @ map byte_of_char ?ps"
  have nl: "unat (of_nat (length ?ls) :: u32) = length ?ls" "unat (of_nat (length ?ps) :: u32) = length ?ps"
    using fits by (auto intro!: unat_of_nat32)
  then have "unat (22 + of_nat (length ?ls) + of_nat (length ?ps) :: u32) = 22 + length ?ls + length ?ps"
    using fits by (simp add: unat_word_ariths)
  then have ser: "heartbeat_serialize p = Inr (?pre2 @ ?tail)"
    using nl by (simp add: heartbeat_serialize_def Let_def)
  have "read_sized_string (?pre2 @ ?tail) 14 = Inr (18 + length ?ls, ?ls)"
    using read_sized_string_mid [of ?ls 14 ?pre ?tail] fits by simp
  moreover have "read_sized_string (?pre2 @ ?tail) (18 + length ?ls) = Inr (22 + length ?ls + length ?ps, ?ps)"
    using read_sized_string_mid [of ?ps "18 + length ?ls" ?pre2 "[]"] fits by simp
  ultimately have "heartbeat_deserialize (?pre2 @ ?tail) = Inr p"
    by (simp add: heartbeat_deserialize_def wire_simps)
  with ser show "\<exists>bs. heartbeat_serialize p = Inr bs \<and> heartbeat_deserialize bs = Inr p" by blast
qed

text \<open>The bytes after the name that \<^verbatim>\<open>CallTaskPayload::deserialize\<close> reads without a check.\<close>

definition call_task_truncated :: "byte list \<Rightarrow> bool" where
  "call_task_truncated buf \<longleftrightarrow> 14 \<le> length buf \<and>
     (case read_u32 buf 0 of Inr nl \<Rightarrow> 4 + unat nl \<le> length buf \<and> length buf < 14 + unat nl | Inl _ \<Rightarrow> False)"

lemma call_task_overruns: "call_task_truncated buf \<Longrightarrow> call_task_deserialize buf = Inl OutOfBounds"
  by (auto simp: call_task_truncated_def call_task_deserialize_def Let_def read_bytes_def read_u32_def
      read_u16_def split: sum.splits)

lemma call_task_in_bounds: "\<not> call_task_truncated buf \<Longrightarrow> \<exists>p. call_task_deserialize buf = Inr p"
proof (cases "14 \<le> length buf")
  case True
  assume nt: "\<not> call_task_truncated buf"
  obtain nl where nl: "read_u32 buf 0 = Inr nl" using read_in_range(3) [of 0 buf] True by auto
  show ?thesis
  proof (cases "4 + unat nl \<le> length buf")
    case fits: True
    with nt nl True have "14 + unat nl \<le> length buf" by (simp add: call_task_truncated_def)
    then show ?thesis using True nl unfolding call_task_deserialize_def Let_def
      by (simp only: bindR_simps) (simp, intro in_bounds_intros read_params_safe; simp)
  qed (use True nl in \<open>simp add: call_task_deserialize_def Let_def\<close>)
qed (simp add: call_task_deserialize_def)

section \<open>Properties\<close>

text \<open>C28. The header survives the wire: it takes 24 bytes, reading them gives every field back, and the
  receiver of a header built by \<^verbatim>\<open>make\<close> sees the sender and the target down to the host index, which
  crosses the wire in two bytes.\<close>

theorem header_roundtrip:
  "length (header_serialize h) = WIRE_SIZE \<and> header_deserialize (header_serialize h) = Inr h \<and>
   get_sender (header_make ty sl s t ps) = LinquCoordinate (l6_idx s) (l5_idx s) (l4_idx s) (l3_idx s) 0 0 0 \<and>
   get_target (header_make ty sl s t ps) = LinquCoordinate (l6_idx t) (l5_idx t) (l4_idx t) (l3_idx t) 0 0 0"
proof -
  have "get_sender (header_make ty sl s t ps) = LinquCoordinate (l6_idx s) (l5_idx s) (l4_idx s) (l3_idx s) 0 0 0"
    by (simp only: get_sender_def header_make_def set_target_def set_sender_def) (simp add: split16)
  moreover have "get_target (header_make ty sl s t ps) = LinquCoordinate (l6_idx t) (l5_idx t) (l4_idx t) (l3_idx t) 0 0 0"
    by (simp only: get_target_def header_make_def set_target_def) (simp add: split16)
  ultimately show ?thesis by (simp add: header_read_back)
qed

text \<open>C29. A task call crosses the wire unchanged: when the name and the parameter count fit their length
  fields, reading what \<^verbatim>\<open>CallTaskPayload::serialize\<close> wrote gives the name, the ids and all parameters
  back; two different calls never have the same bytes.\<close>

theorem call_task_roundtrip:
  assumes "call_task_fits p" "call_task_fits q"
  shows "\<exists>bs. call_task_serialize p = Inr bs \<and> call_task_deserialize bs = Inr p \<and>
    (call_task_serialize q = Inr bs \<longrightarrow> q = p)"
  using call_task_codec.roundtrip [OF assms(1)] call_task_codec.roundtrip [OF assms(2)] by auto

theorem call_task_roundtrip_witness:
  "\<exists>bs. call_task_serialize \<lparr>ct_kernel_so_name = ''k.so'', ct_task_id = 7, ct_scope_depth = 1, ct_num_params = 1,
      ct_params = [\<lparr>pe_type = 0, pe_handle = 9, pe_scalar_value = 0\<rparr>]\<rparr> = Inr bs \<and>
    call_task_deserialize bs = Inr \<lparr>ct_kernel_so_name = ''k.so'', ct_task_id = 7, ct_scope_depth = 1,
      ct_num_params = 1, ct_params = [\<lparr>pe_type = 0, pe_handle = 9, pe_scalar_value = 0\<rparr>]\<rparr>"
  using call_task_roundtrip [of "\<lparr>ct_kernel_so_name = ''k.so'', ct_task_id = 7, ct_scope_depth = 1,
      ct_num_params = 1, ct_params = [\<lparr>pe_type = 0, pe_handle = 9, pe_scalar_value = 0\<rparr>]\<rparr>" call_task_default]
  by (auto simp: call_task_fits_def call_task_default_def)

text \<open>C31. Code and data blobs, heartbeats and tensor replies cross the wire unchanged when their sizes fit
  32 bits and their signed fields 31.\<close>

theorem blob_payloads_roundtrip:
  assumes "length (rc_code_binary c) < 2 ^ 32" "length (rd_buffer_bytes d) < 2 ^ 32" "heartbeat_fits hb"
    and "length (tdp_data td) < 2 ^ 32" "- (2 ^ 31) \<le> tdp_producer_task_id td" "tdp_producer_task_id td < 2 ^ 31"
    and "- (2 ^ 31) \<le> tc_status tc" "tc_status tc < 2 ^ 31"
  shows "reg_code_deserialize (reg_code_serialize c) = Inr c \<and>
    reg_data_deserialize (reg_data_serialize d) = Inr d \<and>
    (\<exists>bs. heartbeat_serialize hb = Inr bs \<and> heartbeat_deserialize bs = Inr hb) \<and>
    tensor_data_deserialize (tensor_data_serialize td) = Inr td \<and>
    task_complete_deserialize (task_complete_serialize tc) = Inr tc"
  using reg_code_codec.roundtrip [OF assms(1)] reg_data_codec.roundtrip [OF assms(2)]
    heartbeat_codec.roundtrip [OF assms(3)] tensor_data_codec.roundtrip [of td]
    task_complete_codec.roundtrip [of tc] assms(4-)
  by simp

theorem blob_payloads_roundtrip_witness:
  "reg_code_deserialize (reg_code_serialize \<lparr>rc_blob_hash = 5, rc_code_binary = [1, 2]\<rparr>) =
     Inr \<lparr>rc_blob_hash = 5, rc_code_binary = [1, 2]\<rparr>"
  using blob_payloads_roundtrip [of "\<lparr>rc_blob_hash = 5, rc_code_binary = [1, 2]\<rparr>"
      "\<lparr>rd_data_handle = 0, rd_scope_depth = 0, rd_buffer_bytes = []\<rparr>" heartbeat_default
      "\<lparr>tdp_handle = 1, tdp_producer_task_id = - 1, tdp_data = []\<rparr>" "\<lparr>tc_task_id = 0, tc_status = - 1\<rparr>"]
  by (simp add: heartbeat_fits_def heartbeat_default_def)

text \<open>C30. Which received buffers make a reader leave them: none for the nine other payloads, and for
  \<^verbatim>\<open>CallTaskPayload\<close> exactly those of at least 14 bytes whose name fits and leaves fewer than ten bytes
  for the fixed fields that follow it. \<^verbatim>\<open>deserialize\<close> checks \<^verbatim>\<open>len < 14\<close> before it knows the name length
  and not again.\<close>

theorem deserialize_bounds:
  "(call_task_deserialize buf = Inl OutOfBounds \<longleftrightarrow> call_task_truncated buf) \<and>
   (\<exists>p. task_complete_deserialize buf = Inr p) \<and> (\<exists>p. shutdown_deserialize buf = Inr p) \<and>
   (\<exists>p. reg_code_deserialize buf = Inr p) \<and> (\<exists>p. reg_data_deserialize buf = Inr p) \<and>
   (\<exists>p. scope_exit_deserialize buf = Inr p) \<and> (\<exists>p. retry_with_code_deserialize buf = Inr p) \<and>
   (\<exists>p. heartbeat_deserialize buf = Inr p) \<and> (\<exists>p. tensor_lookup_deserialize buf = Inr p) \<and>
   (\<exists>p. tensor_data_deserialize buf = Inr p) \<and>
   call_task_truncated (be32 10 @ replicate 10 0)"
proof (intro conjI)
  show "call_task_deserialize buf = Inl OutOfBounds \<longleftrightarrow> call_task_truncated buf"
    using call_task_overruns [of buf] call_task_in_bounds [of buf] by fastforce
  show "call_task_truncated (be32 10 @ replicate 10 0)"
    unfolding call_task_truncated_def by (simp add: wire_simps)
qed (rule task_complete_codec.in_bounds shutdown_codec.in_bounds reg_code_codec.in_bounds
    reg_data_codec.in_bounds scope_exit_codec.in_bounds retry_codec.in_bounds heartbeat_codec.in_bounds
    tensor_lookup_codec.in_bounds tensor_data_codec.in_bounds)+

end
