(* ===== verification/Profiling.thy ===== *)
theory Profiling
  imports Core_Identity
begin

text \<open>
  Profiling output: the metrics, snapshot and report records with \<^verbatim>\<open>ProfileReport::to_json\<close>
  (src/src/profiling/ring_metrics.h and .cpp) and the \<^verbatim>\<open>TraceWriter\<close> (trace_writer.h and .cpp). A \<^verbatim>\<open>size_t\<close>
  count is a natural number. The file that \<^verbatim>\<open>write_json\<close> writes is the string it streams; whether the file
  can be opened is a parameter.
\<close>

section \<open>Ring metrics\<close>

record ring_metrics =
  rm_level :: u8
  rm_depth :: u16
  rm_task_ring_capacity :: nat
  rm_task_ring_peak_used :: nat
  rm_task_alloc_count :: nat
  rm_task_retire_count :: nat
  rm_task_block_count :: nat
  rm_buffer_ring_capacity :: nat
  rm_buffer_ring_peak_used :: nat
  rm_buffer_alloc_count :: nat
  rm_buffer_alloc_bytes :: nat
  rm_buffer_retire_bytes :: nat
  rm_scope_begin_count :: nat
  rm_scope_end_count :: nat
  rm_free_tensor_count :: nat

record ring_snapshot =
  rs_level :: u8
  rs_depth :: u16
  rs_label :: string
  rs_timestamp_us :: u64
  rs_task_capacity :: nat
  rs_task_used :: nat
  rs_task_head :: nat
  rs_task_tail :: nat
  rs_buffer_capacity :: nat
  rs_buffer_used :: nat
  rs_buffer_head :: nat
  rs_buffer_tail :: nat
  rs_alloc_count :: nat
  rs_retire_count :: nat
  rs_free_count :: nat

record profile_report =
  pr_node_id :: string
  pr_level :: u8
  pr_metrics :: "ring_metrics list"
  pr_snapshots :: "ring_snapshot list"

definition level_label :: "u8 \<Rightarrow> string" where
  "level_label lv =
     (if lv = 0 then ''CORE'' else if lv = 1 then ''CHIP_DIE'' else if lv = 2 then ''CHIP''
      else if lv = 3 then ''HOST'' else if lv = 4 then ''POD'' else if lv = 5 then ''CLOS1''
      else if lv = 6 then ''CLOS2'' else ''UNKNOWN'')"

abbreviation DQ :: char where "DQ \<equiv> CHR 0x22"
abbreviation BSL :: char where "BSL \<equiv> CHR 0x5C"
abbreviation NL :: char where "NL \<equiv> CHR 0x0A"
abbreviation TAB :: char where "TAB \<equiv> CHR 0x09"

definition quoted :: "string \<Rightarrow> string" where
  "quoted s = DQ # s @ [DQ]"

text \<open>One \<^verbatim>\<open>"key": value\<close> line of an object, with the comma that ends all but the last.\<close>

definition json_field :: "string \<Rightarrow> string \<Rightarrow> string" where
  "json_field key v = ''      '' @ quoted key @ '': '' @ v @ '','' @ [NL]"

definition json_last_field :: "string \<Rightarrow> string \<Rightarrow> string" where
  "json_last_field key v = ''      '' @ quoted key @ '': '' @ v @ [NL]"

fun json_items :: "('a \<Rightarrow> string) \<Rightarrow> 'a list \<Rightarrow> string" where
  "json_items f [] = ''''"
| "json_items f [x] = ''    {'' @ [NL] @ f x @ ''    }'' @ [NL]"
| "json_items f (x # xs) = ''    {'' @ [NL] @ f x @ ''    },'' @ [NL] @ json_items f xs"

definition metrics_json :: "ring_metrics \<Rightarrow> string" where
  "metrics_json m =
     json_field ''level'' (quoted (level_label (rm_level m))) @
     json_field ''depth'' (to_string_u (rm_depth m)) @
     json_field ''task_ring_capacity'' (dec_digits (rm_task_ring_capacity m)) @
     json_field ''task_ring_peak_used'' (dec_digits (rm_task_ring_peak_used m)) @
     json_field ''task_alloc_count'' (dec_digits (rm_task_alloc_count m)) @
     json_field ''task_retire_count'' (dec_digits (rm_task_retire_count m)) @
     json_field ''task_block_count'' (dec_digits (rm_task_block_count m)) @
     json_field ''buffer_ring_capacity'' (dec_digits (rm_buffer_ring_capacity m)) @
     json_field ''buffer_ring_peak_used'' (dec_digits (rm_buffer_ring_peak_used m)) @
     json_field ''buffer_alloc_count'' (dec_digits (rm_buffer_alloc_count m)) @
     json_field ''buffer_alloc_bytes'' (dec_digits (rm_buffer_alloc_bytes m)) @
     json_field ''buffer_retire_bytes'' (dec_digits (rm_buffer_retire_bytes m)) @
     json_field ''scope_begin_count'' (dec_digits (rm_scope_begin_count m)) @
     json_field ''scope_end_count'' (dec_digits (rm_scope_end_count m)) @
     json_last_field ''free_tensor_count'' (dec_digits (rm_free_tensor_count m))"

definition snapshot_json :: "ring_snapshot \<Rightarrow> string" where
  "snapshot_json s =
     json_field ''label'' (quoted (rs_label s)) @
     json_field ''level'' (quoted (level_label (rs_level s))) @
     json_field ''depth'' (to_string_u (rs_depth s)) @
     json_field ''timestamp_us'' (to_string_u (rs_timestamp_us s)) @
     json_field ''task_capacity'' (dec_digits (rs_task_capacity s)) @
     json_field ''task_used'' (dec_digits (rs_task_used s)) @
     json_field ''buffer_capacity'' (dec_digits (rs_buffer_capacity s)) @
     json_field ''buffer_used'' (dec_digits (rs_buffer_used s)) @
     json_field ''alloc_count'' (dec_digits (rs_alloc_count s)) @
     json_field ''retire_count'' (dec_digits (rs_retire_count s)) @
     json_last_field ''free_count'' (dec_digits (rs_free_count s))"

definition report_to_json :: "profile_report \<Rightarrow> string" where
  "report_to_json r =
     ''{'' @ [NL] @
     ''  '' @ quoted ''node_id'' @ '': '' @ quoted (pr_node_id r) @ '','' @ [NL] @
     ''  '' @ quoted ''level'' @ '': '' @ quoted (level_label (pr_level r)) @ '','' @ [NL] @
     ''  '' @ quoted ''metrics'' @ '': ['' @ [NL] @ json_items metrics_json (pr_metrics r) @ ''  ],'' @ [NL] @
     ''  '' @ quoted ''snapshots'' @ '': ['' @ [NL] @ json_items snapshot_json (pr_snapshots r) @ ''  ]'' @ [NL] @
     ''}'' @ [NL]"

section \<open>Trace events\<close>

definition to_string_i :: "int \<Rightarrow> string" where
  "to_string_i i = (if i < 0 then ''-'' @ dec_digits (nat (- i)) else dec_digits (nat i))"

record trace_event =
  ev_name :: string
  ev_cat :: string
  ev_pid :: i32
  ev_tid :: i32
  ev_ts :: int
  ev_dur :: int
  ev_args :: string

record meta_event =
  me_pid :: i32
  me_tid :: i32
  me_name :: string
  me_value :: string

record trace_writer =
  tw_enabled :: bool
  tw_events :: "trace_event list"
  tw_meta :: "meta_event list"

definition add_complete ::
  "string \<Rightarrow> string \<Rightarrow> i32 \<Rightarrow> i32 \<Rightarrow> int \<Rightarrow> int \<Rightarrow> string \<Rightarrow> trace_writer \<Rightarrow> trace_writer" where
  "add_complete name cat pid tid ts_us dur_us args tw =
     (if \<not> tw_enabled tw then tw
      else tw\<lparr>tw_events := tw_events tw @ [\<lparr>ev_name = name, ev_cat = cat, ev_pid = pid, ev_tid = tid,
                ev_ts = ts_us, ev_dur = dur_us, ev_args = args\<rparr>]\<rparr>)"

definition set_process_name :: "i32 \<Rightarrow> string \<Rightarrow> trace_writer \<Rightarrow> trace_writer" where
  "set_process_name pid name tw =
     (if \<not> tw_enabled tw then tw
      else tw\<lparr>tw_meta := tw_meta tw @ [\<lparr>me_pid = pid, me_tid = 0, me_name = ''process_name'', me_value = name\<rparr>]\<rparr>)"

definition set_thread_name :: "i32 \<Rightarrow> i32 \<Rightarrow> string \<Rightarrow> trace_writer \<Rightarrow> trace_writer" where
  "set_thread_name pid tid name tw =
     (if \<not> tw_enabled tw then tw
      else tw\<lparr>tw_meta := tw_meta tw @ [\<lparr>me_pid = pid, me_tid = tid, me_name = ''thread_name'', me_value = name\<rparr>]\<rparr>)"

definition json_escape_char :: "char \<Rightarrow> string" where
  "json_escape_char c =
     (if c = DQ then [BSL, DQ] else if c = BSL then [BSL, BSL] else if c = NL then [BSL, CHR ''n'']
      else if c = TAB then [BSL, CHR ''t''] else [c])"

definition json_escape :: "string \<Rightarrow> string \<Rightarrow> string" where
  "json_escape out s = fold (\<lambda>c out. out @ json_escape_char c) s out"

definition meta_json :: "meta_event \<Rightarrow> string" where
  "meta_json m =
     ''{'' @ quoted ''ph'' @ '':'' @ quoted ''M'' @ '','' @ quoted ''pid'' @ '':'' @ to_string_i (me_pid m) @
     '','' @ quoted ''tid'' @ '':'' @ to_string_i (me_tid m) @
     '','' @ quoted ''name'' @ '':'' @ quoted (me_name m) @
     '','' @ quoted ''args'' @ '':{'' @ quoted ''name'' @ '':'' @ quoted (json_escape '''' (me_value m)) @ ''}}''"

definition event_json :: "trace_event \<Rightarrow> string" where
  "event_json e =
     ''{'' @ quoted ''ph'' @ '':'' @ quoted ''X'' @ '','' @ quoted ''name'' @ '':'' @
     quoted (json_escape '''' (ev_name e)) @
     '','' @ quoted ''cat'' @ '':'' @ quoted (json_escape '''' (ev_cat e)) @
     '','' @ quoted ''pid'' @ '':'' @ to_string_i (ev_pid e) @
     '','' @ quoted ''tid'' @ '':'' @ to_string_i (ev_tid e) @
     '','' @ quoted ''ts'' @ '':'' @ to_string_i (ev_ts e) @
     '','' @ quoted ''dur'' @ '':'' @ to_string_i (ev_dur e) @
     (if ev_args e \<noteq> '''' then '','' @ quoted ''args'' @ '':{'' @ quoted ''detail'' @ '':'' @
        quoted (json_escape '''' (ev_args e)) @ ''}'' else '''') @
     ''}''"

text \<open>The items with \<^verbatim>\<open>",\n"\<close> before all but the first, as the flag \<^verbatim>\<open>first\<close> makes it.\<close>

fun json_stream :: "bool \<Rightarrow> string list \<Rightarrow> string" where
  "json_stream first [] = ''''"
| "json_stream first (x # xs) = (if \<not> first then '','' @ [NL] else '''') @ x @ json_stream False xs"

text \<open>The path returned and the file's content; \<open>good\<close> says whether the file could be opened.\<close>

definition write_json :: "bool \<Rightarrow> string \<Rightarrow> trace_writer \<Rightarrow> string \<times> string" where
  "write_json good path tw =
     (if \<not> good then ('''', '''')
      else (path, ''{'' @ quoted ''traceEvents'' @ '':['' @ [NL] @
              json_stream True (map meta_json (tw_meta tw) @ map event_json (tw_events tw)) @
              [NL] @ '']}'' @ [NL]))"

section \<open>Escaping\<close>

text \<open>A JSON string body ends at the first quote that no backslash precedes; \<open>json_unescape\<close> reads it and
  returns the rest of the input.\<close>

fun json_unescape :: "string \<Rightarrow> (string \<times> string) option" where
  "json_unescape [] = None"
| "json_unescape (c # cs) =
     (if c = DQ then Some ([], cs)
      else if c = BSL then
        (case cs of [] \<Rightarrow> None
         | d # ds \<Rightarrow> map_option (\<lambda>(s, rest).
             ((if d = CHR ''n'' then NL else if d = CHR ''t'' then TAB else d) # s, rest)) (json_unescape ds))
      else map_option (\<lambda>(s, rest). (c # s, rest)) (json_unescape cs))"

lemma json_escape_concat: "json_escape out s = out @ concat (map json_escape_char s)"
  by (induction s arbitrary: out) (simp_all add: json_escape_def)

lemma json_unescape_escape: "json_unescape (concat (map json_escape_char s) @ DQ # rest) = Some (s, rest)"
  by (induction s) (simp_all add: json_escape_char_def)

section \<open>Properties\<close>


text \<open>The profile report does not escape: a JSON reader of a snapshot whose label holds a quote takes
  only the part before the quote as the label, and reads the rest of the label as the document.\<close>

theorem report_label_not_escaped:
  assumes "rs_label s = pre @ DQ # post" "DQ \<notin> set pre" "BSL \<notin> set pre"
  shows "\<exists>body rest. snapshot_json s = ''      '' @ quoted ''label'' @ '': '' @ DQ # body \<and>
    json_unescape body = Some (pre, post @ DQ # rest)"
proof -
  have "json_unescape (pre @ DQ # x) = Some (pre, x)" for x
    using assms(2,3) by (induction pre) auto
  then show ?thesis
    by (intro exI) (auto simp: snapshot_json_def json_field_def quoted_def assms(1))
qed

end
