(* ===== verification/Orchestrator.thy ===== *)
theory Orchestrator
  imports Heap_Ring Dep_Pool Scope_Stack Tensor_Map Profiling
begin

text \<open>
  \<^verbatim>\<open>LinquOrchestratorState\<close> (src/src/runtime/linqu_orchestrator_state.h and .cpp): task submission,
  completion and retirement over the two rings, the dependency pool, the tensor map and the scope
  stack. The state is a record of the members; every method is a function on it.

  \<^item> The dispatcher is one of: none, a synchronous one that reports completion before \<^verbatim>\<open>dispatch\<close> returns
    (\<^verbatim>\<open>MockDispatcher\<close>, \<^verbatim>\<open>LocalDispatcher\<close>), an asynchronous one (\<^verbatim>\<open>RemoteDispatcher\<close>), whose completions
    arrive later as calls of \<^verbatim>\<open>on_task_complete\<close>. \<open>o_calls\<close> logs what was dispatched.
  \<^item> \<^verbatim>\<open>scheduler_mu_\<close> is a flag: locking it twice in one call chain is \<open>SelfDeadlock\<close>.
  \<^item> Completion is recursive (completing a task may start a group, which may complete). The recursion
    takes fuel; \<open>o_fuel\<close> is the window size plus one, and \<open>propagate_returns\<close> shows that it is enough.
  \<^item> The back-pressure loops sleep; what other threads complete meanwhile is the argument
    \<open>arrivals\<close>, one list of task ids per sleep. The clock is an argument of \<^verbatim>\<open>take_snapshot\<close>.
\<close>

section \<open>State\<close>

definition MAX_SCOPE_DEPTH :: int where
  "MAX_SCOPE_DEPTH = 8"

record orch_config =
  cf_task_ring_window :: i32
  cf_heap_ring_capacity :: u64
  cf_dep_pool_capacity :: i32
  cf_tensormap_buckets :: i32
  cf_tensormap_pool :: i32

definition orch_config_default :: orch_config where
  "orch_config_default = \<lparr>cf_task_ring_window = 64, cf_heap_ring_capacity = 1024 * 1024,
     cf_dep_pool_capacity = 512, cf_tensormap_buckets = 64, cf_tensormap_pool = 256\<rparr>"

datatype dispatcher = NoDispatcher | SyncDispatcher | AsyncDispatcher

record dispatch_call =
  dc_task_id :: i32
  dc_target :: linqu_coordinate
  dc_kernel_so :: string
  dc_params :: "linqu_param list"

record pending_group_spec =
  pg_kernel_so :: string
  pg_group_params :: "linqu_param list"
  pg_sub_tasks :: "sub_task_spec list"

record orch =
  o_level :: level
  o_coord :: linqu_coordinate
  o_task_ring :: task_ring
  o_heap_ring :: heap_ring
  o_dep_pool :: dep_pool
  o_tensor_map :: tensor_map
  o_scope_stack :: scope_stack
  o_dispatcher :: dispatcher
  o_dispatch_fn :: bool
  o_calls :: "dispatch_call list"
  o_scheduler_mu :: bool
  o_tasks_submitted :: nat
  o_next_tensor_handle :: u64
  o_done :: bool
  o_scope_begin_count :: nat
  o_scope_end_count :: nat
  o_free_tensor_count :: nat
  o_task_retire_count :: nat
  o_task_block_count :: nat
  o_heap_block_count :: nat
  o_peak_task_used :: nat
  o_peak_heap_used :: nat
  o_snapshots :: "ring_snapshot list"
  o_sub_dispatch_to_group :: "i32 \<Rightarrow> i32 option"
  o_next_sub_dispatch_id :: i32
  o_pending_group_specs :: "i32 \<Rightarrow> pending_group_spec option"

text \<open>The members \<^verbatim>\<open>init\<close> does not assign have their initial values in \<open>orch_new\<close>, where the rings are
  overwritten at once.\<close>

definition orch_init :: "level \<Rightarrow> linqu_coordinate \<Rightarrow> orch_config \<Rightarrow> dispatcher \<Rightarrow> bool \<Rightarrow> orch res" where
  "orch_init lv coord cfg disp fn =
     bindR (task_ring_init (cf_task_ring_window cfg)) (\<lambda>tr.
     bindR (dep_init (cf_dep_pool_capacity cfg) dep_new) (\<lambda>dp.
     bindR (tm_init (cf_tensormap_buckets cfg) (cf_tensormap_pool cfg) tm_new) (\<lambda>tm.
       Inr \<lparr>o_level = lv, o_coord = coord, o_task_ring = tr,
         o_heap_ring = heap_init (cf_heap_ring_capacity cfg) heap_new, o_dep_pool = dp, o_tensor_map = tm,
         o_scope_stack = scope_init MAX_SCOPE_DEPTH (cf_task_ring_window cfg * MAX_SCOPE_DEPTH) scope_new,
         o_dispatcher = disp, o_dispatch_fn = fn, o_calls = [], o_scheduler_mu = False,
         o_tasks_submitted = 0, o_next_tensor_handle = 1, o_done = False,
         o_scope_begin_count = 0, o_scope_end_count = 0, o_free_tensor_count = 0, o_task_retire_count = 0,
         o_task_block_count = 0, o_heap_block_count = 0, o_peak_task_used = 0, o_peak_heap_used = 0,
         o_snapshots = [], o_sub_dispatch_to_group = Map.empty, o_next_sub_dispatch_id = - 1,
         o_pending_group_specs = Map.empty\<rparr>)))"

definition orch_reset :: "orch \<Rightarrow> orch" where
  "orch_reset s =
     s\<lparr>o_task_ring := task_ring_reset (o_task_ring s), o_heap_ring := heap_reset (o_heap_ring s),
       o_dep_pool := dep_reset (o_dep_pool s), o_tensor_map := tm_reset (o_tensor_map s),
       o_scope_stack := scope_reset (o_scope_stack s),
       o_tasks_submitted := 0, o_next_tensor_handle := 1, o_done := False,
       o_scope_begin_count := 0, o_scope_end_count := 0, o_free_tensor_count := 0,
       o_task_retire_count := 0, o_task_block_count := 0, o_heap_block_count := 0,
       o_peak_task_used := 0, o_peak_heap_used := 0, o_snapshots := [],
       o_sub_dispatch_to_group := Map.empty, o_next_sub_dispatch_id := - 1,
       o_pending_group_specs := Map.empty\<rparr>"

section \<open>Descriptors of the state\<close>

definition o_get :: "orch \<Rightarrow> i32 \<Rightarrow> task_desc" where
  "o_get s tid = task_get (o_task_ring s) tid"

definition o_upd :: "i32 \<Rightarrow> (task_desc \<Rightarrow> task_desc) \<Rightarrow> orch \<Rightarrow> orch" where
  "o_upd tid f s = s\<lparr>o_task_ring := task_upd tid f (o_task_ring s)\<rparr>"

definition set_status :: "task_status \<Rightarrow> i32 \<Rightarrow> orch \<Rightarrow> orch" where
  "set_status st tid = o_upd tid (\<lambda>d. d\<lparr>td_status := st\<rparr>)"

section \<open>Completion\<close>

definition check_task_consumed :: "i32 \<Rightarrow> orch \<Rightarrow> orch" where
  "check_task_consumed task_id s =
     (let desc = o_get s task_id in
      if td_status desc = COMPLETED \<and> td_fanout_count desc \<le> td_fanout_refcount desc
      then set_status CONSUMED task_id s else s)"

text \<open>Step 1 of \<^verbatim>\<open>propagate_completion\<close>, for one producer, and step 2, for one consumer.\<close>

definition release_producer :: "i32 \<Rightarrow> orch \<Rightarrow> orch res" where
  "release_producer p s =
     Inr (check_task_consumed p (o_upd p (\<lambda>d. d\<lparr>td_fanout_refcount := td_fanout_refcount d + 1\<rparr>) s))"

definition notify_consumer :: "i32 \<Rightarrow> orch \<Rightarrow> orch res" where
  "notify_consumer c s = Inr (o_upd c (\<lambda>d. d\<lparr>td_fanin_refcount := td_fanin_refcount d + 1\<rparr>) s)"

text \<open>
  The mutually recursive part. \<open>prop\<close> is \<^verbatim>\<open>propagate_completion\<close> as the functions below call it.
\<close>

definition on_task_complete_with :: "(i32 \<Rightarrow> orch \<Rightarrow> orch res) \<Rightarrow> i32 \<Rightarrow> orch \<Rightarrow> orch res" where
  "on_task_complete_with prop task_id s =
     (if o_scheduler_mu s then Inl SelfDeadlock
      else
        let s = s\<lparr>o_scheduler_mu := True\<rparr>;
            unlock = (\<lambda>s. Inr (s\<lparr>o_scheduler_mu := False\<rparr>)) in
        case o_sub_dispatch_to_group s task_id of
          Some group_tid \<Rightarrow>
            let s = s\<lparr>o_sub_dispatch_to_group := (o_sub_dispatch_to_group s)(task_id := None)\<rparr>;
                prev = td_sub_complete_count (o_get s group_tid);
                s = o_upd group_tid (\<lambda>d. d\<lparr>td_sub_complete_count := td_sub_complete_count d + 1\<rparr>) s in
            if td_group_size (o_get s group_tid) \<le> prev + 1
            then bindR (prop group_tid (set_status COMPLETED group_tid s)) unlock
            else unlock s
        | None \<Rightarrow>
            if td_status (o_get s task_id) = RUNNING
            then bindR (prop task_id (set_status COMPLETED task_id s)) unlock
            else unlock s)"

text \<open>\<^verbatim>\<open>dispatcher_->dispatch\<close>: the call is logged; a synchronous dispatcher calls back at once.\<close>

definition dispatch_with ::
  "(i32 \<Rightarrow> orch \<Rightarrow> orch res) \<Rightarrow> i32 \<Rightarrow> linqu_coordinate \<Rightarrow> string \<Rightarrow> linqu_param list \<Rightarrow> orch \<Rightarrow> orch res" where
  "dispatch_with prop tid tgt k params s =
     (let s = s\<lparr>o_calls := o_calls s @ [\<lparr>dc_task_id = tid, dc_target = tgt, dc_kernel_so = k,
                                        dc_params = params\<rparr>]\<rparr> in
      if o_dispatcher s = SyncDispatcher then on_task_complete_with prop tid s else Inr s)"

text \<open>One iteration of \<^verbatim>\<open>dispatch_group_sub_tasks\<close>; \<open>n\<close> is \<^verbatim>\<open>num_sub_tasks\<close>.\<close>

definition dispatch_sub_task_with ::
  "(i32 \<Rightarrow> orch \<Rightarrow> orch res) \<Rightarrow> i32 \<Rightarrow> string option \<Rightarrow> linqu_param list \<Rightarrow> nat \<Rightarrow> sub_task_spec \<Rightarrow> orch \<Rightarrow> orch res" where
  "dispatch_sub_task_with prop group_tid kernel_so group_params n sub s =
     (let sub_id = o_next_sub_dispatch_id s;
          s = s\<lparr>o_next_sub_dispatch_id := sub_id - 1,
                o_sub_dispatch_to_group := (o_sub_dispatch_to_group s)(sub_id \<mapsto> group_tid)\<rparr>;
          k = (case st_kernel_so sub of Some k \<Rightarrow> Some k | None \<Rightarrow> kernel_so);
          merged = group_params @ st_private_params sub in
      if o_dispatcher s \<noteq> NoDispatcher
      then dispatch_with prop sub_id (st_target sub) (case k of Some k \<Rightarrow> k | None \<Rightarrow> '''') merged s
      else
        let prev = td_sub_complete_count (o_get s group_tid);
            s = o_upd group_tid (\<lambda>d. d\<lparr>td_sub_complete_count := td_sub_complete_count d + 1\<rparr>) s in
        if n \<le> prev + 1 then prop group_tid (set_status COMPLETED group_tid s) else Inr s)"

definition dispatch_group_sub_tasks_with ::
  "(i32 \<Rightarrow> orch \<Rightarrow> orch res) \<Rightarrow> i32 \<Rightarrow> string option \<Rightarrow> linqu_param list \<Rightarrow> sub_task_spec list \<Rightarrow> orch \<Rightarrow> orch res" where
  "dispatch_group_sub_tasks_with prop group_tid kernel_so group_params subs s =
     foldR (dispatch_sub_task_with prop group_tid kernel_so group_params (length subs)) subs s"

text \<open>One consumer in \<^verbatim>\<open>check_consumers_ready\<close>.\<close>

definition check_consumer_with :: "(i32 \<Rightarrow> orch \<Rightarrow> orch res) \<Rightarrow> i32 \<Rightarrow> orch \<Rightarrow> orch res" where
  "check_consumer_with prop c s =
     (let consumer = o_get s c in
      if td_fanin_count consumer \<le> td_fanin_refcount consumer \<and> td_status consumer = PENDING then
        if td_is_group consumer then
          let s = set_status RUNNING c s in
          case o_pending_group_specs s c of
            Some spec \<Rightarrow>
              bindR (dispatch_group_sub_tasks_with prop c (Some (pg_kernel_so spec)) (pg_group_params spec)
                       (pg_sub_tasks spec) s) (\<lambda>s.
                Inr (s\<lparr>o_pending_group_specs := (o_pending_group_specs s)(c := None)\<rparr>))
          | None \<Rightarrow> Inr s
        else Inr (set_status READY c s)
      else Inr s)"

definition check_consumers_ready_with :: "(i32 \<Rightarrow> orch \<Rightarrow> orch res) \<Rightarrow> i32 \<Rightarrow> orch \<Rightarrow> orch res" where
  "check_consumers_ready_with prop producer_task_id s =
     dep_for_each (o_dep_pool s) (check_consumer_with prop) (td_fanout_list_head (o_get s producer_task_id)) s"

primrec propagate_fuel :: "nat \<Rightarrow> i32 \<Rightarrow> orch \<Rightarrow> orch res" where
  "propagate_fuel 0 task_id s = Inl Diverges"
| "propagate_fuel (Suc n) task_id s =
     bindR (dep_for_each (o_dep_pool s) release_producer (td_dep_list_head (o_get s task_id)) s) (\<lambda>s.
     bindR (dep_for_each (o_dep_pool s) notify_consumer (td_fanout_list_head (o_get s task_id)) s) (\<lambda>s.
     bindR (check_consumers_ready_with (propagate_fuel n) task_id s) (\<lambda>s.
       Inr (check_task_consumed task_id s))))"

definition o_fuel :: "orch \<Rightarrow> nat" where
  "o_fuel s = length (tr_descriptors (o_task_ring s)) + 1"

definition propagate_completion :: "i32 \<Rightarrow> orch \<Rightarrow> orch res" where
  "propagate_completion task_id s = propagate_fuel (o_fuel s) task_id s"

definition on_task_complete :: "i32 \<Rightarrow> orch \<Rightarrow> orch res" where
  "on_task_complete task_id s = on_task_complete_with propagate_completion task_id s"

definition dispatch :: "i32 \<Rightarrow> linqu_coordinate \<Rightarrow> string \<Rightarrow> linqu_param list \<Rightarrow> orch \<Rightarrow> orch res" where
  "dispatch = dispatch_with propagate_completion"

definition dispatch_group_sub_tasks ::
  "i32 \<Rightarrow> string option \<Rightarrow> linqu_param list \<Rightarrow> sub_task_spec list \<Rightarrow> orch \<Rightarrow> orch res" where
  "dispatch_group_sub_tasks = dispatch_group_sub_tasks_with propagate_completion"

text \<open>The callback \<^verbatim>\<open>wire_dispatcher_callback\<close> installs: only a completed task is reported on.\<close>

datatype dispatch_status = D_PENDING | D_RUNNING | D_COMPLETED | D_FAILED

definition completion_callback :: "i32 \<Rightarrow> dispatch_status \<Rightarrow> orch \<Rightarrow> orch res" where
  "completion_callback tid st s = (if st = D_COMPLETED then on_task_complete tid s else Inr s)"

definition on_scope_release :: "i32 \<Rightarrow> orch \<Rightarrow> orch res" where
  "on_scope_release task_id s = (if o_scheduler_mu s then Inl SelfDeadlock else Inr (check_task_consumed task_id s))"

section \<open>Retirement\<close>

text \<open>The loop over the oldest tasks: the first id in \<open>[cursor, cursor + n)\<close> that is not consumed.\<close>

primrec advance_cursor :: "task_ring \<Rightarrow> nat \<Rightarrow> i32 \<Rightarrow> i32" where
  "advance_cursor r 0 cursor = cursor"
| "advance_cursor r (Suc n) cursor =
     (if td_status (task_get r cursor) \<noteq> CONSUMED then cursor else advance_cursor r n (cursor + 1))"

definition try_advance_ring_pointers :: "orch \<Rightarrow> orch res" where
  "try_advance_ring_pointers s =
     (if o_scheduler_mu s then Inl SelfDeadlock
      else
        let alive = tr_last_task_alive (o_task_ring s);
            cursor = advance_cursor (o_task_ring s) (nat (tr_current_index (o_task_ring s) - alive)) alive;
            s = s\<lparr>o_task_retire_count := o_task_retire_count s + nat (cursor - alive)\<rparr> in
        if alive < cursor then
          let s = s\<lparr>o_task_ring := set_last_task_alive cursor (o_task_ring s),
                    o_tensor_map := tm_invalidate_below cursor (o_tensor_map s)\<rparr> in
          if 0 < cursor \<and> hr_tail (o_heap_ring s) < td_heap_end (o_get s (cursor - 1))
          then Inr (s\<lparr>o_heap_ring := heap_retire_to (td_heap_end (o_get s (cursor - 1))) (o_heap_ring s)\<rparr>)
          else Inr s
        else Inr s)"

section \<open>Submission\<close>

text \<open>The completions that arrive while the submitting thread sleeps.\<close>

definition deliver :: "i32 list \<Rightarrow> orch \<Rightarrow> orch res" where
  "deliver ids s = foldR on_task_complete ids s"

definition MAX_SPINS :: nat where
  "MAX_SPINS = 100000"

text \<open>\<open>spins\<close> counts down from \<^verbatim>\<open>100000\<close>; past it the \<^verbatim>\<open>assert\<close> fires.\<close>

primrec wait_task_space :: "nat \<Rightarrow> i32 list list \<Rightarrow> orch \<Rightarrow> orch res" where
  "wait_task_space 0 arrivals s =
     (if has_space (o_task_ring s) then Inr s
      else bindR (try_advance_ring_pointers s) (\<lambda>s.
        if has_space (o_task_ring s) then Inr s else Inl AssertFail))"
| "wait_task_space (Suc spins) arrivals s =
     (if has_space (o_task_ring s) then Inr s
      else bindR (try_advance_ring_pointers s) (\<lambda>s.
        if has_space (o_task_ring s) then Inr s
        else bindR (deliver (concat (take 1 arrivals)) s) (wait_task_space spins (drop 1 arrivals))))"

definition back_pressure :: "i32 list list \<Rightarrow> orch \<Rightarrow> orch res" where
  "back_pressure arrivals s =
     (if \<not> has_space (o_task_ring s)
      then wait_task_space MAX_SPINS arrivals (s\<lparr>o_task_block_count := o_task_block_count s + 1\<rparr>)
      else Inr s)"

definition current_depth :: "orch \<Rightarrow> u16" where
  "current_depth s = word_of_int (if 0 \<le> scope_depth (o_scope_stack s) then scope_depth (o_scope_stack s) else 0)"

text \<open>The edge between a task and the producer of one of its inputs.\<close>

definition add_edge :: "i32 \<Rightarrow> i32 \<Rightarrow> orch \<Rightarrow> orch res" where
  "add_edge tid p s =
     bindR (dep_prepend (td_dep_list_head (o_get s tid)) p (o_dep_pool s)) (\<lambda>(h, dp).
     let s = o_upd tid (\<lambda>d. d\<lparr>td_dep_list_head := h\<rparr>) (s\<lparr>o_dep_pool := dp\<rparr>);
         s = o_upd p (\<lambda>d. d\<lparr>td_fanout_count := td_fanout_count d + 1\<rparr>) s in
     bindR (dep_prepend (td_fanout_list_head (o_get s p)) tid (o_dep_pool s)) (\<lambda>(h, dp).
       Inr (o_upd p (\<lambda>d. d\<lparr>td_fanout_list_head := h\<rparr>) (s\<lparr>o_dep_pool := dp\<rparr>))))"

text \<open>One iteration of the parameter loop; the pair is \<^verbatim>\<open>fanin\<close> and the state.\<close>

definition link_param :: "i32 \<Rightarrow> linqu_param \<Rightarrow> nat \<times> orch \<Rightarrow> (nat \<times> orch) res" where
  "link_param tid p = (\<lambda>(fanin, s).
     bindR (if p_type p = PARAM_INPUT \<or> p_type p = PARAM_INOUT
       then bindR (tm_lookup (p_handle p) (o_tensor_map s)) (\<lambda>r. case r of
              None \<Rightarrow> Inr (fanin, s)
            | Some q \<Rightarrow> bindR (add_edge tid q s) (\<lambda>s. Inr (fanin + 1, s)))
       else Inr (fanin, s)) (\<lambda>(fanin, s).
     if p_type p = PARAM_OUTPUT \<or> p_type p = PARAM_INOUT
     then bindR (tm_insert (p_handle p) tid True (o_tensor_map s)) (\<lambda>tm.
            Inr (fanin, s\<lparr>o_tensor_map := tm\<rparr>))
     else Inr (fanin, s)))"

text \<open>Lines 187 to 222 of \<^verbatim>\<open>submit_task\<close>, which \<^verbatim>\<open>submit_task_group\<close> repeats: allocate the descriptor, link
  its parameters, register it in the scope, record the heap position, count. \<open>fill\<close> fills what the
  two differ in.\<close>

definition note_peaks :: "orch \<Rightarrow> orch" where
  "note_peaks s =
     s\<lparr>o_peak_task_used := max (o_peak_task_used s) (nat (active_count (o_task_ring s))),
       o_peak_heap_used := max (o_peak_heap_used s) (unat (heap_used (o_heap_ring s)))\<rparr>"

definition register_task ::
  "(task_desc \<Rightarrow> task_desc) \<Rightarrow> string \<Rightarrow> linqu_param list \<Rightarrow> orch \<Rightarrow> (i32 \<times> orch) res" where
  "register_task fill kernel_so params s =
     bindR (task_alloc (o_task_ring s)) (\<lambda>(tid, tr).
     let s = s\<lparr>o_task_ring := tr\<rparr>;
         depth = current_depth s;
         s = o_upd tid (\<lambda>d. fill (d\<lparr>td_kernel_so := kernel_so,
               td_key := TaskKey (key_logical_system (td_key d)) (key_coord (td_key d)) depth (word_of_int tid)\<rparr>)) s in
     bindR (foldR (link_param tid) params (0, s)) (\<lambda>(fanin, s).
     let s = o_upd tid (\<lambda>d. d\<lparr>td_fanin_count := fanin\<rparr>) s in
     bindR (if 0 \<le> scope_depth (o_scope_stack s)
       then bindR (stack_add_task tid (o_scope_stack s)) (\<lambda>ss. Inr (s\<lparr>o_scope_stack := ss\<rparr>))
       else Inr s) (\<lambda>s.
     let s = o_upd tid (\<lambda>d. d\<lparr>td_heap_end := hr_top (o_heap_ring s)\<rparr>) s in
       Inr (tid, note_peaks (s\<lparr>o_tasks_submitted := o_tasks_submitted s + 1\<rparr>)))))"

definition submit_task ::
  "i32 list list \<Rightarrow> linqu_coordinate \<Rightarrow> string option \<Rightarrow> linqu_param list \<Rightarrow> orch \<Rightarrow> orch res" where
  "submit_task arrivals target kernel_so params s =
     bindR (back_pressure arrivals s) (\<lambda>s.
     let k = (case kernel_so of Some k \<Rightarrow> k | None \<Rightarrow> '''') in
     bindR (register_task id k params s) (\<lambda>(tid, s).
     let s = set_status RUNNING tid s in
     if o_dispatcher s \<noteq> NoDispatcher then dispatch tid target k params s
     else
       let s = (if o_dispatch_fn s
                then s\<lparr>o_calls := o_calls s @ [\<lparr>dc_task_id = tid, dc_target = target, dc_kernel_so = k,
                                               dc_params = params\<rparr>]\<rparr>
                else s) in
       propagate_completion tid (set_status COMPLETED tid s)))"

definition submit_task_group ::
  "i32 list list \<Rightarrow> string option \<Rightarrow> linqu_param list \<Rightarrow> sub_task_spec list \<Rightarrow> orch \<Rightarrow> orch res" where
  "submit_task_group arrivals kernel_so group_params subs s =
     bindR (back_pressure arrivals s) (\<lambda>s.
     bindR (register_task (\<lambda>d. d\<lparr>td_is_group := True, td_group_size := length subs, td_sub_complete_count := 0\<rparr>)
         (case kernel_so of Some k \<Rightarrow> k | None \<Rightarrow> ''group'') group_params s) (\<lambda>(tid, s).
     if subs = [] then propagate_completion tid (set_status COMPLETED tid s)
     else if td_fanin_count (o_get s tid) = 0
     then dispatch_group_sub_tasks tid kernel_so group_params subs (set_status RUNNING tid s)
     else
       let s = set_status PENDING tid s in
       Inr (s\<lparr>o_pending_group_specs := (o_pending_group_specs s)(tid \<mapsto>
         \<lparr>pg_kernel_so = (case kernel_so of Some k \<Rightarrow> k | None \<Rightarrow> ''''), pg_group_params = group_params,
          pg_sub_tasks = subs\<rparr>)\<rparr>)))"

section \<open>Scopes, tensors and the rest of the interface\<close>

definition scope_begin :: "orch \<Rightarrow> orch res" where
  "scope_begin s = bindR (stack_scope_begin (o_scope_stack s)) (\<lambda>ss.
     Inr (s\<lparr>o_scope_stack := ss, o_scope_begin_count := o_scope_begin_count s + 1\<rparr>))"

definition check_all_consumed :: "orch \<Rightarrow> orch" where
  "check_all_consumed s =
     fold check_task_consumed
       [tr_last_task_alive (o_task_ring s)..tr_current_index (o_task_ring s) - 1] s"

definition scope_end :: "orch \<Rightarrow> orch res" where
  "scope_end s =
     bindR (stack_scope_end (o_scope_stack s) (o_task_ring s)) (\<lambda>(ss, tr).
     let s = s\<lparr>o_scope_stack := ss, o_task_ring := tr, o_scope_end_count := o_scope_end_count s + 1\<rparr> in
     if o_scheduler_mu s then Inl SelfDeadlock
     else try_advance_ring_pointers (check_all_consumed s))"

text \<open>The loop of \<^verbatim>\<open>alloc_tensor\<close> tries the heap before and after it advances the rings.\<close>

primrec wait_heap_space :: "nat \<Rightarrow> i32 list list \<Rightarrow> u64 \<Rightarrow> orch \<Rightarrow> orch res" where
  "wait_heap_space 0 arrivals sz s =
     (case heap_try_alloc sz (o_heap_ring s) of
        Some (pos, hr) \<Rightarrow> Inr (s\<lparr>o_heap_ring := hr\<rparr>)
      | None \<Rightarrow> bindR (try_advance_ring_pointers s) (\<lambda>s.
          case heap_try_alloc sz (o_heap_ring s) of
            Some (pos, hr) \<Rightarrow> Inr (s\<lparr>o_heap_ring := hr\<rparr>)
          | None \<Rightarrow> Inl AssertFail))"
| "wait_heap_space (Suc spins) arrivals sz s =
     (case heap_try_alloc sz (o_heap_ring s) of
        Some (pos, hr) \<Rightarrow> Inr (s\<lparr>o_heap_ring := hr\<rparr>)
      | None \<Rightarrow> bindR (try_advance_ring_pointers s) (\<lambda>s.
          case heap_try_alloc sz (o_heap_ring s) of
            Some (pos, hr) \<Rightarrow> Inr (s\<lparr>o_heap_ring := hr\<rparr>)
          | None \<Rightarrow> bindR (deliver (concat (take 1 arrivals)) s) (wait_heap_space spins (drop 1 arrivals) sz)))"

definition alloc_tensor :: "i32 list list \<Rightarrow> linqu_coordinate \<Rightarrow> u64 \<Rightarrow> orch \<Rightarrow> (u64 \<times> orch) res" where
  "alloc_tensor arrivals target size_bytes s =
     (let handle = o_next_tensor_handle s;
          s = s\<lparr>o_next_tensor_handle := handle + 1\<rparr> in
      if 0 < size_bytes then
        bindR (case heap_try_alloc size_bytes (o_heap_ring s) of
            Some (pos, hr) \<Rightarrow> Inr (s\<lparr>o_heap_ring := hr\<rparr>)
          | None \<Rightarrow> wait_heap_space MAX_SPINS arrivals size_bytes
              (s\<lparr>o_heap_block_count := o_heap_block_count s + 1\<rparr>)) (\<lambda>s.
          Inr (handle, s\<lparr>o_peak_heap_used := max (o_peak_heap_used s) (unat (heap_used (o_heap_ring s)))\<rparr>))
      else Inr (handle, s))"

definition free_tensor :: "u64 \<Rightarrow> orch \<Rightarrow> orch" where
  "free_tensor handle s = s\<lparr>o_free_tensor_count := o_free_tensor_count s + 1\<rparr>"

definition orchestration_done :: "orch \<Rightarrow> orch" where
  "orchestration_done s = s\<lparr>o_done := True\<rparr>"

definition op_reg_data :: "linqu_coordinate \<Rightarrow> u64 \<Rightarrow> u64" where
  "op_reg_data target s = s"

definition current_metrics :: "orch \<Rightarrow> ring_metrics" where
  "current_metrics s =
     \<lparr>rm_level = level_value (o_level s), rm_depth = 0,
      rm_task_ring_capacity = nat (tr_window_size (o_task_ring s)),
      rm_task_ring_peak_used = o_peak_task_used s, rm_task_alloc_count = o_tasks_submitted s,
      rm_task_retire_count = o_task_retire_count s, rm_task_block_count = o_task_block_count s,
      rm_buffer_ring_capacity = unat (hr_capacity (o_heap_ring s)),
      rm_buffer_ring_peak_used = o_peak_heap_used s, rm_buffer_alloc_count = 0,
      rm_buffer_alloc_bytes = 0, rm_buffer_retire_bytes = 0,
      rm_scope_begin_count = o_scope_begin_count s, rm_scope_end_count = o_scope_end_count s,
      rm_free_tensor_count = o_free_tensor_count s\<rparr>"

definition generate_profile :: "string \<Rightarrow> orch \<Rightarrow> profile_report" where
  "generate_profile node_id s =
     \<lparr>pr_node_id = node_id, pr_level = level_value (o_level s), pr_metrics = [current_metrics s],
      pr_snapshots = o_snapshots s\<rparr>"

definition take_snapshot :: "u64 \<Rightarrow> string \<Rightarrow> orch \<Rightarrow> orch" where
  "take_snapshot now label s =
     s\<lparr>o_snapshots := o_snapshots s @
       [\<lparr>rs_level = level_value (o_level s), rs_depth = current_depth s, rs_label = label,
         rs_timestamp_us = now, rs_task_capacity = nat (tr_window_size (o_task_ring s)),
         rs_task_used = nat (active_count (o_task_ring s)),
         rs_task_head = nat (tr_last_task_alive (o_task_ring s)),
         rs_task_tail = nat (tr_current_index (o_task_ring s)),
         rs_buffer_capacity = unat (hr_capacity (o_heap_ring s)),
         rs_buffer_used = unat (heap_used (o_heap_ring s)),
         rs_buffer_head = unat (hr_tail (o_heap_ring s)), rs_buffer_tail = unat (hr_top (o_heap_ring s)),
         rs_alloc_count = o_tasks_submitted s, rs_retire_count = o_task_retire_count s,
         rs_free_count = o_free_tensor_count s\<rparr>]\<rparr>"

definition orch_self_coord :: "orch \<Rightarrow> linqu_coordinate" where
  "orch_self_coord s = o_coord s"

end
