(* ===== verification/Orch_Completion.thy ===== *)
theory Orch_Completion
  imports Orchestrator
begin

text \<open>
  Completion in \<^verbatim>\<open>LinquOrchestratorState\<close>: what the mutually recursive part changes, that its recursion
  ends within the fuel of the model, and what retirement does. The relation \<open>evolves\<close> is the frame of
  every completion: the rings keep their geometry, the dependency chains their cells and the
  descriptors everything but their status and their counters, which only grow.
\<close>

section \<open>Evolution of a state\<close>

text \<open>How far a task is in its life; \<open>COMPLETED\<close> and \<open>CONSUMED\<close> are both the end of it.\<close>

fun status_rank :: "task_status \<Rightarrow> nat" where
  "status_rank PENDING = 0"
| "status_rank READY = 1"
| "status_rank RUNNING = 2"
| "status_rank COMPLETED = 3"
| "status_rank CONSUMED = 3"

lemma status_rank_0 [simp]: "status_rank st = 0 \<longleftrightarrow> st = PENDING" "status_rank st \<le> 3"
  by (cases st; simp)+

lemma status_rank_3: "3 \<le> status_rank st \<longleftrightarrow> st = COMPLETED \<or> st = CONSUMED"
  by (cases st) auto

definition desc_evolves :: "task_desc \<Rightarrow> task_desc \<Rightarrow> bool" where
  "desc_evolves d d' \<longleftrightarrow>
     d'\<lparr>td_status := td_status d, td_fanin_refcount := td_fanin_refcount d,
        td_fanout_refcount := td_fanout_refcount d, td_sub_complete_count := td_sub_complete_count d\<rparr> = d \<and>
     td_fanin_refcount d \<le> td_fanin_refcount d' \<and> td_fanout_refcount d \<le> td_fanout_refcount d' \<and>
     td_sub_complete_count d \<le> td_sub_complete_count d' \<and>
     status_rank (td_status d) \<le> status_rank (td_status d')"

definition evolves :: "orch \<Rightarrow> orch \<Rightarrow> bool" where
  "evolves s s' \<longleftrightarrow>
     s'\<lparr>o_task_ring := o_task_ring s, o_calls := o_calls s,
        o_sub_dispatch_to_group := o_sub_dispatch_to_group s,
        o_next_sub_dispatch_id := o_next_sub_dispatch_id s,
        o_pending_group_specs := o_pending_group_specs s\<rparr> = s \<and>
     (o_task_ring s')\<lparr>tr_descriptors := tr_descriptors (o_task_ring s)\<rparr> = o_task_ring s \<and>
     list_all2 desc_evolves (tr_descriptors (o_task_ring s)) (tr_descriptors (o_task_ring s'))"

lemma desc_evolves_refl [simp]: "desc_evolves d d"
  by (simp add: desc_evolves_def)

lemma desc_evolves_trans: "desc_evolves a b \<Longrightarrow> desc_evolves b c \<Longrightarrow> desc_evolves a c"
  by (cases a; cases b; cases c) (auto simp: desc_evolves_def)

lemma desc_evolvesD:
  assumes "desc_evolves d d'"
  shows "td_dep_list_head d' = td_dep_list_head d" "td_fanout_list_head d' = td_fanout_list_head d"
    "td_fanin_count d' = td_fanin_count d" "td_fanout_count d' = td_fanout_count d"
    "td_is_group d' = td_is_group d" "td_group_size d' = td_group_size d" "td_heap_end d' = td_heap_end d"
    "td_task_freed d' = td_task_freed d" "td_key d' = td_key d" "td_kernel_so d' = td_kernel_so d"
  using assms by (cases d; cases d'; simp add: desc_evolves_def)+

lemma evolves_refl [simp]: "evolves s s"
  by (simp add: evolves_def list_all2_refl)

lemma evolves_trans:
  assumes "evolves a b" "evolves b c"
  shows "evolves a c"
proof -
  have "list_all2 desc_evolves (tr_descriptors (o_task_ring a)) (tr_descriptors (o_task_ring c))"
    using assms unfolding evolves_def
    by (meson list_all2_trans [of desc_evolves desc_evolves desc_evolves] desc_evolves_trans)
  moreover have "(o_task_ring c)\<lparr>tr_descriptors := tr_descriptors (o_task_ring a)\<rparr> = o_task_ring a"
    using assms unfolding evolves_def by (cases "o_task_ring a"; cases "o_task_ring b"; cases "o_task_ring c") auto
  ultimately show ?thesis using assms unfolding evolves_def by (cases a; cases b; cases c) auto
qed

lemma evolvesD:
  assumes "evolves s s'"
  shows "o_dep_pool s' = o_dep_pool s" "o_dispatcher s' = o_dispatcher s" "o_scheduler_mu s' = o_scheduler_mu s"
    "o_heap_ring s' = o_heap_ring s" "o_tensor_map s' = o_tensor_map s" "o_scope_stack s' = o_scope_stack s"
    "tr_window_size (o_task_ring s') = tr_window_size (o_task_ring s)"
    "tr_current_index (o_task_ring s') = tr_current_index (o_task_ring s)"
    "tr_last_task_alive (o_task_ring s') = tr_last_task_alive (o_task_ring s)"
    "length (tr_descriptors (o_task_ring s')) = length (tr_descriptors (o_task_ring s))"
    "task_slot (o_task_ring s') i = task_slot (o_task_ring s) i"
  using assms unfolding evolves_def task_slot_def
  by (cases s; cases s'; cases "o_task_ring s"; cases "o_task_ring s'"; auto dest: list_all2_lengthD)+

lemma evolves_get: "evolves s s' \<Longrightarrow> ring_wf (o_task_ring s) \<Longrightarrow> desc_evolves (o_get s i) (o_get s' i)"
  using task_slot_range [of "o_task_ring s" i] evolvesD(11) [of s s' i]
  by (simp add: o_get_def task_get_def evolves_def list_all2_nthD)

lemma evolves_ring_wf: "evolves s s' \<Longrightarrow> ring_wf (o_task_ring s') \<longleftrightarrow> ring_wf (o_task_ring s)"
  using evolvesD [of s s'] by (simp add: ring_wf_def)

lemma evolves_upd:
  assumes "desc_evolves (o_get s tid) (f (o_get s tid))"
  shows "evolves s (o_upd tid f s)"
proof -
  have "list_all2 desc_evolves xs (xs[i := y])" if "desc_evolves (xs ! i) y" for xs i y
    using that by (cases "i < length xs") (auto simp: list_all2_conv_all_nth nth_list_update)
  then show ?thesis using assms by (simp add: evolves_def o_upd_def task_upd_def task_get_def o_get_def)
qed

lemma evolves_set_status:
  "status_rank (td_status (o_get s tid)) \<le> status_rank st \<Longrightarrow> evolves s (set_status st tid s)"
  unfolding set_status_def by (rule evolves_upd) (simp add: desc_evolves_def)

lemma evolves_ghost:
  "evolves s (s\<lparr>o_calls := c\<rparr>)" "evolves s (s\<lparr>o_sub_dispatch_to_group := g\<rparr>)"
  "evolves s (s\<lparr>o_next_sub_dispatch_id := n, o_sub_dispatch_to_group := g\<rparr>)"
  "evolves s (s\<lparr>o_pending_group_specs := p\<rparr>)"
  by (simp_all add: evolves_def list_all2_refl)

lemma evolves_unlock:
  "evolves (s\<lparr>o_scheduler_mu := True\<rparr>) s' \<Longrightarrow> \<not> o_scheduler_mu s \<Longrightarrow> evolves s (s'\<lparr>o_scheduler_mu := False\<rparr>)"
  by (cases s; cases s') (auto simp: evolves_def)

lemma evolves_check_consumed: "evolves s (check_task_consumed tid s)"
  by (simp add: check_task_consumed_def Let_def evolves_set_status)

lemma evolves_bump_sub:
  "evolves s (o_upd tid (\<lambda>d. d\<lparr>td_sub_complete_count := td_sub_complete_count d + 1\<rparr>) s)"
  by (rule evolves_upd) (simp add: desc_evolves_def)

section \<open>Outcomes of a completion\<close>

definition pend :: "orch \<Rightarrow> nat" where
  "pend s = length (filter (\<lambda>d. td_status d = PENDING) (tr_descriptors (o_task_ring s)))"

definition heads_ok :: "orch \<Rightarrow> bool" where
  "heads_ok s \<longleftrightarrow> (\<forall>d \<in> set (tr_descriptors (o_task_ring s)).
     dep_head_ok (o_dep_pool s) (td_dep_list_head d) \<and> dep_head_ok (o_dep_pool s) (td_fanout_list_head d))"

definition links_ok :: "orch \<Rightarrow> bool" where
  "links_ok s \<longleftrightarrow> ring_wf (o_task_ring s) \<and> dep_wf (o_dep_pool s) \<and> heads_ok s"

text \<open>A completion returns an evolved state, or the synchronous dispatcher deadlocks on the scheduler lock.\<close>

definition steps :: "orch \<Rightarrow> orch res \<Rightarrow> bool" where
  "steps s r \<longleftrightarrow> (case r of Inr s' \<Rightarrow> evolves s s' | Inl e \<Rightarrow> e = SelfDeadlock \<and> o_dispatcher s = SyncDispatcher)"

definition good_prop :: "nat \<Rightarrow> (i32 \<Rightarrow> orch \<Rightarrow> orch res) \<Rightarrow> bool" where
  "good_prop m prop \<longleftrightarrow> (\<forall>t s. links_ok s \<longrightarrow> pend s < m \<longrightarrow> steps s (prop t s))"

lemma steps_Inr [simp]: "steps s (Inr s') \<longleftrightarrow> evolves s s'"
  by (simp add: steps_def)

lemma steps_bind:
  assumes "steps s m" "\<And>s'. evolves s s' \<Longrightarrow> steps s' (f s')"
  shows "steps s (bindR m f)"
proof (cases m)
  case (Inr s')
  with assms have "evolves s s'" "steps s' (f s')" by auto
  then show ?thesis using Inr evolves_trans evolvesD(2) [of s s']
    by (auto simp: steps_def split: sum.splits)
qed (use assms in \<open>simp add: steps_def\<close>)

lemma steps_foldR:
  assumes "\<And>x s'. x \<in> set xs \<Longrightarrow> evolves s s' \<Longrightarrow> steps s' (f x s')"
  shows "steps s (foldR f xs s)"
  using assms
proof (induction xs arbitrary: s)
  case (Cons x xs)
  have "steps s' (foldR f xs s')" if e: "evolves s s'" for s'
  proof (rule Cons.IH)
    fix y u assume "y \<in> set xs" "evolves s' u"
    then show "steps u (f y u)" using Cons.prems [of y u] evolves_trans [OF e] by simp
  qed
  with Cons.prems show ?case by (auto intro!: steps_bind)
qed simp

lemma steps_from: "evolves s s' \<Longrightarrow> steps s' r \<Longrightarrow> steps s r"
  using evolves_trans evolvesD(2) [of s s'] by (auto simp: steps_def split: sum.splits)

lemma pend_evolves: "evolves s s' \<Longrightarrow> pend s' \<le> pend s"
proof -
  assume "evolves s s'"
  then have "list_all2 desc_evolves (tr_descriptors (o_task_ring s)) (tr_descriptors (o_task_ring s'))"
    by (simp add: evolves_def)
  then show ?thesis unfolding pend_def
  proof (induction rule: list_all2_induct)
    case (Cons d ds d' ds')
    then have "td_status d' = PENDING \<Longrightarrow> td_status d = PENDING" by (simp add: desc_evolves_def)
    with Cons show ?case by auto
  qed simp
qed

lemma links_ok_evolves: "evolves s s' \<Longrightarrow> links_ok s \<Longrightarrow> links_ok s'"
proof -
  assume e: "evolves s s'" and l: "links_ok s"
  have "list_all2 desc_evolves (tr_descriptors (o_task_ring s)) (tr_descriptors (o_task_ring s'))"
    using e by (simp add: evolves_def)
  then have "\<forall>d' \<in> set (tr_descriptors (o_task_ring s')). \<exists>d \<in> set (tr_descriptors (o_task_ring s)). desc_evolves d d'"
    by (fastforce simp: list_all2_conv_all_nth in_set_conv_nth)
  then have "heads_ok s'" using l desc_evolvesD(1,2) evolvesD(1) [OF e]
    unfolding links_ok_def heads_ok_def by metis
  then show ?thesis using l evolvesD(1) [OF e] evolves_ring_wf [OF e] by (simp add: links_ok_def)
qed

lemma heads_okD:
  assumes "links_ok s"
  shows "dep_head_ok (o_dep_pool s) (td_dep_list_head (o_get s i))"
    "dep_head_ok (o_dep_pool s) (td_fanout_list_head (o_get s i))"
  using assms task_slot_range [of "o_task_ring s" i]
  by (auto simp: links_ok_def heads_ok_def o_get_def task_get_def)

lemma each_foldR:
  assumes "links_ok s"
  shows "dep_for_each (o_dep_pool s) f (td_dep_list_head (o_get s i)) u =
      foldR f (dep_list (o_dep_pool s) (td_dep_list_head (o_get s i))) u"
    "dep_for_each (o_dep_pool s) f (td_fanout_list_head (o_get s i)) u =
      foldR f (dep_list (o_dep_pool s) (td_fanout_list_head (o_get s i))) u"
  using assms heads_okD [OF assms] by (simp_all add: dep_for_each_foldR links_ok_def)

lemma filter_update_less:
  assumes "i < length xs" "P (xs ! i)" "\<not> P y"
  shows "length (filter P (xs[i := y])) < length (filter P xs)"
proof -
  have "xs = take i xs @ xs ! i # drop (Suc i) xs" by (rule id_take_nth_drop [OF assms(1)])
  then have "length (filter P xs) = length (filter P (take i xs @ xs ! i # drop (Suc i) xs))" by simp
  then show ?thesis using assms by (simp add: upd_conv_take_nth_drop)
qed

lemma pend_start:
  assumes "links_ok s" "td_status (o_get s c) = PENDING" "st \<noteq> PENDING"
  shows "pend (set_status st c s) < pend s"
  using assms task_slot_range [of "o_task_ring s" c]
  unfolding pend_def set_status_def o_upd_def task_upd_def o_get_def
  by (simp add: links_ok_def) (rule filter_update_less; simp add: task_get_def)

section \<open>Every completion steps\<close>

lemma release_producer_steps: "steps s (release_producer p s)"
proof -
  have "evolves s (o_upd p (\<lambda>d. d\<lparr>td_fanout_refcount := td_fanout_refcount d + 1\<rparr>) s)"
    by (rule evolves_upd) (simp add: desc_evolves_def)
  then show ?thesis
    by (simp add: release_producer_def) (rule evolves_trans [OF _ evolves_check_consumed])
qed

lemma notify_consumer_steps: "steps s (notify_consumer c s)"
  by (simp add: notify_consumer_def) (rule evolves_upd, simp add: desc_evolves_def)

lemma on_task_complete_steps:
  assumes "good_prop m prop" "links_ok s" "pend s < m" "o_dispatcher s = SyncDispatcher \<or> \<not> o_scheduler_mu s"
  shows "steps s (on_task_complete_with prop tid s)"
proof (cases "o_scheduler_mu s")
  case True
  with assms(4) show ?thesis by (simp add: on_task_complete_with_def steps_def)
next
  case False
  let ?l = "s\<lparr>o_scheduler_mu := True\<rparr>"
  have ok: "links_ok ?l" "pend ?l < m"
    using assms(2,3) by (simp_all add: links_ok_def heads_ok_def pend_def)
  have pr: "steps u (prop t u)" if "evolves ?l u" for t u
    using assms(1) links_ok_evolves [OF that ok(1)] pend_evolves [OF that] ok(2)
    by (simp add: good_prop_def)
  have unlock: "steps s (bindR r (\<lambda>s. Inr (s\<lparr>o_scheduler_mu := False\<rparr>)))" if "steps ?l r" for r
    using that evolves_unlock False by (cases r) (auto simp: steps_def)
  have compl: "steps ?l (prop t (set_status COMPLETED t u))" if "evolves ?l u" for t u
    by (rule steps_from [OF _ pr]; rule evolves_trans [OF that]; simp add: evolves_set_status)
  show ?thesis
  proof (cases "o_sub_dispatch_to_group s tid")
    case None
    then show ?thesis
      using False unlock [OF compl [of ?l tid]] unlock [of "Inr ?l"]
      by (simp add: on_task_complete_with_def Let_def)
  next
    case (Some g)
    let ?u = "o_upd g (\<lambda>d. d\<lparr>td_sub_complete_count := td_sub_complete_count d + 1\<rparr>)
      (?l\<lparr>o_sub_dispatch_to_group := (o_sub_dispatch_to_group ?l)(tid := None)\<rparr>)"
    have "evolves ?l ?u" by (rule evolves_trans [OF evolves_ghost(2) evolves_bump_sub])
    then show ?thesis
      using False Some unlock [OF compl [of ?u g]] unlock [of "Inr ?u"]
      by (simp add: on_task_complete_with_def Let_def)
  qed
qed

lemma dispatch_steps:
  assumes "good_prop m prop" "links_ok s" "pend s < m"
  shows "steps s (dispatch_with prop tid tgt k params s)"
proof -
  let ?u = "s\<lparr>o_calls := o_calls s @ [\<lparr>dc_task_id = tid, dc_target = tgt, dc_kernel_so = k, dc_params = params\<rparr>]\<rparr>"
  have e: "evolves s ?u" by (rule evolves_ghost)
  have "steps ?u (on_task_complete_with prop tid ?u)" if "o_dispatcher s = SyncDispatcher"
    using that assms(3) pend_evolves [OF e] links_ok_evolves [OF e assms(2)]
    by (intro on_task_complete_steps [OF assms(1)]) auto
  then show ?thesis using e by (auto simp: dispatch_with_def Let_def intro: steps_from)
qed

lemma dispatch_sub_task_steps:
  assumes "good_prop m prop" "links_ok s" "pend s < m"
  shows "steps s (dispatch_sub_task_with prop g k ps n sub s)"
proof -
  let ?u = "s\<lparr>o_next_sub_dispatch_id := o_next_sub_dispatch_id s - 1,
    o_sub_dispatch_to_group := (o_sub_dispatch_to_group s)(o_next_sub_dispatch_id s \<mapsto> g)\<rparr>"
  let ?v = "o_upd g (\<lambda>d. d\<lparr>td_sub_complete_count := td_sub_complete_count d + 1\<rparr>) ?u"
  have u: "evolves s ?u" by (rule evolves_ghost)
  have v: "evolves s ?v" by (rule evolves_trans [OF u evolves_bump_sub])
  have w: "evolves s (set_status COMPLETED g ?v)" by (rule evolves_trans [OF v]) (simp add: evolves_set_status)
  have "steps s (prop g (set_status COMPLETED g ?v))"
    using assms(1,3) links_ok_evolves [OF w assms(2)] pend_evolves [OF w]
    by (intro steps_from [OF w]) (simp add: good_prop_def)
  moreover have "steps s (dispatch_with prop t tgt k' ps' ?u)" for t tgt k' ps'
    using assms(3) links_ok_evolves [OF u assms(2)] pend_evolves [OF u]
    by (intro steps_from [OF u] dispatch_steps [OF assms(1)]) auto
  ultimately show ?thesis using v by (simp add: dispatch_sub_task_with_def Let_def)
qed

lemma dispatch_group_steps:
  assumes "good_prop m prop" "links_ok s" "pend s < m"
  shows "steps s (dispatch_group_sub_tasks_with prop g k ps subs s)"
  unfolding dispatch_group_sub_tasks_with_def
proof (rule steps_foldR)
  fix x s' assume e: "evolves s s'"
  show "steps s' (dispatch_sub_task_with prop g k ps (length subs) x s')"
    using assms(3) links_ok_evolves [OF e assms(2)] pend_evolves [OF e]
    by (intro dispatch_sub_task_steps [OF assms(1)]) auto
qed

lemma check_consumer_steps:
  assumes "good_prop m prop" "links_ok s" "pend s \<le> m"
  shows "steps s (check_consumer_with prop c s)"
proof (cases "td_status (o_get s c) = PENDING \<and> td_is_group (o_get s c)")
  case True
  let ?u = "set_status RUNNING c s"
  have e: "evolves s ?u" using True by (simp add: evolves_set_status)
  have lt: "pend ?u < m" using pend_start [OF assms(2), of c RUNNING] True assms(3) by simp
  have "steps s (bindR (dispatch_group_sub_tasks_with prop c k ps subs ?u)
      (\<lambda>s. Inr (s\<lparr>o_pending_group_specs := (o_pending_group_specs s)(c := None)\<rparr>)))" for k ps subs
    by (rule steps_bind [OF steps_from [OF e dispatch_group_steps [OF assms(1) links_ok_evolves [OF e assms(2)] lt]]])
      (simp add: evolves_ghost)
  then show ?thesis using True e by (auto simp: check_consumer_with_def Let_def split: option.splits)
qed (auto simp: check_consumer_with_def Let_def evolves_set_status)

lemma propagate_fuel_good: "good_prop n (propagate_fuel n)"
proof (induction n)
  case 0
  then show ?case by (simp add: good_prop_def)
next
  case (Suc n)
  have "steps s (propagate_fuel (Suc n) t s)" if ok: "links_ok s" "pend s < Suc n" for t s
  proof -
    have c: "steps u (check_consumers_ready_with (propagate_fuel n) t u)" if "evolves s u" for u
      unfolding check_consumers_ready_with_def each_foldR(2) [OF links_ok_evolves [OF that ok(1)]]
    proof (rule steps_foldR)
      fix x v assume "evolves u v"
      then have e: "evolves s v" using evolves_trans that by blast
      show "steps v (check_consumer_with (propagate_fuel n) x v)"
        using links_ok_evolves [OF e ok(1)] pend_evolves [OF e] ok(2)
        by (intro check_consumer_steps [OF Suc]) auto
    qed
    have b: "steps u (dep_for_each (o_dep_pool u) notify_consumer (td_fanout_list_head (o_get u t)) u)"
      if "evolves s u" for u
      unfolding each_foldR(2) [OF links_ok_evolves [OF that ok(1)]]
      by (rule steps_foldR) (rule notify_consumer_steps)
    have a: "steps s (dep_for_each (o_dep_pool s) release_producer (td_dep_list_head (o_get s t)) s)"
      unfolding each_foldR(1) [OF ok(1)] by (rule steps_foldR) (rule release_producer_steps)
    show ?thesis unfolding propagate_fuel.simps
      by (intro steps_bind a; (rule b c)?; (intro steps_bind)?)
        (auto intro: b c evolves_trans steps_bind evolves_check_consumed)
  qed
  then show ?case by (simp add: good_prop_def)
qed

lemma pend_fuel: "pend s < o_fuel s"
  by (simp add: pend_def o_fuel_def le_imp_less_Suc)

lemma propagate_steps: "links_ok s \<Longrightarrow> steps s (propagate_completion t s)"
  using propagate_fuel_good [of "o_fuel s"] pend_fuel [of s]
  by (simp add: propagate_completion_def good_prop_def)

section \<open>Retirement\<close>

lemma advance_cursor_spec:
  "k \<le> advance_cursor r n k \<and> advance_cursor r n k \<le> k + int n \<and>
   (\<forall>i. k \<le> i \<and> i < advance_cursor r n k \<longrightarrow> td_status (task_get r i) = CONSUMED) \<and>
   (advance_cursor r n k < k + int n \<longrightarrow> td_status (task_get r (advance_cursor r n k)) \<noteq> CONSUMED)"
proof (induction n arbitrary: k)
  case (Suc n)
  show ?case
  proof (cases "td_status (task_get r k) = CONSUMED")
    case True
    note IH = Suc [of "k + 1"]
    have "td_status (task_get r i) = CONSUMED" if "k \<le> i" "i < advance_cursor r n (k + 1)" for i
      using IH that True by (cases "i = k") auto
    with IH True show ?thesis by auto
  qed auto
qed auto

text \<open>The id up to which the oldest tasks are consumed.\<close>

definition retire_point :: "orch \<Rightarrow> i32" where
  "retire_point s = (let r = o_task_ring s in
     advance_cursor r (nat (tr_current_index r - tr_last_task_alive r)) (tr_last_task_alive r))"

lemma retire_point_spec:
  assumes "ring_wf (o_task_ring s)"
  shows "tr_last_task_alive (o_task_ring s) \<le> retire_point s" "retire_point s \<le> tr_current_index (o_task_ring s)"
    "\<And>i. tr_last_task_alive (o_task_ring s) \<le> i \<Longrightarrow> i < retire_point s \<Longrightarrow> td_status (o_get s i) = CONSUMED"
    "retire_point s < tr_current_index (o_task_ring s) \<Longrightarrow> td_status (o_get s (retire_point s)) \<noteq> CONSUMED"
  using advance_cursor_spec [of "tr_last_task_alive (o_task_ring s)" "o_task_ring s"
      "nat (tr_current_index (o_task_ring s) - tr_last_task_alive (o_task_ring s))"] assms
  by (auto simp: retire_point_def Let_def ring_wf_def o_get_def)

lemma try_advance_eq:
  assumes "ring_wf (o_task_ring s)" "\<not> o_scheduler_mu s"
  defines "c \<equiv> retire_point s" and "alive \<equiv> tr_last_task_alive (o_task_ring s)"
  shows "try_advance_ring_pointers s = Inr (s\<lparr>
     o_task_retire_count := o_task_retire_count s + nat (c - alive),
     o_task_ring := set_last_task_alive c (o_task_ring s),
     o_tensor_map := (if alive < c then tm_invalidate_below c (o_tensor_map s) else o_tensor_map s),
     o_heap_ring := (if alive < c \<and> hr_tail (o_heap_ring s) < td_heap_end (o_get s (c - 1))
       then heap_retire_to (td_heap_end (o_get s (c - 1))) (o_heap_ring s) else o_heap_ring s)\<rparr>)"
proof (cases "alive < c")
  case True
  moreover have "0 \<le> alive" using assms(1) by (simp add: alive_def ring_wf_def)
  moreover have "o_get (s\<lparr>o_task_retire_count := n, o_task_ring := set_last_task_alive v (o_task_ring s),
      o_tensor_map := tm\<rparr>) i = o_get s i" for n v tm i by (simp add: o_get_def)
  ultimately show ?thesis using assms(2)
    by (simp add: try_advance_ring_pointers_def Let_def c_def alive_def retire_point_def)
next
  case False
  then have "c = alive" using retire_point_spec(1) [OF assms(1)] by (simp add: c_def alive_def)
  then show ?thesis using assms(2)
    by (simp add: try_advance_ring_pointers_def Let_def c_def alive_def retire_point_def set_last_task_alive_def)
qed

lemma try_advance_idle:
  assumes "ring_wf (o_task_ring s)" "\<not> o_scheduler_mu s" "retire_point s = tr_last_task_alive (o_task_ring s)"
  shows "try_advance_ring_pointers s = Inr s"
  using try_advance_eq [OF assms(1,2)] assms(3) by (simp add: set_last_task_alive_def)

lemma retire_point_blocked:
  assumes "ring_wf (o_task_ring s)" "td_status (o_get s (tr_last_task_alive (o_task_ring s))) \<noteq> CONSUMED"
  shows "retire_point s = tr_last_task_alive (o_task_ring s)"
  using retire_point_spec(1,3) [OF assms(1)] assms(2) by force

lemma wait_task_space_blocked:
  assumes "ring_wf (o_task_ring s)" "\<not> o_scheduler_mu s" "\<not> has_space (o_task_ring s)"
    "retire_point s = tr_last_task_alive (o_task_ring s)"
  shows "wait_task_space n [] s = Inl AssertFail"
  using try_advance_idle [OF assms(1,2,4)] assms(3) by (induction n) (simp_all add: deliver_def)

lemma wait_heap_space_blocked:
  assumes "ring_wf (o_task_ring s)" "\<not> o_scheduler_mu s" "heap_try_alloc sz (o_heap_ring s) = None"
    "retire_point s = tr_last_task_alive (o_task_ring s)"
  shows "wait_heap_space n [] sz s = Inl AssertFail"
  using try_advance_idle [OF assms(1,2,4)] assms(3) by (induction n) (simp_all add: deliver_def)

section \<open>Properties\<close>





text \<open>Back-pressure. When the window is full, a submission waits in a loop that retires consumed tasks.
  If no completion arrives meanwhile, the wait succeeds exactly when the oldest task is already
  consumed; otherwise the \<^verbatim>\<open>assert\<close> after ten seconds stops the program.\<close>

theorem back_pressure_quiet:
  assumes "ring_wf (o_task_ring s)" "\<not> o_scheduler_mu s" "\<not> has_space (o_task_ring s)"
  shows "(td_status (o_get s (tr_last_task_alive (o_task_ring s))) = CONSUMED \<longrightarrow>
      (\<exists>s'. back_pressure [] s = Inr s' \<and> has_space (o_task_ring s') \<and> ring_wf (o_task_ring s'))) \<and>
    (td_status (o_get s (tr_last_task_alive (o_task_ring s))) \<noteq> CONSUMED \<longrightarrow>
      back_pressure [] s = Inl AssertFail \<and> submit_task [] tgt k ps s = Inl AssertFail \<and>
      submit_task_group [] k ps subs s = Inl AssertFail)"
proof -
  let ?b = "s\<lparr>o_task_block_count := o_task_block_count s + 1\<rparr>"
  have b: "ring_wf (o_task_ring ?b)" "\<not> o_scheduler_mu ?b" "\<not> has_space (o_task_ring ?b)"
    "retire_point ?b = retire_point s" "\<And>i. o_get ?b i = o_get s i"
    using assms by (simp_all add: retire_point_def o_get_def)
  have bp: "back_pressure [] s = wait_task_space MAX_SPINS [] ?b" using assms(3) by (simp add: back_pressure_def)
  have "\<exists>s'. wait_task_space n [] ?b = Inr s' \<and> has_space (o_task_ring s') \<and> ring_wf (o_task_ring s')"
    if "td_status (o_get s (tr_last_task_alive (o_task_ring s))) = CONSUMED" for n
  proof -
    have "tr_last_task_alive (o_task_ring s) < retire_point s"
    proof (rule ccontr)
      assume "\<not> ?thesis"
      then have "retire_point s = tr_last_task_alive (o_task_ring s)"
        using retire_point_spec(1) [OF assms(1)] by simp
      moreover have "tr_last_task_alive (o_task_ring s) < tr_current_index (o_task_ring s)"
        using assms(1,3) by (simp add: has_space_def active_count_def ring_wf_def)
      ultimately show False using retire_point_spec(4) [OF assms(1)] that by simp
    qed
    then have "has_space (set_last_task_alive (retire_point s) (o_task_ring s))"
      using assms(1) by (auto simp: has_space_def active_count_def ring_wf_def)
    moreover have "ring_wf (set_last_task_alive (retire_point s) (o_task_ring s))"
      using retire_point_spec(1,2) [OF assms(1)] assms(1) by (intro wf_intros)
    ultimately show ?thesis using b(3,4) try_advance_eq [OF b(1,2)] by (cases n) simp_all
  qed
  moreover have "back_pressure [] s = Inl AssertFail"
    if "td_status (o_get s (tr_last_task_alive (o_task_ring s))) \<noteq> CONSUMED"
    unfolding bp using b that by (intro wait_task_space_blocked retire_point_blocked) (auto simp: o_get_def)
  ultimately show ?thesis unfolding bp [symmetric] by (auto simp: submit_task_def submit_task_group_def bp)
qed

text \<open>A tensor allocation can stop the program on an empty heap. When every task is retired and all
  heap space given back, \<^verbatim>\<open>alloc_tensor\<close> of a size that fits the heap but neither behind nor before the
  current position spins until the \<^verbatim>\<open>assert\<close>, because nothing is left to retire; every other nonzero
  size succeeds at once.\<close>

theorem alloc_tensor_drained:
  assumes "ring_wf (o_task_ring s)" "\<not> o_scheduler_mu s"
    "tr_last_task_alive (o_task_ring s) = tr_current_index (o_task_ring s)"
    "heap_wf (o_heap_ring s)" "heap_headroom (o_heap_ring s)" "hr_top (o_heap_ring s) = hr_tail (o_heap_ring s)"
    "0 < unat sz"
  shows "alloc_tensor [] tgt sz s = Inl AssertFail \<longleftrightarrow>
    (let c = unat (hr_capacity (o_heap_ring s)); m = unat (hr_top (o_heap_ring s)) mod c in
     c < m + unat sz \<and> m < unat sz)"
proof -
  let ?c = "unat (hr_capacity (o_heap_ring s))"
  let ?m = "unat (hr_top (o_heap_ring s)) mod ?c"
  let ?t = "s\<lparr>o_next_tensor_handle := o_next_tensor_handle s + 1\<rparr>"
  let ?s = "?t\<lparr>o_heap_block_count := o_heap_block_count ?t + 1\<rparr>"
  have none: "heap_try_alloc sz (o_heap_ring s) = None \<longleftrightarrow> ?c < ?m + unat sz \<and> ?m < unat sz"
    using heap_drained_none [OF assms(4-6), of sz] assms(7) by simp
  have sz: "0 < sz" using assms(7) by (simp add: word_less_nat_alt)
  have "retire_point ?s = tr_last_task_alive (o_task_ring ?s)"
    using assms(3) by (simp add: retire_point_def Let_def)
  then have "wait_heap_space n [] sz ?s = Inl AssertFail" if "heap_try_alloc sz (o_heap_ring s) = None" for n
    using assms(1,2) that by (intro wait_heap_space_blocked) auto
  then show ?thesis using none sz
    by (cases "heap_try_alloc sz (o_heap_ring s)") (auto simp: alloc_tensor_def Let_def)
qed

end
