(* ===== verification/Orch_Submission.thy ===== *)
theory Orch_Submission
  imports Orch_Completion
begin

text \<open>
  Submission in \<^verbatim>\<open>LinquOrchestratorState\<close>: the dependency edges that \<^verbatim>\<open>submit_task\<close> and
  \<^verbatim>\<open>submit_task_group\<close> build are the edges of the data flow, for any parameter list; and what the two
  functions then do with them.
\<close>

section \<open>The edges of a state\<close>

definition deps :: "orch \<Rightarrow> i32 \<Rightarrow> i32 list" where
  "deps s i = dep_list (o_dep_pool s) (td_dep_list_head (o_get s i))"

definition outs :: "orch \<Rightarrow> i32 \<Rightarrow> i32 list" where
  "outs s i = dep_list (o_dep_pool s) (td_fanout_list_head (o_get s i))"

definition live :: "orch \<Rightarrow> i32 \<Rightarrow> bool" where
  "live s i \<longleftrightarrow> task_live (o_task_ring s) i"

text \<open>A descriptor without its edges.\<close>

definition bare :: "task_desc \<Rightarrow> task_desc" where
  "bare d = d\<lparr>td_dep_list_head := 0, td_fanout_list_head := 0, td_fanout_count := 0\<rparr>"

text \<open>Registration touches descriptors, the dependency pool and the tensor map only.\<close>

definition link_frame :: "orch \<Rightarrow> orch \<Rightarrow> bool" where
  "link_frame s s' \<longleftrightarrow>
     s'\<lparr>o_task_ring := o_task_ring s, o_dep_pool := o_dep_pool s, o_tensor_map := o_tensor_map s\<rparr> = s \<and>
     (o_task_ring s')\<lparr>tr_descriptors := tr_descriptors (o_task_ring s)\<rparr> = o_task_ring s"

lemma link_frame_refl [simp]: "link_frame s s"
  by (simp add: link_frame_def)

lemma link_frame_trans: "link_frame a b \<Longrightarrow> link_frame b c \<Longrightarrow> link_frame a c"
  by (cases a; cases b; cases c; cases "o_task_ring a"; cases "o_task_ring b"; cases "o_task_ring c")
    (auto simp: link_frame_def)

lemma link_frame_upd: "link_frame s (o_upd i f s)"
  by (simp add: link_frame_def o_upd_def task_upd_def)

lemma link_frame_pool: "link_frame s (s\<lparr>o_dep_pool := p\<rparr>)" "link_frame s (s\<lparr>o_tensor_map := m\<rparr>)"
  by (simp_all add: link_frame_def)

lemma link_frameD:
  assumes "link_frame s s'"
  shows "tr_current_index (o_task_ring s') = tr_current_index (o_task_ring s)"
    "tr_last_task_alive (o_task_ring s') = tr_last_task_alive (o_task_ring s)"
    "tr_window_size (o_task_ring s') = tr_window_size (o_task_ring s)"
    "o_dispatcher s' = o_dispatcher s" "o_scheduler_mu s' = o_scheduler_mu s" "o_heap_ring s' = o_heap_ring s"
    "o_scope_stack s' = o_scope_stack s" "o_calls s' = o_calls s" "o_dispatch_fn s' = o_dispatch_fn s"
    "o_pending_group_specs s' = o_pending_group_specs s"
    "o_sub_dispatch_to_group s' = o_sub_dispatch_to_group s" "o_next_sub_dispatch_id s' = o_next_sub_dispatch_id s"
  using assms by (cases s; cases s'; cases "o_task_ring s"; cases "o_task_ring s'"; simp add: link_frame_def)+

lemma link_frame_live: "link_frame s s' \<Longrightarrow> live s' i \<longleftrightarrow> live s i"
  by (simp add: live_def task_live_def link_frameD)

section \<open>Updating one descriptor\<close>

lemma o_upd_simps [simp]:
  "o_dep_pool (o_upd i f s) = o_dep_pool s" "o_tensor_map (o_upd i f s) = o_tensor_map s"
  "o_heap_ring (o_upd i f s) = o_heap_ring s" "o_scope_stack (o_upd i f s) = o_scope_stack s"
  "o_dispatcher (o_upd i f s) = o_dispatcher s" "o_scheduler_mu (o_upd i f s) = o_scheduler_mu s"
  "o_calls (o_upd i f s) = o_calls s" "o_dispatch_fn (o_upd i f s) = o_dispatch_fn s"
  "ring_wf (o_task_ring (o_upd i f s)) = ring_wf (o_task_ring s)" "live (o_upd i f s) j = live s j"
  by (simp_all add: o_upd_def live_def)

lemma o_get_pool [simp]:
  "o_get (s\<lparr>o_dep_pool := p\<rparr>) i = o_get s i" "o_get (s\<lparr>o_tensor_map := m\<rparr>) i = o_get s i"
  "live (s\<lparr>o_dep_pool := p\<rparr>) i = live s i" "live (s\<lparr>o_tensor_map := m\<rparr>) i = live s i"
  by (simp_all add: o_get_def live_def)

lemma o_get_upd:
  "ring_wf (o_task_ring s) \<Longrightarrow> live s i \<Longrightarrow> live s j \<Longrightarrow>
   o_get (o_upd i f s) j = (if i = j then f (o_get s j) else o_get s j)"
  by (simp add: o_get_def o_upd_def live_def task_get_upd_live)

lemma heads_ok_upd:
  assumes "heads_ok s" "dep_head_ok (o_dep_pool s) (td_dep_list_head (f (o_get s i)))"
    "dep_head_ok (o_dep_pool s) (td_fanout_list_head (f (o_get s i)))"
  shows "heads_ok (o_upd i f s)"
  using assms set_update_subset_insert
  unfolding heads_ok_def o_upd_def task_upd_def o_get_def by fastforce

lemma links_ok_upd:
  assumes "links_ok s" "dep_head_ok (o_dep_pool s) (td_dep_list_head (f (o_get s i)))"
    "dep_head_ok (o_dep_pool s) (td_fanout_list_head (f (o_get s i)))"
  shows "links_ok (o_upd i f s)"
  using assms heads_ok_upd by (auto simp: links_ok_def)

lemma links_ok_prepend:
  assumes "links_ok s" "dep_head_ok (o_dep_pool s) h" "dep_prepend h t (o_dep_pool s) = Inr (h', p)"
  shows "links_ok (s\<lparr>o_dep_pool := p\<rparr>)" "dep_head_ok p h'"
    "deps (s\<lparr>o_dep_pool := p\<rparr>) i = deps s i" "outs (s\<lparr>o_dep_pool := p\<rparr>) i = outs s i"
    "dep_list p h' = t # dep_list (o_dep_pool s) h" "dep_available p = dep_available (o_dep_pool s) - 1"
proof -
  have wf: "dep_wf (o_dep_pool s)" using assms(1) by (simp add: links_ok_def)
  note d = dep.prepend_InrD [OF wf assms(2,3)]
  show "links_ok (s\<lparr>o_dep_pool := p\<rparr>)" using assms(1) d(1,5) by (simp add: links_ok_def heads_ok_def)
  show "dep_head_ok p h'" "dep_list p h' = t # dep_list (o_dep_pool s) h"
    "dep_available p = dep_available (o_dep_pool s) - 1" by (fact d)+
  show "deps (s\<lparr>o_dep_pool := p\<rparr>) i = deps s i" "outs (s\<lparr>o_dep_pool := p\<rparr>) i = outs s i"
    using d(5) heads_okD [OF assms(1)] by (simp_all add: deps_def outs_def)
qed

lemma edges_upd:
  assumes "ring_wf (o_task_ring s)" "live s i" "live s j"
  shows "deps (o_upd i f s) j = (if i = j then dep_list (o_dep_pool s) (td_dep_list_head (f (o_get s j))) else deps s j)"
    "outs (o_upd i f s) j = (if i = j then dep_list (o_dep_pool s) (td_fanout_list_head (f (o_get s j))) else outs s j)"
  using o_get_upd [OF assms] by (simp_all add: deps_def outs_def)

section \<open>Adding an edge\<close>

lemma prepend_room_obtain:
  assumes "links_ok s" "dep_head_ok (o_dep_pool s) h" "0 < dep_available (o_dep_pool s)"
  obtains h' p where "dep_prepend h t (o_dep_pool s) = Inr (h', p)"
  using dep.prepend_room [of "o_dep_pool s" h t] assms by (auto simp: links_ok_def)

text \<open>The two halves of \<open>add_edge\<close>: the new cell on the consumer's fan-in chain, then the producer's
  count and the new cell on its fan-out chain.\<close>

lemma fanin_half:
  assumes "links_ok s" "live s tid" "0 < dep_available (o_dep_pool s)"
  shows "\<exists>h p s'. dep_prepend (td_dep_list_head (o_get s tid)) q (o_dep_pool s) = Inr (h, p) \<and>
    s' = o_upd tid (\<lambda>d. d\<lparr>td_dep_list_head := h\<rparr>) (s\<lparr>o_dep_pool := p\<rparr>) \<and>
    links_ok s' \<and> link_frame s s' \<and> o_tensor_map s' = o_tensor_map s \<and>
    dep_available (o_dep_pool s') = dep_available (o_dep_pool s) - 1 \<and>
    (\<forall>i. live s i \<longrightarrow> deps s' i = (if i = tid then [q] else []) @ deps s i \<and> outs s' i = outs s i \<and>
       td_fanout_count (o_get s' i) = td_fanout_count (o_get s i) \<and> bare (o_get s' i) = bare (o_get s i))"
proof -
  have wf: "ring_wf (o_task_ring s)" using assms(1) by (simp add: links_ok_def)
  note hd = heads_okD(1) [OF assms(1), of tid]
  obtain h p where 1: "dep_prepend (td_dep_list_head (o_get s tid)) q (o_dep_pool s) = Inr (h, p)"
    by (rule prepend_room_obtain [OF assms(1) hd assms(3)])
  note d = links_ok_prepend [OF assms(1) hd 1]
  let ?s1 = "s\<lparr>o_dep_pool := p\<rparr>"
  let ?s2 = "o_upd tid (\<lambda>d. d\<lparr>td_dep_list_head := h\<rparr>) ?s1"
  have ok: "links_ok ?s2" using d(2) heads_okD(2) [OF d(1), of tid] by (intro links_ok_upd d(1)) auto
  have fr: "link_frame s ?s2" by (rule link_frame_trans [OF link_frame_pool(1) link_frame_upd])
  have l: "live ?s1 tid" "ring_wf (o_task_ring ?s1)" using assms(2) wf by auto
  have "deps ?s2 i = (if i = tid then [q] else []) @ deps s i \<and> outs ?s2 i = outs s i \<and>
       td_fanout_count (o_get ?s2 i) = td_fanout_count (o_get s i) \<and> bare (o_get ?s2 i) = bare (o_get s i)"
    if "live s i" for i
  proof -
    have i: "live ?s1 i" using that by simp
    have "deps s tid = dep_list (o_dep_pool s) (td_dep_list_head (o_get s tid))" by (simp add: deps_def)
    moreover have "outs ?s1 i = dep_list p (td_fanout_list_head (o_get s i))" by (simp add: outs_def)
    ultimately show ?thesis
      using edges_upd [OF l(2,1) i] o_get_upd [OF l(2,1) i] d(3,4,5) by (auto simp: bare_def)
  qed
  with 1 ok fr d(6) show ?thesis by (intro exI [of _ h] exI [of _ p] exI [of _ ?s2]) auto
qed

lemma fanout_half:
  assumes "links_ok s" "live s q" "0 < dep_available (o_dep_pool s)"
  shows "\<exists>h p s'. dep_prepend (td_fanout_list_head (o_get s q)) tid (o_dep_pool s) = Inr (h, p) \<and>
    s' = o_upd q (\<lambda>d. d\<lparr>td_fanout_list_head := h\<rparr>) (s\<lparr>o_dep_pool := p\<rparr>) \<and>
    links_ok s' \<and> link_frame s s' \<and> o_tensor_map s' = o_tensor_map s \<and>
    dep_available (o_dep_pool s') = dep_available (o_dep_pool s) - 1 \<and>
    (\<forall>i. live s i \<longrightarrow> outs s' i = (if i = q then [tid] else []) @ outs s i \<and> deps s' i = deps s i \<and>
       td_fanout_count (o_get s' i) = td_fanout_count (o_get s i) \<and> bare (o_get s' i) = bare (o_get s i))"
proof -
  have wf: "ring_wf (o_task_ring s)" using assms(1) by (simp add: links_ok_def)
  note hd = heads_okD(2) [OF assms(1), of q]
  obtain h p where 1: "dep_prepend (td_fanout_list_head (o_get s q)) tid (o_dep_pool s) = Inr (h, p)"
    by (rule prepend_room_obtain [OF assms(1) hd assms(3)])
  note d = links_ok_prepend [OF assms(1) hd 1]
  let ?s1 = "s\<lparr>o_dep_pool := p\<rparr>"
  let ?s2 = "o_upd q (\<lambda>d. d\<lparr>td_fanout_list_head := h\<rparr>) ?s1"
  have ok: "links_ok ?s2" using d(2) heads_okD(1) [OF d(1), of q] by (intro links_ok_upd d(1)) auto
  have fr: "link_frame s ?s2" by (rule link_frame_trans [OF link_frame_pool(1) link_frame_upd])
  have l: "live ?s1 q" "ring_wf (o_task_ring ?s1)" using assms(2) wf by auto
  have "outs ?s2 i = (if i = q then [tid] else []) @ outs s i \<and> deps ?s2 i = deps s i \<and>
       td_fanout_count (o_get ?s2 i) = td_fanout_count (o_get s i) \<and> bare (o_get ?s2 i) = bare (o_get s i)"
    if "live s i" for i
  proof -
    have i: "live ?s1 i" using that by simp
    have "outs s q = dep_list (o_dep_pool s) (td_fanout_list_head (o_get s q))" by (simp add: outs_def)
    moreover have "deps ?s1 i = dep_list p (td_dep_list_head (o_get s i))" by (simp add: deps_def)
    ultimately show ?thesis
      using edges_upd [OF l(2,1) i] o_get_upd [OF l(2,1) i] d(3,4,5) by (auto simp: bare_def)
  qed
  with 1 ok fr d(6) show ?thesis by (intro exI [of _ h] exI [of _ p] exI [of _ ?s2]) auto
qed

lemma add_edge_ok:
  assumes "links_ok s" "live s tid" "live s q" "2 \<le> dep_available (o_dep_pool s)"
  shows "\<exists>s'. add_edge tid q s = Inr s' \<and> links_ok s' \<and> link_frame s s' \<and> o_tensor_map s' = o_tensor_map s \<and>
    dep_available (o_dep_pool s') = dep_available (o_dep_pool s) - 2 \<and>
    (\<forall>i. live s i \<longrightarrow> deps s' i = (if i = tid then [q] else []) @ deps s i \<and>
       outs s' i = (if i = q then [tid] else []) @ outs s i \<and>
       td_fanout_count (o_get s' i) = td_fanout_count (o_get s i) + (if i = q then 1 else 0) \<and>
       bare (o_get s' i) = bare (o_get s i))"
proof -
  from assms(4) have "0 < dep_available (o_dep_pool s)" by simp
  from fanin_half [OF assms(1,2) this] obtain h p s1 where
    1: "dep_prepend (td_dep_list_head (o_get s tid)) q (o_dep_pool s) = Inr (h, p)"
      "s1 = o_upd tid (\<lambda>d. d\<lparr>td_dep_list_head := h\<rparr>) (s\<lparr>o_dep_pool := p\<rparr>)"
      "links_ok s1" "link_frame s s1" "o_tensor_map s1 = o_tensor_map s"
      "dep_available (o_dep_pool s1) = dep_available (o_dep_pool s) - 1"
    and e1: "\<forall>i. live s i \<longrightarrow> deps s1 i = (if i = tid then [q] else []) @ deps s i \<and> outs s1 i = outs s i \<and>
       td_fanout_count (o_get s1 i) = td_fanout_count (o_get s i) \<and> bare (o_get s1 i) = bare (o_get s i)" by blast
  have live1: "live s1 i \<longleftrightarrow> live s i" for i by (rule link_frame_live [OF 1(4)])
  let ?s2 = "o_upd q (\<lambda>d. d\<lparr>td_fanout_count := td_fanout_count d + 1\<rparr>) s1"
  have wf1: "ring_wf (o_task_ring s1)" using 1(3) by (simp add: links_ok_def)
  have ok2: "links_ok ?s2" using heads_okD [OF 1(3), of q] by (intro links_ok_upd 1(3)) auto
  have q1: "live s1 q" using live1 assms(3) by simp
  have e2: "deps ?s2 i = deps s1 i \<and> outs ?s2 i = outs s1 i \<and> bare (o_get ?s2 i) = bare (o_get s1 i) \<and>
      td_fanout_count (o_get ?s2 i) = td_fanout_count (o_get s1 i) + (if i = q then 1 else 0)" if "live s i" for i
  proof -
    have i: "live s1 i" using that live1 by simp
    show ?thesis using edges_upd [OF wf1 q1 i] o_get_upd [OF wf1 q1 i] by (auto simp: bare_def deps_def outs_def)
  qed
  have "live ?s2 q" "0 < dep_available (o_dep_pool ?s2)" using q1 1(6) assms(4) by auto
  from fanout_half [OF ok2 this] obtain h' p' s3 where
    3: "dep_prepend (td_fanout_list_head (o_get ?s2 q)) tid (o_dep_pool ?s2) = Inr (h', p')"
      "s3 = o_upd q (\<lambda>d. d\<lparr>td_fanout_list_head := h'\<rparr>) (?s2\<lparr>o_dep_pool := p'\<rparr>)"
      "links_ok s3" "link_frame ?s2 s3" "o_tensor_map s3 = o_tensor_map ?s2"
      "dep_available (o_dep_pool s3) = dep_available (o_dep_pool ?s2) - 1"
    and e3: "\<forall>i. live ?s2 i \<longrightarrow> outs s3 i = (if i = q then [tid] else []) @ outs ?s2 i \<and> deps s3 i = deps ?s2 i \<and>
       td_fanout_count (o_get s3 i) = td_fanout_count (o_get ?s2 i) \<and> bare (o_get s3 i) = bare (o_get ?s2 i)" by blast
  have "add_edge tid q s = Inr s3" unfolding add_edge_def using 1(1,2) 3(1,2) by (simp add: Let_def)
  moreover have "link_frame s s3" by (rule link_frame_trans [OF 1(4) link_frame_trans [OF link_frame_upd 3(4)]])
  moreover have "deps s3 i = (if i = tid then [q] else []) @ deps s i \<and>
       outs s3 i = (if i = q then [tid] else []) @ outs s i \<and>
       td_fanout_count (o_get s3 i) = td_fanout_count (o_get s i) + (if i = q then 1 else 0) \<and>
       bare (o_get s3 i) = bare (o_get s i)" if "live s i" for i
    using e1 e2 [OF that] e3 that live1 [of i] by simp
  ultimately show ?thesis using 1(5,6) 3(3,5,6) by (intro exI [of _ s3]) auto
qed

section \<open>The data flow of a parameter list\<close>

text \<open>
  The specification: \<open>m\<close> maps a handle to its latest producer. Reading a handle depends on that
  producer, writing it makes \<open>tid\<close> the producer; the parameters act from left to right. The result is
  the list of producers, in order, and the new map.
\<close>

definition reads :: "linqu_param \<Rightarrow> bool" where
  "reads p \<longleftrightarrow> p_type p = PARAM_INPUT \<or> p_type p = PARAM_INOUT"

definition writes :: "linqu_param \<Rightarrow> bool" where
  "writes p \<longleftrightarrow> p_type p = PARAM_OUTPUT \<or> p_type p = PARAM_INOUT"

fun dataflow :: "i32 \<Rightarrow> linqu_param list \<Rightarrow> (u64 \<Rightarrow> i32 option) \<Rightarrow> i32 list \<times> (u64 \<Rightarrow> i32 option)" where
  "dataflow tid [] m = ([], m)"
| "dataflow tid (p # ps) m =
     (let here = (if reads p then (case m (p_handle p) of None \<Rightarrow> [] | Some q \<Rightarrow> [q]) else []);
          (later, m') = dataflow tid ps (if writes p then m(p_handle p \<mapsto> tid) else m)
      in (here @ later, m'))"

definition edges_added :: "i32 \<Rightarrow> i32 list \<Rightarrow> orch \<Rightarrow> orch \<Rightarrow> bool" where
  "edges_added tid qs s s' \<longleftrightarrow> (\<forall>i. live s i \<longrightarrow>
     deps s' i = (if i = tid then rev qs else []) @ deps s i \<and>
     outs s' i = replicate (count_list qs i) tid @ outs s i \<and>
     td_fanout_count (o_get s' i) = td_fanout_count (o_get s i) + count_list qs i \<and>
     bare (o_get s' i) = bare (o_get s i))"

lemma edges_added_Nil [simp]: "edges_added tid [] s s"
  by (simp add: edges_added_def)

lemma edges_added_map [simp]: "edges_added tid qs s (s'\<lparr>o_tensor_map := m\<rparr>) = edges_added tid qs s s'"
  by (simp add: edges_added_def deps_def outs_def)

lemma edges_added_append:
  assumes "edges_added tid qs s s'" "edges_added tid qs' s' s''" "link_frame s s'"
  shows "edges_added tid (qs @ qs') s s''"
  using assms link_frame_live [OF assms(3)]
  by (auto simp: edges_added_def replicate_add [symmetric] add.commute)

text \<open>What registration keeps while it runs for the newest task \<open>tid\<close>.\<close>

definition linking :: "i32 \<Rightarrow> orch \<Rightarrow> bool" where
  "linking tid s \<longleftrightarrow> links_ok s \<and> live s tid \<and> tr_current_index (o_task_ring s) = tid + 1 \<and>
     tm_inv (o_tensor_map s) tid \<and> tm_last_task_alive (o_tensor_map s) = tr_last_task_alive (o_task_ring s)"

lemma link_reads:
  assumes "linking tid s" "2 \<le> dep_available (o_dep_pool s)"
  shows "\<exists>s'. bindR (tm_lookup h (o_tensor_map s)) (\<lambda>r. case r of
              None \<Rightarrow> Inr (n, s) | Some q \<Rightarrow> bindR (add_edge tid q s) (\<lambda>s. Inr (n + 1, s))) =
      Inr (n + length (case tm_abs (o_tensor_map s) h of None \<Rightarrow> [] | Some q \<Rightarrow> [q]), s') \<and>
    linking tid s' \<and> link_frame s s' \<and> o_tensor_map s' = o_tensor_map s \<and>
    dep_available (o_dep_pool s) - 2 \<le> dep_available (o_dep_pool s') \<and>
    edges_added tid (case tm_abs (o_tensor_map s) h of None \<Rightarrow> [] | Some q \<Rightarrow> [q]) s s'"
proof -
  have inv: "tm_inv (o_tensor_map s) tid" using assms(1) unfolding linking_def by blast
  note look = tm_index.lookup_abs [OF inv, of h]
  show ?thesis
  proof (cases "tm_abs (o_tensor_map s) h")
    case None
    with look assms(1) show ?thesis by simp
  next
    case (Some q)
    have "live s q" using tm_abs_range [OF inv Some] assms(1)
      by (auto simp: linking_def live_def task_live_def)
    with add_edge_ok [of s tid q] assms obtain s' where
      s': "add_edge tid q s = Inr s'" "links_ok s'" "link_frame s s'" "o_tensor_map s' = o_tensor_map s"
        "dep_available (o_dep_pool s') = dep_available (o_dep_pool s) - 2"
      and e: "\<forall>i. live s i \<longrightarrow> deps s' i = (if i = tid then [q] else []) @ deps s i \<and>
        outs s' i = (if i = q then [tid] else []) @ outs s i \<and>
        td_fanout_count (o_get s' i) = td_fanout_count (o_get s i) + (if i = q then 1 else 0) \<and>
        bare (o_get s' i) = bare (o_get s i)" by (auto simp: linking_def)
    have "linking tid s'"
      using assms(1) s'(2,4) link_frameD(1,2) [OF s'(3)] link_frame_live [OF s'(3)] by (simp add: linking_def)
    moreover have "edges_added tid [q] s s'" using e by (auto simp: edges_added_def)
    ultimately show ?thesis using look Some s' by auto
  qed
qed

lemma link_writes:
  assumes "linking tid s" "0 < tm_room (o_tensor_map s)"
  shows "\<exists>tm. tm_insert h tid True (o_tensor_map s) = Inr tm \<and> linking tid (s\<lparr>o_tensor_map := tm\<rparr>) \<and>
    tm_abs tm = (tm_abs (o_tensor_map s))(h \<mapsto> tid) \<and> tm_room tm = tm_room (o_tensor_map s) - 1"
proof -
  have "tm_inv (o_tensor_map s) tid" "tm_last_task_alive (o_tensor_map s) \<le> tid"
    using assms(1) by (auto simp: linking_def live_def task_live_def)
  from tm_index.insert_abs [OF this(1) _ this(2) assms(2), of h] assms(1) show ?thesis
    by (auto simp: linking_def links_ok_def heads_ok_def)
qed

lemma link_param_ok:
  assumes "linking tid s" "2 \<le> dep_available (o_dep_pool s)" "0 < tm_room (o_tensor_map s)"
  shows "\<exists>s'. link_param tid p (n, s) = Inr (n + length (fst (dataflow tid [p] (tm_abs (o_tensor_map s)))), s') \<and>
    linking tid s' \<and> link_frame s s' \<and>
    tm_abs (o_tensor_map s') = snd (dataflow tid [p] (tm_abs (o_tensor_map s))) \<and>
    dep_available (o_dep_pool s) - 2 \<le> dep_available (o_dep_pool s') \<and>
    tm_room (o_tensor_map s) - 1 \<le> tm_room (o_tensor_map s') \<and>
    edges_added tid (fst (dataflow tid [p] (tm_abs (o_tensor_map s)))) s s'"
proof -
  let ?qs = "fst (dataflow tid [p] (tm_abs (o_tensor_map s)))"
  have "\<exists>s1. (if reads p then bindR (tm_lookup (p_handle p) (o_tensor_map s)) (\<lambda>r. case r of
              None \<Rightarrow> Inr (n, s) | Some q \<Rightarrow> bindR (add_edge tid q s) (\<lambda>s. Inr (n + 1, s)))
       else Inr (n, s)) = Inr (n + length ?qs, s1) \<and>
    linking tid s1 \<and> link_frame s s1 \<and> o_tensor_map s1 = o_tensor_map s \<and>
    dep_available (o_dep_pool s) - 2 \<le> dep_available (o_dep_pool s1) \<and> edges_added tid ?qs s s1"
    using link_reads [OF assms(1,2), of "p_handle p" n] assms(1) by (auto simp: Let_def)
  then obtain s1 where 1: "(if reads p then bindR (tm_lookup (p_handle p) (o_tensor_map s)) (\<lambda>r. case r of
              None \<Rightarrow> Inr (n, s) | Some q \<Rightarrow> bindR (add_edge tid q s) (\<lambda>s. Inr (n + 1, s)))
       else Inr (n, s)) = Inr (n + length ?qs, s1)"
    "linking tid s1" "link_frame s s1" "o_tensor_map s1 = o_tensor_map s"
    "dep_available (o_dep_pool s) - 2 \<le> dep_available (o_dep_pool s1)" "edges_added tid ?qs s s1" by blast
  have "0 < tm_room (o_tensor_map s1)" using assms(3) 1(4) by simp
  from link_writes [OF 1(2) this, of "p_handle p"] obtain tm where
    2: "tm_insert (p_handle p) tid True (o_tensor_map s1) = Inr tm" "linking tid (s1\<lparr>o_tensor_map := tm\<rparr>)"
      "tm_abs tm = (tm_abs (o_tensor_map s))(p_handle p \<mapsto> tid)" "tm_room tm = tm_room (o_tensor_map s) - 1"
    unfolding 1(4) by blast
  have eq: "link_param tid p (n, s) = (if writes p then Inr (n + length ?qs, s1\<lparr>o_tensor_map := tm\<rparr>)
      else Inr (n + length ?qs, s1))"
    using 1(1) 2(1) by (auto simp: link_param_def reads_def writes_def)
  show ?thesis
  proof (cases "writes p")
    case True
    then show ?thesis using eq 1 2 link_frame_trans [OF 1(3) link_frame_pool(2)]
      by (intro exI [of _ "s1\<lparr>o_tensor_map := tm\<rparr>"]) (auto simp: Let_def)
  next
    case False
    then show ?thesis using eq 1 by (intro exI [of _ s1]) (auto simp: Let_def)
  qed
qed

lemma dataflow_Cons_split:
  "dataflow tid (p # ps) m = (fst (dataflow tid [p] m) @ fst (dataflow tid ps (snd (dataflow tid [p] m))),
     snd (dataflow tid ps (snd (dataflow tid [p] m))))"
  by (simp add: Let_def split: prod.splits)

lemma link_params_ok:
  assumes "linking tid s" "2 * int (length ps) \<le> dep_available (o_dep_pool s)"
    "int (length ps) \<le> tm_room (o_tensor_map s)"
  shows "\<exists>s'. foldR (link_param tid) ps (n, s) = Inr (n + length (fst (dataflow tid ps (tm_abs (o_tensor_map s)))), s') \<and>
    linking tid s' \<and> link_frame s s' \<and>
    tm_abs (o_tensor_map s') = snd (dataflow tid ps (tm_abs (o_tensor_map s))) \<and>
    edges_added tid (fst (dataflow tid ps (tm_abs (o_tensor_map s)))) s s'"
  using assms
proof (induction ps arbitrary: n s)
  case (Cons p ps)
  let ?m = "tm_abs (o_tensor_map s)"
  have "2 \<le> dep_available (o_dep_pool s)" "0 < tm_room (o_tensor_map s)" using Cons.prems(2,3) by auto
  from link_param_ok [OF Cons.prems(1) this, of p n] obtain s1 where
    1: "link_param tid p (n, s) = Inr (n + length (fst (dataflow tid [p] ?m)), s1)" "linking tid s1" "link_frame s s1"
      "tm_abs (o_tensor_map s1) = snd (dataflow tid [p] ?m)"
      "dep_available (o_dep_pool s) - 2 \<le> dep_available (o_dep_pool s1)"
      "tm_room (o_tensor_map s) - 1 \<le> tm_room (o_tensor_map s1)"
      "edges_added tid (fst (dataflow tid [p] ?m)) s s1" by blast
  have "2 * int (length ps) \<le> dep_available (o_dep_pool s1)" "int (length ps) \<le> tm_room (o_tensor_map s1)"
    using 1(5,6) Cons.prems(2,3) by auto
  from Cons.IH [OF 1(2) this, of "n + length (fst (dataflow tid [p] ?m))"] obtain s2 where
    2: "foldR (link_param tid) ps (n + length (fst (dataflow tid [p] ?m)), s1) =
      Inr (n + length (fst (dataflow tid [p] ?m)) + length (fst (dataflow tid ps (tm_abs (o_tensor_map s1)))), s2)"
      "linking tid s2" "link_frame s1 s2"
      "tm_abs (o_tensor_map s2) = snd (dataflow tid ps (tm_abs (o_tensor_map s1)))"
      "edges_added tid (fst (dataflow tid ps (tm_abs (o_tensor_map s1)))) s1 s2" by blast
  note split = dataflow_Cons_split [of tid p ps ?m]
  have "edges_added tid (fst (dataflow tid (p # ps) ?m)) s s2"
    unfolding split using edges_added_append [OF 1(7) 2(5) 1(3)] 1(4) by simp
  moreover have "link_frame s s2" by (rule link_frame_trans [OF 1(3) 2(3)])
  ultimately show ?case using 1(1,4) 2 unfolding split by (intro exI [of _ s2]) (simp del: dataflow.simps)
qed simp

section \<open>Registration\<close>

text \<open>A state between two calls of the interface that has room for one more task with \<open>n\<close> parameters.\<close>

definition quiescent :: "orch \<Rightarrow> bool" where
  "quiescent s \<longleftrightarrow> links_ok s \<and> tm_inv (o_tensor_map s) (tr_current_index (o_task_ring s) - 1) \<and>
     tm_last_task_alive (o_tensor_map s) = tr_last_task_alive (o_task_ring s) \<and> \<not> o_scheduler_mu s"

definition has_room :: "nat \<Rightarrow> orch \<Rightarrow> bool" where
  "has_room n s \<longleftrightarrow> has_space (o_task_ring s) \<and> tr_current_index (o_task_ring s) < INT32_MAX \<and>
     2 * int n \<le> dep_available (o_dep_pool s) \<and> int n \<le> tm_room (o_tensor_map s) \<and>
     ss_scope_tasks_size (o_scope_stack s) < int (length (ss_scope_tasks (o_scope_stack s))) \<and>
     0 \<le> ss_scope_tasks_size (o_scope_stack s)"

definition fresh_task :: "orch \<Rightarrow> i32 \<Rightarrow> string \<Rightarrow> task_desc" where
  "fresh_task s tid k = fresh_descriptor\<lparr>td_kernel_so := k,
     td_key := TaskKey '''' coord_zero (current_depth s) (word_of_int tid)\<rparr>"

definition keeps_edges :: "(task_desc \<Rightarrow> task_desc) \<Rightarrow> bool" where
  "keeps_edges f \<longleftrightarrow> (\<forall>d. td_dep_list_head (f d) = td_dep_list_head d \<and>
     td_fanout_list_head (f d) = td_fanout_list_head d \<and> td_fanout_count (f d) = td_fanout_count d)"

lemma alloc_linking:
  assumes "quiescent s" "task_alloc (o_task_ring s) = Inr (tid, tr)" "keeps_edges f"
  defines "s1 \<equiv> o_upd tid f (s\<lparr>o_task_ring := tr\<rparr>)"
  shows "linking tid s1" "deps s1 tid = []" "outs s1 tid = []" "o_get s1 tid = f fresh_descriptor"
    "\<And>i. live s i \<Longrightarrow> live s1 i \<and> i \<noteq> tid \<and> o_get s1 i = o_get s i"
proof -
  let ?s0 = "s\<lparr>o_task_ring := tr\<rparr>"
  have wf: "ring_wf (o_task_ring s)" and dw: "dep_wf (o_dep_pool s)" and h: "heads_ok s"
    using assms(1) by (auto simp: quiescent_def links_ok_def)
  note a = task_alloc_wf [OF wf assms(2)] and d = task_alloc_InrD [OF assms(2)]
  have neg: "dep_head_ok (o_dep_pool s) (- 1)" using dw by (simp add: dep_head_ok_def dep_wf_def)
  have "set (tr_descriptors tr) \<subseteq> insert fresh_descriptor (set (tr_descriptors (o_task_ring s)))"
    unfolding d(2) by (simp add: task_upd_def reset_descriptor_fresh set_update_subset_insert)
  then have "heads_ok ?s0" using h neg by (auto simp: heads_ok_def fresh_descriptor_def)
  then have ok0: "links_ok ?s0" using a(1) dw by (simp add: links_ok_def)
  have fr: "o_get ?s0 tid = fresh_descriptor" using a(6) by (simp add: o_get_def)
  have l0: "live ?s0 tid" "ring_wf (o_task_ring ?s0)" using a(1,5) by (simp_all add: live_def)
  have "links_ok s1" unfolding s1_def using assms(3) fr neg
    by (intro links_ok_upd [OF ok0]) (auto simp: keeps_edges_def fresh_descriptor_def)
  moreover have "tm_inv (o_tensor_map s) tid"
    using assms(1) d(1) tm_inv_mono unfolding quiescent_def by (metis diff_le_self diff_ge_0_iff_ge
        le_add_same_cancel1 zero_le_one add_diff_cancel_right' diff_add_cancel)
  ultimately show "linking tid s1"
    using assms(1) a(2,3) l0(1) d(1) by (simp add: linking_def s1_def quiescent_def o_upd_def live_def)
  show g: "o_get s1 tid = f fresh_descriptor"
    unfolding s1_def using o_get_upd [OF l0(2) l0(1) l0(1)] fr by simp
  show "deps s1 tid = []" "outs s1 tid = []"
    using g assms(3) by (auto simp: deps_def outs_def keeps_edges_def fresh_descriptor_def)
  fix i assume i: "live s i"
  then have "live ?s0 i" "i \<noteq> tid" "o_get ?s0 i = o_get s i"
    using a(7) d(1) by (auto simp: live_def o_get_def task_live_def)
  then show "live s1 i \<and> i \<noteq> tid \<and> o_get s1 i = o_get s i"
    using o_get_upd [OF l0(2) l0(1)] by (simp add: s1_def)
qed

text \<open>The last part of registration, once the parameters are linked.\<close>

definition finish_register :: "i32 \<Rightarrow> nat \<Rightarrow> scope_stack \<Rightarrow> orch \<Rightarrow> orch" where
  "finish_register tid fanin ss s =
     (let s = (o_upd tid (\<lambda>d. d\<lparr>td_fanin_count := fanin\<rparr>) s)\<lparr>o_scope_stack := ss\<rparr>;
          s = o_upd tid (\<lambda>d. d\<lparr>td_heap_end := hr_top (o_heap_ring s)\<rparr>) s
      in note_peaks (s\<lparr>o_tasks_submitted := o_tasks_submitted s + 1\<rparr>))"

lemma finish_register_simps [simp]:
  "o_dep_pool (finish_register tid n ss s) = o_dep_pool s" "o_tensor_map (finish_register tid n ss s) = o_tensor_map s"
  "o_dispatcher (finish_register tid n ss s) = o_dispatcher s" "o_dispatch_fn (finish_register tid n ss s) = o_dispatch_fn s"
  "o_calls (finish_register tid n ss s) = o_calls s" "o_scheduler_mu (finish_register tid n ss s) = o_scheduler_mu s"
  "o_pending_group_specs (finish_register tid n ss s) = o_pending_group_specs s"
  "o_next_sub_dispatch_id (finish_register tid n ss s) = o_next_sub_dispatch_id s"
  "tr_current_index (o_task_ring (finish_register tid n ss s)) = tr_current_index (o_task_ring s)"
  "tr_last_task_alive (o_task_ring (finish_register tid n ss s)) = tr_last_task_alive (o_task_ring s)"
  "live (finish_register tid n ss s) i = live s i"
  by (simp_all add: finish_register_def note_peaks_def Let_def o_upd_def live_def)

lemma finish_register_get:
  assumes "links_ok s" "live s tid" "live s i"
  shows "o_get (finish_register tid n ss s) i =
    (if i = tid then (o_get s i)\<lparr>td_fanin_count := n, td_heap_end := hr_top (o_heap_ring s)\<rparr> else o_get s i)"
proof -
  let ?s1 = "(o_upd tid (\<lambda>d. d\<lparr>td_fanin_count := n\<rparr>) s)\<lparr>o_scope_stack := ss\<rparr>"
  have wf: "ring_wf (o_task_ring s)" using assms(1) by (simp add: links_ok_def)
  have "o_get ?s1 i = o_get (o_upd tid (\<lambda>d. d\<lparr>td_fanin_count := n\<rparr>) s) i" by (simp add: o_get_def)
  moreover have "ring_wf (o_task_ring ?s1)" "live ?s1 tid" "live ?s1 i"
    using wf assms(2,3) by (simp_all add: o_upd_def live_def)
  moreover have "o_get (finish_register tid n ss s) i =
      o_get (o_upd tid (\<lambda>d. d\<lparr>td_heap_end := hr_top (o_heap_ring ?s1)\<rparr>) ?s1) i"
    by (simp add: finish_register_def note_peaks_def Let_def o_get_def)
  ultimately show ?thesis using o_get_upd [OF wf assms(2,3)] o_get_upd [of ?s1 tid i] by (cases "i = tid") simp_all
qed

lemma finish_register_links:
  assumes "links_ok s"
  shows "links_ok (finish_register tid n ss s)"
proof -
  let ?s1 = "(o_upd tid (\<lambda>d. d\<lparr>td_fanin_count := n\<rparr>) s)\<lparr>o_scope_stack := ss\<rparr>"
  have "links_ok (o_upd tid (\<lambda>d. d\<lparr>td_fanin_count := n\<rparr>) s)"
    using heads_okD [OF assms, of tid] by (intro links_ok_upd [OF assms]) auto
  then have 1: "links_ok ?s1" by (simp add: links_ok_def heads_ok_def)
  have "links_ok (o_upd tid (\<lambda>d. d\<lparr>td_heap_end := hr_top (o_heap_ring ?s1)\<rparr>) ?s1)"
    using heads_okD [OF 1, of tid] by (intro links_ok_upd [OF 1]) auto
  then show ?thesis by (simp add: finish_register_def note_peaks_def Let_def links_ok_def heads_ok_def)
qed

lemma finish_register_edges:
  assumes "links_ok s" "live s tid" "live s i"
  shows "deps (finish_register tid n ss s) i = deps s i" "outs (finish_register tid n ss s) i = outs s i"
    "td_fanout_count (o_get (finish_register tid n ss s) i) = td_fanout_count (o_get s i)"
  using finish_register_get [OF assms] by (simp_all add: deps_def outs_def)

lemma register_unfold:
  assumes "task_alloc (o_task_ring s) = Inr (tid, tr)"
    and "foldR (link_param tid) ps (0, o_upd tid (\<lambda>d. fill (d\<lparr>td_kernel_so := k,
        td_key := TaskKey (key_logical_system (td_key d)) (key_coord (td_key d)) (current_depth s) (word_of_int tid)\<rparr>))
        (s\<lparr>o_task_ring := tr\<rparr>)) = Inr (n, s2)"
    and "o_scope_stack s2 = o_scope_stack s"
    and "ss_scope_tasks_size (o_scope_stack s) < int (length (ss_scope_tasks (o_scope_stack s)))"
    and "0 \<le> ss_scope_tasks_size (o_scope_stack s)"
  shows "\<exists>ss. register_task fill k ps s = Inr (tid, finish_register tid n ss s2)"
proof -
  have d: "current_depth (s\<lparr>o_task_ring := tr\<rparr>) = current_depth s" by (simp add: current_depth_def)
  show ?thesis
  proof (cases "0 \<le> scope_depth (o_scope_stack s)")
    case True
    then show ?thesis using assms
      by (simp add: register_task_def d Let_def finish_register_def stack_add_task_def) blast
  next
    case False
    then have nd: "\<not> 0 \<le> scope_depth (o_scope_stack s2)" using assms(3) by simp
    have same: "(o_upd tid f s2)\<lparr>o_scope_stack := o_scope_stack s2\<rparr> = o_upd tid f s2" for f
      by (simp add: o_upd_def)
    have "register_task fill k ps s = Inr (tid, finish_register tid n (o_scope_stack s2) s2)"
      using assms(1,2) nd by (simp add: register_task_def d Let_def finish_register_def same)
    then show ?thesis by blast
  qed
qed

lemma register_ok:
  assumes "quiescent s" "has_room (length ps) s" "keeps_edges fill"
  defines "tid \<equiv> tr_current_index (o_task_ring s)"
    and "qs \<equiv> fst (dataflow (tr_current_index (o_task_ring s)) ps (tm_abs (o_tensor_map s)))"
  shows "\<exists>s'. register_task fill k ps s = Inr (tid, s') \<and> quiescent s' \<and> live s' tid \<and>
    deps s' tid = rev qs \<and> outs s' tid = replicate (count_list qs tid) tid \<and>
    bare (o_get s' tid) = bare ((fill (fresh_task s tid k))\<lparr>td_fanin_count := length qs,
      td_heap_end := hr_top (o_heap_ring s)\<rparr>) \<and>
    td_fanout_count (o_get s' tid) = 1 + count_list qs tid \<and>
    tm_abs (o_tensor_map s') = snd (dataflow tid ps (tm_abs (o_tensor_map s))) \<and>
    (\<forall>i. live s i \<longrightarrow> live s' i \<and> i \<noteq> tid \<and> deps s' i = deps s i \<and>
       outs s' i = replicate (count_list qs i) tid @ outs s i \<and>
       td_fanout_count (o_get s' i) = td_fanout_count (o_get s i) + count_list qs i \<and>
       bare (o_get s' i) = bare (o_get s i)) \<and>
    o_dispatcher s' = o_dispatcher s \<and> o_dispatch_fn s' = o_dispatch_fn s \<and> o_calls s' = o_calls s \<and>
    o_pending_group_specs s' = o_pending_group_specs s \<and> o_next_sub_dispatch_id s' = o_next_sub_dispatch_id s \<and>
    tr_current_index (o_task_ring s') = tid + 1 \<and>
    tr_last_task_alive (o_task_ring s') = tr_last_task_alive (o_task_ring s)"
proof -
  have wf: "ring_wf (o_task_ring s)" using assms(1) by (simp add: quiescent_def links_ok_def)
  have sp: "has_space (o_task_ring s)" "tr_current_index (o_task_ring s) < INT32_MAX"
    using assms(2) by (auto simp: has_room_def)
  obtain tr where al: "task_alloc (o_task_ring s) = Inr (tid, tr)"
    using task_alloc_eq [OF wf sp] tid_def by blast
  let ?f = "\<lambda>d. fill (d\<lparr>td_kernel_so := k, td_key := TaskKey (key_logical_system (td_key d))
      (key_coord (td_key d)) (current_depth s) (word_of_int tid)\<rparr>)"
  let ?s1 = "o_upd tid ?f (s\<lparr>o_task_ring := tr\<rparr>)"
  have ke: "keeps_edges ?f" using assms(3) by (simp add: keeps_edges_def)
  note l = alloc_linking [OF assms(1) al ke]
  have new: "o_get ?s1 tid = fill (fresh_task s tid k)"
    using l(4) by (simp add: fresh_task_def fresh_descriptor_def task_key_default_def)
  have "2 * int (length ps) \<le> dep_available (o_dep_pool ?s1)" "int (length ps) \<le> tm_room (o_tensor_map ?s1)"
    using assms(2) by (auto simp: has_room_def)
  from link_params_ok [OF l(1) this, of 0] obtain s2 where
    2: "foldR (link_param tid) ps (0, ?s1) = Inr (length qs, s2)" "linking tid s2" "link_frame ?s1 s2"
      "tm_abs (o_tensor_map s2) = snd (dataflow tid ps (tm_abs (o_tensor_map s)))" "edges_added tid qs ?s1 s2"
    by (auto simp: qs_def tid_def)
  have ok2: "links_ok s2" "live s2 tid" using 2(2) by (auto simp: linking_def)
  have "o_scope_stack s2 = o_scope_stack s" using link_frameD(7) [OF 2(3)] by simp
  from register_unfold [OF al 2(1) this] assms(2) obtain ss where
    reg: "register_task fill k ps s = Inr (tid, finish_register tid (length qs) ss s2)"
    by (auto simp: has_room_def)
  let ?s' = "finish_register tid (length qs) ss s2"
  have live2: "live s2 i \<longleftrightarrow> live ?s1 i" for i by (rule link_frame_live [OF 2(3)])
  have lt: "live ?s1 tid" using l(1) by (simp add: linking_def)
  note fe = finish_register_edges [OF ok2(1,2)] and fg = finish_register_get [OF ok2(1,2)]
  have e: "deps s2 tid = rev qs \<and> outs s2 tid = replicate (count_list qs tid) tid \<and>
      td_fanout_count (o_get s2 tid) = td_fanout_count (o_get ?s1 tid) + count_list qs tid \<and>
      bare (o_get s2 tid) = bare (fill (fresh_task s tid k))"
    using 2(5) lt l(2,3) new by (simp add: edges_added_def)
  have "td_fanout_count (o_get ?s1 tid) = td_fanout_count fresh_descriptor"
    unfolding l(4) using ke by (simp only: keeps_edges_def)
  then have "td_fanout_count (o_get ?s1 tid) = 1" by (simp add: fresh_descriptor_def)
  then have self: "deps ?s' tid = rev qs" "outs ?s' tid = replicate (count_list qs tid) tid"
    "td_fanout_count (o_get ?s' tid) = 1 + count_list qs tid" using e fe [OF ok2(2)] by auto
  have top: "o_heap_ring s2 = o_heap_ring s" using link_frameD(6) [OF 2(3)] by simp
  have "bare (o_get ?s' tid) = (bare (o_get s2 tid))\<lparr>td_fanin_count := length qs, td_heap_end := hr_top (o_heap_ring s)\<rparr>"
    using fg [OF ok2(2)] top by (simp add: bare_def)
  then have bt: "bare (o_get ?s' tid) = bare ((fill (fresh_task s tid k))\<lparr>td_fanin_count := length qs,
      td_heap_end := hr_top (o_heap_ring s)\<rparr>)" using e by (simp add: bare_def)
  have rest: "live ?s' i \<and> i \<noteq> tid \<and> deps ?s' i = deps s i \<and> outs ?s' i = replicate (count_list qs i) tid @ outs s i \<and>
       td_fanout_count (o_get ?s' i) = td_fanout_count (o_get s i) + count_list qs i \<and> bare (o_get ?s' i) = bare (o_get s i)"
    if "live s i" for i
  proof -
    note i = l(5) [OF that]
    then have i2: "live s2 i" using live2 by simp
    have "deps ?s1 i = deps s i" "outs ?s1 i = outs s i" using i by (simp_all add: deps_def outs_def)
    then show ?thesis using 2(5) i i2 fe [OF i2] fg [OF i2] by (auto simp: edges_added_def)
  qed
  have q: "quiescent ?s'" using 2(2) finish_register_links [OF ok2(1)] assms(1) link_frameD(5) [OF 2(3)]
    by (simp add: quiescent_def linking_def)
  have "tr_last_task_alive (o_task_ring ?s') = tr_last_task_alive (o_task_ring s)"
    using link_frameD(2) [OF 2(3)] task_alloc_wf(3) [OF wf al] by (simp add: o_upd_def)
  with reg q self bt rest 2(2,4) ok2(2) link_frameD [OF 2(3)] show ?thesis
    by (intro exI [of _ ?s']) (auto simp: linking_def o_upd_def)
qed

end
