(* ===== verification/Orch_Lifecycle.thy ===== *)
theory Orch_Lifecycle
  imports Orch_Submission
begin

text \<open>
  Runs of \<^verbatim>\<open>LinquOrchestratorState\<close>: the calls of its interface as a step relation, the invariant they
  keep, and what happens to tasks and groups along a run.
\<close>

section \<open>Steps\<close>

text \<open>
  One call of the interface that returns. Submissions are steps while there is room: a slot, cells in
  the dependency pool and, for the tensor map, the first lap of its pool. Completions arrive only from
  an asynchronous dispatcher.
\<close>

inductive orch_step :: "orch \<Rightarrow> orch \<Rightarrow> bool" where
  submit: "has_room (length ps) s \<Longrightarrow> submit_task arrivals tgt k ps s = Inr s' \<Longrightarrow> orch_step s s'"
| group: "has_room (length ps) s \<Longrightarrow> submit_task_group arrivals k ps subs s = Inr s' \<Longrightarrow> orch_step s s'"
| scope_in: "scope_begin s = Inr s' \<Longrightarrow> orch_step s s'"
| scope_out: "scope_end s = Inr s' \<Longrightarrow> orch_step s s'"
| alloc: "o_dispatcher s = AsyncDispatcher \<or> arrivals = [] \<Longrightarrow> alloc_tensor arrivals tgt sz s = Inr (h, s') \<Longrightarrow>
    orch_step s s'"
| complete: "o_dispatcher s = AsyncDispatcher \<Longrightarrow> on_task_complete t s = Inr s' \<Longrightarrow> orch_step s s'"
| free: "orch_step s (free_tensor h s)"
| snapshot: "orch_step s (take_snapshot now label s)"
| finished: "orch_step s (orchestration_done s)"

section \<open>The invariant along a run\<close>

lemma quiescent_evolves: "evolves s s' \<Longrightarrow> quiescent s \<Longrightarrow> quiescent s'"
  using evolvesD [of s s'] links_ok_evolves [of s s'] by (simp add: quiescent_def)

lemma quiescent_ghost [simp]:
  "quiescent (s\<lparr>o_next_tensor_handle := a\<rparr>) = quiescent s" "quiescent (s\<lparr>o_heap_block_count := b\<rparr>) = quiescent s"
  "quiescent (s\<lparr>o_heap_ring := c\<rparr>) = quiescent s" "quiescent (s\<lparr>o_peak_heap_used := d\<rparr>) = quiescent s"
  "quiescent (s\<lparr>o_scope_stack := e\<rparr>) = quiescent s" "quiescent (s\<lparr>o_scope_begin_count := f\<rparr>) = quiescent s"
  "quiescent (s\<lparr>o_scope_end_count := f\<rparr>) = quiescent s" "quiescent (s\<lparr>o_free_tensor_count := f\<rparr>) = quiescent s"
  "quiescent (s\<lparr>o_snapshots := g\<rparr>) = quiescent s" "quiescent (s\<lparr>o_done := i\<rparr>) = quiescent s"
  "quiescent (s\<lparr>o_pending_group_specs := j\<rparr>) = quiescent s" "quiescent (s\<lparr>o_calls := l\<rparr>) = quiescent s"
  by (simp_all add: quiescent_def links_ok_def heads_ok_def)

lemma quiescent_advance:
  assumes "quiescent s" "try_advance_ring_pointers s = Inr s'"
  shows "quiescent s'"
proof -
  have q: "ring_wf (o_task_ring s)" "\<not> o_scheduler_mu s" "dep_wf (o_dep_pool s)" "heads_ok s"
    "tm_inv (o_tensor_map s) (tr_current_index (o_task_ring s) - 1)"
    "tm_last_task_alive (o_tensor_map s) = tr_last_task_alive (o_task_ring s)"
    using assms(1) by (auto simp: quiescent_def links_ok_def)
  let ?c = "retire_point s"
  note sp = retire_point_spec [OF q(1)]
  have s': "o_task_ring s' = set_last_task_alive ?c (o_task_ring s)" "o_dep_pool s' = o_dep_pool s"
    "o_tensor_map s' = (if tr_last_task_alive (o_task_ring s) < ?c then tm_invalidate_below ?c (o_tensor_map s)
      else o_tensor_map s)" "\<not> o_scheduler_mu s'"
    using assms(2) q(2) unfolding try_advance_eq [OF q(1,2)] by auto
  have "ring_wf (o_task_ring s')" unfolding s'(1) using sp(1,2) q(1) by (intro wf_intros)
  moreover have "heads_ok s'" using q(4) by (simp add: heads_ok_def s'(1,2) set_last_task_alive_def)
  moreover have "tm_inv (o_tensor_map s') (tr_current_index (o_task_ring s) - 1)"
    using q(5,6) sp(1) tm_inv_retire [OF q(5), of ?c] by (simp add: s'(3))
  moreover have "tm_last_task_alive (o_tensor_map s') = ?c"
    using q(6) sp(1) by (auto simp: s'(3) tm_invalidate_below_def)
  ultimately show ?thesis using q(3) s'(1,2,4) by (simp add: quiescent_def links_ok_def)
qed

lemma on_task_complete_evolves:
  assumes "quiescent s" "on_task_complete t s = Inr s'"
  shows "evolves s s'"
proof -
  have q: "links_ok s" "\<not> o_scheduler_mu s" using assms(1) by (auto simp: quiescent_def)
  have "good_prop (o_fuel s) propagate_completion"
    unfolding good_prop_def using propagate_steps by blast
  from on_task_complete_steps [OF this q(1) pend_fuel, of t] q(2) assms(2) show ?thesis
    by (simp add: on_task_complete_def)
qed

lemma deliver_quiescent:
  assumes "quiescent s" "deliver ids s = Inr s'"
  shows "quiescent s'"
  using assms(2) unfolding deliver_def
  by (rule foldR_invariant [where P = quiescent])
    (use assms(1) on_task_complete_evolves quiescent_evolves in blast)+

lemma wait_heap_quiescent:
  assumes "quiescent s" "wait_heap_space n arrivals sz s = Inr s'"
  shows "quiescent s'"
  using assms
proof (induction n arbitrary: arrivals s)
  case 0
  show ?case
  proof (cases "heap_try_alloc sz (o_heap_ring s)")
    case None
    with 0(2) obtain s1 where "try_advance_ring_pointers s = Inr s1"
      "(case heap_try_alloc sz (o_heap_ring s1) of Some (pos, hr) \<Rightarrow> Inr (s1\<lparr>o_heap_ring := hr\<rparr>)
        | None \<Rightarrow> Inl AssertFail) = Inr s'" by (auto elim: bindR_InrE)
    with quiescent_advance [OF 0(1)] show ?thesis by (auto split: option.splits)
  qed (use 0 in auto)
next
  case (Suc n)
  show ?case
  proof (cases "heap_try_alloc sz (o_heap_ring s)")
    case None
    with Suc.prems(2) obtain s1 where 1: "try_advance_ring_pointers s = Inr s1"
      "(case heap_try_alloc sz (o_heap_ring s1) of Some (pos, hr) \<Rightarrow> Inr (s1\<lparr>o_heap_ring := hr\<rparr>)
        | None \<Rightarrow> bindR (deliver (concat (take 1 arrivals)) s1) (wait_heap_space n (drop 1 arrivals) sz)) = Inr s'"
      by (auto elim: bindR_InrE)
    note q1 = quiescent_advance [OF Suc.prems(1) 1(1)]
    show ?thesis
    proof (cases "heap_try_alloc sz (o_heap_ring s1)")
      case None
      with 1(2) obtain s2 where "deliver (concat (take 1 arrivals)) s1 = Inr s2"
        "wait_heap_space n (drop 1 arrivals) sz s2 = Inr s'" by (auto elim: bindR_InrE)
      then show ?thesis using Suc.IH deliver_quiescent [OF q1] by blast
    qed (use 1(2) q1 in auto)
  qed (use Suc.prems in auto)
qed

lemma scope_release_evolves: "evolves s (s\<lparr>o_task_ring := scope_release tid (o_task_ring s)\<rparr>)"
proof -
  have "evolves s (o_upd tid (\<lambda>d. d\<lparr>td_fanout_refcount := td_fanout_refcount d + 1\<rparr>) s)"
    by (rule evolves_upd) (simp add: desc_evolves_def)
  then show ?thesis by (simp add: scope_release_def o_upd_def)
qed

lemma scope_release_from_evolves:
  "scope_release_from ss k i r = Inr r' \<Longrightarrow> evolves (s\<lparr>o_task_ring := r\<rparr>) (s\<lparr>o_task_ring := r'\<rparr>)"
proof (induction ss k i r rule: scope_release_from.induct)
  case (2 ss k i r)
  then obtain tid where t: "vec_at (ss_scope_tasks ss) i = Inr tid"
    "scope_release_from ss k (i + 1) (scope_release tid r) = Inr r'" by (auto elim: bindR_InrE)
  have "evolves (s\<lparr>o_task_ring := r\<rparr>) (s\<lparr>o_task_ring := scope_release tid r\<rparr>)"
    using scope_release_evolves [of "s\<lparr>o_task_ring := r\<rparr>" tid] by simp
  then show ?case using 2(1) [OF t(2)] evolves_trans by blast
qed simp

lemma check_all_evolves: "evolves s (check_all_consumed s)"
proof -
  have "evolves s (fold check_task_consumed xs s)" for xs
    by (induction xs arbitrary: s) (auto intro: evolves_trans evolves_check_consumed)
  then show ?thesis by (simp add: check_all_consumed_def)
qed

lemma stack_scope_end_evolves:
  assumes "stack_scope_end (o_scope_stack s) (o_task_ring s) = Inr (ss, r)"
  shows "evolves s (s\<lparr>o_task_ring := r\<rparr>)"
proof -
  from assms obtain k i where "scope_release_from (o_scope_stack s) k i (o_task_ring s) = Inr r"
    by (auto simp: stack_scope_end_def elim!: bindR_InrE)
  from scope_release_from_evolves [OF this, of s] show ?thesis by simp
qed

lemma scope_end_split:
  assumes "scope_end s = Inr s'"
  obtains ss r where "evolves s (s\<lparr>o_task_ring := r\<rparr>)"
    "try_advance_ring_pointers (check_all_consumed
       (s\<lparr>o_scope_stack := ss, o_task_ring := r, o_scope_end_count := o_scope_end_count s + 1\<rparr>)) = Inr s'"
proof -
  from assms obtain ss r where r: "stack_scope_end (o_scope_stack s) (o_task_ring s) = Inr (ss, r)"
    by (auto simp: scope_end_def elim: bindR_InrE)
  with assms have "try_advance_ring_pointers (check_all_consumed
       (s\<lparr>o_scope_stack := ss, o_task_ring := r, o_scope_end_count := o_scope_end_count s + 1\<rparr>)) = Inr s'"
    by (simp add: scope_end_def Let_def split: if_splits)
  with that stack_scope_end_evolves [OF r] show thesis by blast
qed

lemma quiescent_scope_end:
  assumes "quiescent s" "scope_end s = Inr s'"
  shows "quiescent s'"
proof -
  from assms(2) obtain ss r where r: "evolves s (s\<lparr>o_task_ring := r\<rparr>)"
    "try_advance_ring_pointers (check_all_consumed
       (s\<lparr>o_scope_stack := ss, o_task_ring := r, o_scope_end_count := o_scope_end_count s + 1\<rparr>)) = Inr s'"
    by (rule scope_end_split)
  have "quiescent (s\<lparr>o_task_ring := r\<rparr>)" using quiescent_evolves [OF r(1) assms(1)] .
  then have "quiescent (s\<lparr>o_scope_stack := ss, o_task_ring := r, o_scope_end_count := o_scope_end_count s + 1\<rparr>)"
    by (simp add: quiescent_def links_ok_def heads_ok_def)
  from quiescent_advance [OF quiescent_evolves [OF check_all_evolves this] r(2)] show ?thesis .
qed

lemma keeps_edges_fills [simp]:
  "keeps_edges id" "keeps_edges (\<lambda>d. d\<lparr>td_is_group := g, td_group_size := n, td_sub_complete_count := m\<rparr>)"
  by (simp_all add: keeps_edges_def)

lemma back_pressure_room [simp]: "has_room n s \<Longrightarrow> back_pressure arrivals s = Inr s"
  by (simp add: back_pressure_def has_room_def)

lemma good_prop_completion: "good_prop m propagate_completion"
  unfolding good_prop_def using propagate_steps by blast

lemma set_status_running:
  "td_status (o_get s tid) = PENDING \<Longrightarrow> evolves s (set_status RUNNING tid s)"
  by (simp add: evolves_set_status)

text \<open>From registration on, a submission only evolves the state.\<close>

lemma steps_complete:
  assumes "links_ok s" "evolves s u"
  shows "steps s (propagate_completion tid (set_status COMPLETED tid u))"
proof -
  have e: "evolves s (set_status COMPLETED tid u)"
    by (rule evolves_trans [OF assms(2)]) (simp add: evolves_set_status)
  show ?thesis by (rule steps_from [OF e propagate_steps [OF links_ok_evolves [OF e assms(1)]]])
qed

lemma submit_task_steps:
  assumes "has_room (length ps) s" "register_task id (case k of Some k \<Rightarrow> k | None \<Rightarrow> '''') ps s = Inr (tid, s1)"
    "links_ok s1" "td_status (o_get s1 tid) = PENDING"
  shows "steps s1 (submit_task arrivals tgt k ps s)"
proof -
  let ?k = "case k of Some k \<Rightarrow> k | None \<Rightarrow> ''''"
  let ?s2 = "set_status RUNNING tid s1"
  have e2: "evolves s1 ?s2" using assms(4) by (rule set_status_running)
  have "steps s1 (dispatch tid tgt ?k ps ?s2)"
    unfolding dispatch_def
    by (rule steps_from [OF e2 dispatch_steps [OF good_prop_completion links_ok_evolves [OF e2 assms(3)] pend_fuel]])
  moreover have "steps s1 (propagate_completion tid (set_status COMPLETED tid ?s2))"
    by (rule steps_complete [OF assms(3) e2])
  moreover have "steps s1 (propagate_completion tid (set_status COMPLETED tid (?s2\<lparr>o_calls := c\<rparr>)))" for c
    by (rule steps_complete [OF assms(3) evolves_trans [OF e2 evolves_ghost(1)]])
  ultimately show ?thesis using assms(1,2) by (simp add: submit_task_def Let_def)
qed

lemma submit_group_steps:
  assumes "has_room (length ps) s"
    "register_task (\<lambda>d. d\<lparr>td_is_group := True, td_group_size := length subs, td_sub_complete_count := 0\<rparr>)
       (case k of Some k \<Rightarrow> k | None \<Rightarrow> ''group'') ps s = Inr (tid, s1)"
    "links_ok s1" "td_status (o_get s1 tid) = PENDING"
  shows "steps s1 (submit_task_group arrivals k ps subs s)"
proof -
  have e2: "evolves s1 (set_status RUNNING tid s1)" using assms(4) by (rule set_status_running)
  have "steps s1 (dispatch_group_sub_tasks tid k ps subs (set_status RUNNING tid s1))"
    unfolding dispatch_group_sub_tasks_def
    by (rule steps_from [OF e2 dispatch_group_steps [OF good_prop_completion links_ok_evolves [OF e2 assms(3)] pend_fuel]])
  moreover have "steps s1 (propagate_completion tid (set_status COMPLETED tid s1))"
    by (rule steps_complete [OF assms(3) evolves_refl])
  moreover have "evolves s1 ((set_status PENDING tid s1)\<lparr>o_pending_group_specs := p\<rparr>)" for p
    by (rule evolves_trans [OF _ evolves_ghost(4)], rule evolves_set_status) (simp add: assms(4))
  ultimately show ?thesis using assms(1,2) by (simp add: submit_task_group_def Let_def)
qed

lemma bare_fields:
  "bare d = bare d' \<Longrightarrow> td_status d = td_status d' \<and> td_fanin_count d = td_fanin_count d' \<and>
     td_is_group d = td_is_group d' \<and> td_fanin_refcount d = td_fanin_refcount d' \<and>
     td_fanout_refcount d = td_fanout_refcount d' \<and> td_sub_complete_count d = td_sub_complete_count d' \<and>
     td_group_size d = td_group_size d' \<and> td_heap_end d = td_heap_end d'"
  by (cases d; cases d') (simp add: bare_def)

lemma quiescent_step:
  assumes "orch_step s s'" "quiescent s"
  shows "quiescent s'"
  using assms
proof (induction rule: orch_step.induct)
  case (submit ps s arrivals tgt k s')
  from register_ok [OF submit(3,1) keeps_edges_fills(1), of "case k of Some k \<Rightarrow> k | None \<Rightarrow> ''''"] obtain s1 where
    r: "register_task id (case k of Some k \<Rightarrow> k | None \<Rightarrow> '''') ps s = Inr (tr_current_index (o_task_ring s), s1)"
    "quiescent s1" "td_status (o_get s1 (tr_current_index (o_task_ring s))) = PENDING"
    by (auto dest!: bare_fields simp: fresh_task_def fresh_descriptor_def)
  then have "evolves s1 s'"
    using submit_task_steps [OF submit(1) r(1) _ r(3), of arrivals tgt] submit(2) by (simp add: quiescent_def)
  with r(2) show ?case using quiescent_evolves by blast
next
  case (group ps s arrivals k subs s')
  from register_ok [OF group(3,1) keeps_edges_fills(2) [where g = True and n = "length subs" and m = 0],
      of "case k of Some k \<Rightarrow> k | None \<Rightarrow> ''group''"] obtain s1 where
    r: "register_task (\<lambda>d. d\<lparr>td_is_group := True, td_group_size := length subs, td_sub_complete_count := 0\<rparr>)
       (case k of Some k \<Rightarrow> k | None \<Rightarrow> ''group'') ps s = Inr (tr_current_index (o_task_ring s), s1)"
    "quiescent s1" "td_status (o_get s1 (tr_current_index (o_task_ring s))) = PENDING"
    by (auto dest!: bare_fields simp: fresh_task_def fresh_descriptor_def)
  then have "evolves s1 s'"
    using submit_group_steps [OF group(1) r(1) _ r(3), of arrivals] group(2) by (simp add: quiescent_def)
  with r(2) show ?case using quiescent_evolves by blast
next
  case (scope_in s s')
  then show ?case by (auto simp: scope_begin_def quiescent_def links_ok_def heads_ok_def elim!: bindR_InrE)
next
  case (scope_out s s')
  then show ?case using quiescent_scope_end by blast
next
  case (alloc s arrivals tgt sz h s')
  let ?t = "s\<lparr>o_next_tensor_handle := o_next_tensor_handle s + 1\<rparr>"
  have "quiescent u" if "wait_heap_space n arrivals sz (?t\<lparr>o_heap_block_count := m\<rparr>) = Inr u" for u n m
    by (rule wait_heap_quiescent [OF _ that]) (use alloc(3) in simp)
  with alloc(2,3) show ?case
    by (auto simp: alloc_tensor_def Let_def split: if_splits option.splits elim!: bindR_InrE)
next
  case (complete s t s')
  then show ?case using on_task_complete_evolves quiescent_evolves by blast
qed (simp_all add: free_tensor_def take_snapshot_def orchestration_done_def)

lemma init_quiescent:
  assumes "orch_init lv c cfg d fn = Inr s" "cf_tensormap_buckets cfg \<le> INT32_MAX"
    "0 < cf_tensormap_pool cfg" "cf_tensormap_pool cfg \<le> INT32_MAX"
  shows "quiescent s" "o_dispatcher s = d" "tm_abs (o_tensor_map s) = Map.empty"
proof -
  from assms(1) obtain tr dp tm where
    i: "task_ring_init (cf_task_ring_window cfg) = Inr tr" "dep_init (cf_dep_pool_capacity cfg) dep_new = Inr dp"
      "tm_init (cf_tensormap_buckets cfg) (cf_tensormap_pool cfg) tm_new = Inr tm"
      "o_task_ring s = tr" "o_dep_pool s = dp" "o_tensor_map s = tm" "\<not> o_scheduler_mu s" "o_dispatcher s = d"
    by (auto simp: orch_init_def elim!: bindR_InrE)
  note tr = task_ring_init_wf [OF i(1)] and tm = tm_init_inv [OF i(3) assms(2-4), of "- 1"]
  have "0 < cf_dep_pool_capacity cfg" using i(2) by (auto simp: dep_init_def elim!: bindR_InrE)
  then have dp: "dep_wf dp" using dep_init_wf [of "cf_dep_pool_capacity cfg" dep_new] i(2) by auto
  have "td_dep_list_head d = - 1 \<and> td_fanout_list_head d = - 1" if "d \<in> set (tr_descriptors tr)" for d
    using i(1) that by (auto simp: task_ring_init_def fresh_descriptor_def elim!: bindR_InrE)
  then have "heads_ok s" using dp i(4,5) by (simp add: heads_ok_def dep_head_ok_def dep_wf_def)
  then show "quiescent s" using tr dp tm i(4-7) by (simp add: quiescent_def links_ok_def)
  show "o_dispatcher s = d" "tm_abs (o_tensor_map s) = Map.empty" using i tm by simp_all
qed

section \<open>Completion of a task that only depends on itself\<close>

definition keeps_pending :: "orch \<Rightarrow> orch \<Rightarrow> bool" where
  "keeps_pending s s' \<longleftrightarrow> (\<forall>g. td_status (o_get s g) = PENDING \<longrightarrow> td_status (o_get s' g) = PENDING)"

lemma keeps_pending_refl [simp]: "keeps_pending s s"
  by (simp add: keeps_pending_def)

lemma keeps_pending_trans: "keeps_pending a b \<Longrightarrow> keeps_pending b c \<Longrightarrow> keeps_pending a c"
  by (simp add: keeps_pending_def)

lemma o_get_upd_slot:
  "ring_wf (o_task_ring s) \<Longrightarrow> o_get (o_upd p f s) g =
     (if task_slot (o_task_ring s) p = task_slot (o_task_ring s) g then f (o_get s g) else o_get s g)"
  by (simp add: o_get_def o_upd_def task_get_upd_slot)

lemma keeps_pending_upd:
  assumes "ring_wf (o_task_ring s)" "td_status (f (o_get s p)) = td_status (o_get s p) \<or> td_status (o_get s p) \<noteq> PENDING"
  shows "keeps_pending s (o_upd p f s)"
  unfolding keeps_pending_def
proof (intro allI impI)
  fix g assume g: "td_status (o_get s g) = PENDING"
  have "o_get s g = o_get s p" if "task_slot (o_task_ring s) p = task_slot (o_task_ring s) g"
    using that by (simp add: o_get_def task_get_def)
  then show "td_status (o_get (o_upd p f s) g) = PENDING"
    using g assms o_get_upd_slot [OF assms(1), of p f g] by (metis (full_types))
qed

lemma keeps_pending_consumed: "ring_wf (o_task_ring s) \<Longrightarrow> keeps_pending s (check_task_consumed p s)"
  by (auto simp: check_task_consumed_def Let_def set_status_def intro!: keeps_pending_upd)

lemma evolves_edges:
  assumes "evolves s s'" "ring_wf (o_task_ring s)"
  shows "deps s' i = deps s i" "outs s' i = outs s i" "live s' i = live s i"
  using evolvesD(1,8,9) [OF assms(1)] desc_evolvesD(1,2) [OF evolves_get [OF assms, of i]]
  by (simp_all add: deps_def outs_def live_def task_live_def)

lemma release_keeps_pending:
  assumes "ring_wf (o_task_ring s)"
  shows "\<exists>s'. release_producer p s = Inr s' \<and> evolves s s' \<and> keeps_pending s s'"
proof -
  let ?u = "o_upd p (\<lambda>d. d\<lparr>td_fanout_refcount := td_fanout_refcount d + 1\<rparr>) s"
  have "keeps_pending s ?u" using assms by (intro keeps_pending_upd) auto
  moreover have "keeps_pending ?u (check_task_consumed p ?u)" using assms by (intro keeps_pending_consumed) simp
  ultimately have "keeps_pending s (check_task_consumed p ?u)" by (rule keeps_pending_trans)
  then show ?thesis using release_producer_steps [of s p] by (simp add: release_producer_def)
qed

lemma notify_keeps_pending:
  assumes "ring_wf (o_task_ring s)"
  shows "\<exists>s'. notify_consumer c s = Inr s' \<and> evolves s s' \<and> keeps_pending s s'"
  using notify_consumer_steps [of s c] assms
  by (auto simp: notify_consumer_def intro!: keeps_pending_upd)

lemma foldR_keeps_pending:
  assumes "ring_wf (o_task_ring s)"
    and "\<And>x u. x \<in> set xs \<Longrightarrow> evolves s u \<Longrightarrow> \<exists>u'. f x u = Inr u' \<and> evolves u u' \<and> keeps_pending u u'"
  shows "\<exists>s'. foldR f xs s = Inr s' \<and> evolves s s' \<and> keeps_pending s s'"
  by (rule foldR_total [where P = "\<lambda>u. evolves s u \<and> keeps_pending s u"])
    (use assms(2) evolves_trans keeps_pending_trans in \<open>simp, meson\<close>)

lemma foldR_noop: "(\<And>x. x \<in> set xs \<Longrightarrow> f x s = Inr s) \<Longrightarrow> foldR f xs s = Inr s"
  by (induction xs) auto

lemma propagate_self:
  assumes "links_ok s" "set (outs s t) \<subseteq> {t}" "3 \<le> status_rank (td_status (o_get s t))"
  shows "\<exists>s'. propagate_completion t s = Inr s' \<and> evolves s s' \<and> keeps_pending s s'"
proof -
  have wf: "ring_wf (o_task_ring s)" using assms(1) by (simp add: links_ok_def)
  have wfe: "ring_wf (o_task_ring u)" if "evolves s u" for u using evolves_ring_wf [OF that] wf by simp
  have "\<exists>s1. dep_for_each (o_dep_pool s) release_producer (td_dep_list_head (o_get s t)) s = Inr s1 \<and>
      evolves s s1 \<and> keeps_pending s s1"
    unfolding each_foldR(1) [OF assms(1)]
    by (rule foldR_keeps_pending [OF wf]) (rule release_keeps_pending, rule wfe)
  then obtain s1 where 1: "dep_for_each (o_dep_pool s) release_producer (td_dep_list_head (o_get s t)) s = Inr s1"
    "evolves s s1" "keeps_pending s s1" by blast
  note ok1 = links_ok_evolves [OF 1(2) assms(1)]
  have "\<exists>s2. dep_for_each (o_dep_pool s1) notify_consumer (td_fanout_list_head (o_get s1 t)) s1 = Inr s2 \<and>
      evolves s1 s2 \<and> keeps_pending s1 s2"
    unfolding each_foldR(2) [OF ok1]
    by (rule foldR_keeps_pending [OF wfe [OF 1(2)]]) (rule notify_keeps_pending, rule wfe, rule evolves_trans [OF 1(2)])
  then obtain s2 where 2: "dep_for_each (o_dep_pool s1) notify_consumer (td_fanout_list_head (o_get s1 t)) s1 = Inr s2"
    "evolves s1 s2" "keeps_pending s1 s2" by blast
  note e2 = evolves_trans [OF 1(2) 2(2)]
  have "outs s2 t = outs s t" using evolves_edges [OF e2 wf] by simp
  moreover have "td_status (o_get s2 t) \<noteq> PENDING"
    using evolves_get [OF e2 wf, of t] assms(3) by (auto simp: desc_evolves_def)
  ultimately have "check_consumer_with pr x s2 = Inr s2" if "x \<in> set (outs s2 t)" for pr x
    using that assms(2) by (auto simp: check_consumer_with_def Let_def)
  then have nop: "foldR (check_consumer_with pr) (outs s2 t) s2 = Inr s2" for pr
    by (rule foldR_noop)
  let ?s3 = "check_task_consumed t s2"
  have "propagate_completion t s = Inr ?s3"
    using 1(1) 2(1) nop links_ok_evolves [OF e2 assms(1)]
    by (simp add: propagate_completion_def o_fuel_def check_consumers_ready_with_def each_foldR outs_def)
  moreover have "evolves s ?s3" by (rule evolves_trans [OF e2 evolves_check_consumed])
  moreover have "keeps_pending s ?s3"
    using 1(3) 2(3) keeps_pending_consumed [OF wfe [OF e2], of t] by (meson keeps_pending_trans)
  ultimately show ?thesis by blast
qed

section \<open>Pending groups without a dispatcher\<close>

definition pending_at :: "i32 \<Rightarrow> orch \<Rightarrow> bool" where
  "pending_at g s \<longleftrightarrow> live s g \<and> td_status (o_get s g) = PENDING \<and> o_dispatcher s = NoDispatcher"

lemma pending_at_keeps:
  "pending_at g s \<Longrightarrow> evolves s s' \<Longrightarrow> keeps_pending s s' \<Longrightarrow> ring_wf (o_task_ring s) \<Longrightarrow> pending_at g s'"
  by (simp add: pending_at_def keeps_pending_def evolves_edges evolvesD(2))

lemma pending_at_other:
  "pending_at g s \<Longrightarrow> g \<noteq> tid \<Longrightarrow> live s tid \<Longrightarrow> ring_wf (o_task_ring s) \<Longrightarrow> pending_at g (o_upd tid f s)"
  by (simp add: pending_at_def o_get_upd)

lemma pending_at_ghost [simp]:
  "pending_at g (s\<lparr>o_calls := a\<rparr>) = pending_at g s" "pending_at g (s\<lparr>o_next_sub_dispatch_id := b\<rparr>) = pending_at g s"
  "pending_at g (s\<lparr>o_next_sub_dispatch_id := b, o_sub_dispatch_to_group := c\<rparr>) = pending_at g s"
  "pending_at g (s\<lparr>o_pending_group_specs := d\<rparr>) = pending_at g s"
  "pending_at g (s\<lparr>o_next_tensor_handle := e\<rparr>) = pending_at g s" "pending_at g (s\<lparr>o_heap_ring := h\<rparr>) = pending_at g s"
  "pending_at g (s\<lparr>o_heap_block_count := i\<rparr>) = pending_at g s" "pending_at g (s\<lparr>o_peak_heap_used := j\<rparr>) = pending_at g s"
  "pending_at g (s\<lparr>o_free_tensor_count := i\<rparr>) = pending_at g s" "pending_at g (s\<lparr>o_snapshots := k\<rparr>) = pending_at g s"
  "pending_at g (s\<lparr>o_done := l\<rparr>) = pending_at g s"
  "pending_at g (s\<lparr>o_scope_stack := m, o_scope_begin_count := n\<rparr>) = pending_at g s"
  by (simp_all add: pending_at_def live_def o_get_def)

lemma pending_at_advance:
  assumes "quiescent s" "pending_at g s" "try_advance_ring_pointers s = Inr s'"
  shows "pending_at g s'"
proof -
  have q: "ring_wf (o_task_ring s)" "\<not> o_scheduler_mu s" using assms(1) by (auto simp: quiescent_def links_ok_def)
  have r: "o_task_ring s' = set_last_task_alive (retire_point s) (o_task_ring s)" "o_dispatcher s' = o_dispatcher s"
    using assms(3) unfolding try_advance_eq [OF q] by auto
  have "\<not> g < retire_point s" using retire_point_spec(3) [OF q(1), of g] assms(2)
    by (auto simp: pending_at_def live_def task_live_def)
  then show ?thesis using assms(2) by (auto simp: pending_at_def live_def task_live_def o_get_def r)
qed

lemma pending_at_complete:
  assumes "links_ok s" "pending_at g s" "g \<noteq> tid" "live s tid" "set (outs s tid) \<subseteq> {tid}"
  shows "\<exists>s'. propagate_completion tid (set_status COMPLETED tid s) = Inr s' \<and> evolves s s' \<and> pending_at g s'"
proof -
  let ?u = "set_status COMPLETED tid s"
  have wf: "ring_wf (o_task_ring s)" using assms(1) by (simp add: links_ok_def)
  have e: "evolves s ?u" by (simp add: evolves_set_status)
  have p: "pending_at g ?u" unfolding set_status_def by (rule pending_at_other [OF assms(2,3,4) wf])
  have "td_status (o_get ?u tid) = COMPLETED"
    using o_get_upd [OF wf assms(4,4)] by (simp add: set_status_def)
  moreover have "set (outs ?u tid) \<subseteq> {tid}" using evolves_edges(2) [OF e wf] assms(5) by simp
  ultimately obtain s' where s': "propagate_completion tid ?u = Inr s'" "evolves ?u s'" "keeps_pending ?u s'"
    using propagate_self [OF links_ok_evolves [OF e assms(1)], of tid] by auto
  have "pending_at g s'" by (rule pending_at_keeps [OF p s'(2,3)]) (simp add: evolves_ring_wf [OF e] wf)
  with s' evolves_trans [OF e s'(2)] show ?thesis by blast
qed

lemma pending_at_group:
  assumes "links_ok s" "pending_at g s" "g \<noteq> tid" "live s tid" "outs s tid = []" "o_dispatcher s = NoDispatcher"
  shows "\<exists>s'. dispatch_group_sub_tasks tid k ps subs s = Inr s' \<and> evolves s s' \<and> pending_at g s'"
  unfolding dispatch_group_sub_tasks_def dispatch_group_sub_tasks_with_def
proof (rule foldR_total [where P = "\<lambda>u. evolves s u \<and> pending_at g u"])
  fix x u assume "evolves s u \<and> pending_at g u"
  then have u: "evolves s u" "pending_at g u" by auto
  have wf: "ring_wf (o_task_ring s)" using assms(1) by (simp add: links_ok_def)
  let ?v = "u\<lparr>o_next_sub_dispatch_id := o_next_sub_dispatch_id u - 1,
    o_sub_dispatch_to_group := (o_sub_dispatch_to_group u)(o_next_sub_dispatch_id u \<mapsto> tid)\<rparr>"
  let ?w = "o_upd tid (\<lambda>d. d\<lparr>td_sub_complete_count := td_sub_complete_count d + 1\<rparr>) ?v"
  have ev: "evolves s ?v" by (rule evolves_trans [OF u(1) evolves_ghost(3)])
  have ew: "evolves s ?w" by (rule evolves_trans [OF ev evolves_bump_sub])
  have wfv: "ring_wf (o_task_ring ?v)" using evolves_ring_wf [OF ev] wf by simp
  have lv: "live ?v tid" using evolves_edges(3) [OF ev wf] assms(4) by simp
  have pw: "pending_at g ?w" by (rule pending_at_other [OF _ assms(3) lv wfv]) (use u(2) in simp)
  have "live ?w tid" "set (outs ?w tid) \<subseteq> {tid}" using evolves_edges [OF ew wf, of tid] assms(4,5) by auto
  from pending_at_complete [OF links_ok_evolves [OF ew assms(1)] pw assms(3) this] obtain z where
    z: "propagate_completion tid (set_status COMPLETED tid ?w) = Inr z" "evolves ?w z" "pending_at g z" by blast
  have "o_dispatcher u = NoDispatcher" using evolvesD(2) [OF u(1)] assms(6) by simp
  then show "\<exists>s'. dispatch_sub_task_with propagate_completion tid k ps (length subs) x u = Inr s' \<and>
      evolves s s' \<and> pending_at g s'"
    using z pw ew evolves_trans [OF ew z(2)] by (simp add: dispatch_sub_task_with_def Let_def)
qed (use assms in simp)

lemma registered:
  assumes "quiescent s" "has_room (length ps) s" "keeps_edges fill" "register_task fill k ps s = Inr (tid, s1)"
    "td_status (fill (fresh_task s tid k)) = PENDING"
  shows "quiescent s1" "live s1 tid" "td_status (o_get s1 tid) = PENDING" "set (outs s1 tid) \<subseteq> {tid}"
    "o_dispatcher s1 = o_dispatcher s" "\<And>g. pending_at g s \<Longrightarrow> pending_at g s1 \<and> g \<noteq> tid"
    "td_fanin_count (o_get s1 tid) = length (deps s1 tid)" "td_fanin_count (o_get s1 tid) = 0 \<Longrightarrow> outs s1 tid = []"
proof -
  from register_ok [OF assms(1-3), of k] assms(4) have
    t: "tid = tr_current_index (o_task_ring s)" and
    r: "quiescent s1" "live s1 tid" "outs s1 tid = replicate (count_list (rev (deps s1 tid)) tid) tid"
      "bare (o_get s1 tid) = bare ((fill (fresh_task s tid k))\<lparr>td_fanin_count := length (deps s1 tid),
        td_heap_end := hr_top (o_heap_ring s)\<rparr>)" "o_dispatcher s1 = o_dispatcher s"
      "\<forall>i. live s i \<longrightarrow> live s1 i \<and> i \<noteq> tid \<and> bare (o_get s1 i) = bare (o_get s i)"
    by auto
  show "quiescent s1" "live s1 tid" "o_dispatcher s1 = o_dispatcher s" by (fact r)+
  show "td_status (o_get s1 tid) = PENDING" "td_fanin_count (o_get s1 tid) = length (deps s1 tid)"
    using bare_fields [OF r(4)] assms(5) by auto
  then show "td_fanin_count (o_get s1 tid) = 0 \<Longrightarrow> outs s1 tid = []" using r(3) by simp
  show "set (outs s1 tid) \<subseteq> {tid}" using r(3) by auto
  show "pending_at g s1 \<and> g \<noteq> tid" if "pending_at g s" for g
    using r(5,6) that bare_fields [of "o_get s1 g" "o_get s g"] by (simp add: pending_at_def)
qed

lemma fresh_task_status [simp]:
  "td_status (id (fresh_task s tid k)) = PENDING"
  "td_status ((fresh_task s tid k)\<lparr>td_is_group := g, td_group_size := n, td_sub_complete_count := m\<rparr>) = PENDING"
  by (simp_all add: fresh_task_def fresh_descriptor_def)

lemma wait_heap_pending:
  assumes "quiescent s" "pending_at g s" "wait_heap_space n [] sz s = Inr s'"
  shows "pending_at g s'"
  using assms
proof (induction n arbitrary: s)
  case 0
  show ?case
  proof (cases "heap_try_alloc sz (o_heap_ring s)")
    case None
    with 0(3) obtain s1 where "try_advance_ring_pointers s = Inr s1"
      "(case heap_try_alloc sz (o_heap_ring s1) of Some (pos, hr) \<Rightarrow> Inr (s1\<lparr>o_heap_ring := hr\<rparr>)
        | None \<Rightarrow> Inl AssertFail) = Inr s'" by (auto elim: bindR_InrE)
    with pending_at_advance [OF 0(1,2)] show ?thesis by (auto split: option.splits)
  qed (use 0 in auto)
next
  case (Suc n)
  show ?case
  proof (cases "heap_try_alloc sz (o_heap_ring s)")
    case None
    with Suc.prems(3) have "bindR (try_advance_ring_pointers s) (\<lambda>s1.
      case heap_try_alloc sz (o_heap_ring s1) of Some (pos, hr) \<Rightarrow> Inr (s1\<lparr>o_heap_ring := hr\<rparr>)
        | None \<Rightarrow> wait_heap_space n [] sz s1) = Inr s'" by (simp add: deliver_def cong: option.case_cong)
    then obtain s1 where 1: "try_advance_ring_pointers s = Inr s1"
      "(case heap_try_alloc sz (o_heap_ring s1) of Some (pos, hr) \<Rightarrow> Inr (s1\<lparr>o_heap_ring := hr\<rparr>)
        | None \<Rightarrow> wait_heap_space n [] sz s1) = Inr s'" by (rule bindR_InrE)
    with Suc.IH [of s1] quiescent_advance [OF Suc.prems(1) 1(1)] pending_at_advance [OF Suc.prems(1,2) 1(1)]
    show ?thesis by (auto split: option.splits)
  qed (use Suc.prems in auto)
qed

lemma check_all_pending: "ring_wf (o_task_ring s) \<Longrightarrow> pending_at g s \<Longrightarrow> pending_at g (check_all_consumed s)"
proof -
  have "pending_at g (fold check_task_consumed xs s)" if "ring_wf (o_task_ring s)" "pending_at g s" for xs
    using that
  proof (induction xs arbitrary: s)
    case (Cons x xs)
    have "pending_at g (check_task_consumed x s)"
      by (rule pending_at_keeps [OF Cons.prems(2) evolves_check_consumed keeps_pending_consumed [OF Cons.prems(1)] Cons.prems(1)])
    with Cons show ?case using evolves_ring_wf [OF evolves_check_consumed [of s x]] by simp
  qed simp
  then show "ring_wf (o_task_ring s) \<Longrightarrow> pending_at g s \<Longrightarrow> ?thesis" by (simp add: check_all_consumed_def)
qed

lemma pending_at_scope_end:
  assumes "quiescent s" "pending_at g s" "scope_end s = Inr s'"
  shows "pending_at g s'"
proof -
  from assms(3) obtain ss r where r: "stack_scope_end (o_scope_stack s) (o_task_ring s) = Inr (ss, r)"
    and t: "try_advance_ring_pointers (check_all_consumed
       (s\<lparr>o_scope_stack := ss, o_task_ring := r, o_scope_end_count := o_scope_end_count s + 1\<rparr>)) = Inr s'"
    by (auto simp: scope_end_def Let_def split: if_splits elim!: bindR_InrE)
  have wf: "ring_wf (o_task_ring s)" using assms(1) by (simp add: quiescent_def links_ok_def)
  note e = stack_scope_end_evolves [OF r]
  have "scope_release_from sst k i q = Inr q' \<Longrightarrow> ring_wf q \<Longrightarrow> td_status (task_get q g) = PENDING \<Longrightarrow>
      td_status (task_get q' g) = PENDING" for sst k i q q'
  proof (induction sst k i q rule: scope_release_from.induct)
    case (2 sst k i q)
    then obtain tid where t: "scope_release_from sst k (i + 1) (scope_release tid q) = Inr q'"
      by (auto elim: bindR_InrE)
    have "td_status (task_get (scope_release tid q) g) = PENDING" "ring_wf (scope_release tid q)"
      using 2(3,4) by (auto simp: scope_release_def task_get_upd_slot)
    with 2(1) [OF t] show ?case by blast
  qed simp
  moreover obtain k i where "scope_release_from (o_scope_stack s) k i (o_task_ring s) = Inr r"
    using r by (auto simp: stack_scope_end_def elim!: bindR_InrE)
  ultimately have "td_status (task_get r g) = PENDING" using assms(2) wf by (auto simp: pending_at_def o_get_def)
  moreover have "live (s\<lparr>o_task_ring := r\<rparr>) g" using evolves_edges(3) [OF e wf] assms(2) by (simp add: pending_at_def)
  ultimately have p: "pending_at g (s\<lparr>o_scope_stack := ss, o_task_ring := r, o_scope_end_count := o_scope_end_count s + 1\<rparr>)"
    using assms(2) by (simp add: pending_at_def live_def o_get_def)
  have q: "quiescent (s\<lparr>o_scope_stack := ss, o_task_ring := r, o_scope_end_count := o_scope_end_count s + 1\<rparr>)"
    using quiescent_evolves [OF e assms(1)] by (simp add: quiescent_def links_ok_def heads_ok_def)
  then have "ring_wf (o_task_ring (s\<lparr>o_scope_stack := ss, o_task_ring := r, o_scope_end_count := o_scope_end_count s + 1\<rparr>))"
    by (simp add: quiescent_def links_ok_def)
  from check_all_pending [OF this p] show ?thesis
    by (rule pending_at_advance [OF quiescent_evolves [OF check_all_evolves q] _ t])
qed

lemma pending_submit:
  assumes "has_room (length ps) s" "submit_task arrivals tgt k ps s = Inr s'" "quiescent s" "pending_at g s"
  shows "pending_at g s'"
proof -
  let ?k = "case k of Some k \<Rightarrow> k | None \<Rightarrow> ''''"
  from register_ok [OF assms(3,1) keeps_edges_fills(1), of ?k] obtain tid s1 where
    reg: "register_task id ?k ps s = Inr (tid, s1)" by blast
  note r = registered [OF assms(3,1) keeps_edges_fills(1) reg fresh_task_status(1)]
  let ?s2 = "set_status RUNNING tid s1"
  have ok1: "links_ok s1" "ring_wf (o_task_ring s1)" using r(1) by (auto simp: quiescent_def links_ok_def)
  have e2: "evolves s1 ?s2" using r(3) by (rule set_status_running)
  have p2: "pending_at g ?s2" unfolding set_status_def
    using r(6) [OF assms(4)] by (intro pending_at_other r(2) ok1(2)) auto
  have fin: "pending_at g s'" if "propagate_completion tid (set_status COMPLETED tid u) = Inr s'"
    "links_ok u" "pending_at g u" "live u tid" "set (outs u tid) \<subseteq> {tid}" for u
    using pending_at_complete [OF that(2,3) _ that(4,5)] that(1) r(6) [OF assms(4)] by auto
  have d2: "o_dispatcher ?s2 = NoDispatcher" using r(5) assms(4) by (simp add: set_status_def pending_at_def)
  have ou: "links_ok u \<and> live u tid \<and> set (outs u tid) \<subseteq> {tid}" if "evolves s1 u" for u
    using links_ok_evolves [OF that ok1(1)] evolves_edges(2,3) [OF that ok1(2), of tid] r(2,4) by auto
  show ?thesis
  proof (cases "o_dispatch_fn ?s2")
    case True
    let ?c = "o_calls ?s2 @ [\<lparr>dc_task_id = tid, dc_target = tgt, dc_kernel_so = ?k, dc_params = ps\<rparr>]"
    have "propagate_completion tid (set_status COMPLETED tid (?s2\<lparr>o_calls := ?c\<rparr>)) = Inr s'"
      using assms(1,2) reg d2 True by (simp add: submit_task_def Let_def)
    then show ?thesis
      by (rule fin) (use p2 ou [OF evolves_trans [OF e2 evolves_ghost(1)]] in auto)
  next
    case False
    then have "propagate_completion tid (set_status COMPLETED tid ?s2) = Inr s'"
      using assms(1,2) reg d2 by (simp add: submit_task_def Let_def)
    then show ?thesis by (rule fin) (use p2 ou [OF e2] in auto)
  qed
qed

lemma pending_submit_group:
  assumes "has_room (length ps) s" "submit_task_group arrivals k ps subs s = Inr s'" "quiescent s" "pending_at g s"
  shows "pending_at g s'"
proof -
  let ?k = "case k of Some k \<Rightarrow> k | None \<Rightarrow> ''group''"
  let ?fill = "\<lambda>d :: task_desc. d\<lparr>td_is_group := True, td_group_size := length subs, td_sub_complete_count := 0\<rparr>"
  from register_ok [OF assms(3,1) keeps_edges_fills(2) [where g = True and n = "length subs" and m = 0], of ?k]
  obtain tid s1 where
    reg: "register_task ?fill ?k ps s = Inr (tid, s1)" by blast
  note r = registered [OF assms(3,1) keeps_edges_fills(2) reg fresh_task_status(2)]
  have ok1: "links_ok s1" "ring_wf (o_task_ring s1)" using r(1) by (auto simp: quiescent_def links_ok_def)
  have g1: "pending_at g s1" "g \<noteq> tid" using r(6) [OF assms(4)] by auto
  have other: "pending_at g (set_status st tid s1)" for st
    unfolding set_status_def by (rule pending_at_other [OF g1 r(2) ok1(2)])
  consider (none) "subs = []" | (now) "subs \<noteq> []" "td_fanin_count (o_get s1 tid) = 0"
    | (later) "subs \<noteq> []" "td_fanin_count (o_get s1 tid) \<noteq> 0" by blast
  then show ?thesis
  proof cases
    case none
    then have "propagate_completion tid (set_status COMPLETED tid s1) = Inr s'"
      using assms(1,2) reg by (simp add: submit_task_group_def)
    then show ?thesis using pending_at_complete [OF ok1(1) g1 r(2,4)] by auto
  next
    case now
    let ?s2 = "set_status RUNNING tid s1"
    have e2: "evolves s1 ?s2" using r(3) by (rule set_status_running)
    have "dispatch_group_sub_tasks tid k ps subs ?s2 = Inr s'"
      using assms(1,2) reg now by (simp add: submit_task_group_def)
    moreover have "outs ?s2 tid = []" "live ?s2 tid" "o_dispatcher ?s2 = NoDispatcher"
      using evolves_edges [OF e2 ok1(2), of tid] r(2,5) r(8) [OF now(2)] assms(4) by (auto simp: set_status_def pending_at_def)
    ultimately show ?thesis
      using pending_at_group [OF links_ok_evolves [OF e2 ok1(1)] other g1(2), of k ps subs] by auto
  next
    case later
    then have "s' = (set_status PENDING tid s1)\<lparr>o_pending_group_specs := (o_pending_group_specs (set_status PENDING tid s1))(tid \<mapsto>
         \<lparr>pg_kernel_so = (case k of Some k \<Rightarrow> k | None \<Rightarrow> ''''), pg_group_params = ps, pg_sub_tasks = subs\<rparr>)\<rparr>"
      using assms(1,2) reg by (simp add: submit_task_group_def Let_def)
    then show ?thesis using other by simp
  qed
qed

lemma pending_step:
  assumes "orch_step s s'" "quiescent s" "pending_at g s"
  shows "pending_at g s'"
  using assms
proof (induction rule: orch_step.induct)
  case (submit ps s arrivals tgt k s')
  then show ?case by (rule pending_submit)
next
  case (group ps s arrivals k subs s')
  then show ?case by (rule pending_submit_group)
next
  case (scope_in s s')
  then show ?case by (auto simp: scope_begin_def elim!: bindR_InrE)
next
  case (scope_out s s')
  then show ?case using pending_at_scope_end by blast
next
  case (alloc s arrivals tgt sz h s')
  then have ar: "arrivals = []" by (simp add: pending_at_def)
  let ?t = "s\<lparr>o_next_tensor_handle := o_next_tensor_handle s + 1\<rparr>"
  have "pending_at g u" if "wait_heap_space n [] sz (?t\<lparr>o_heap_block_count := m\<rparr>) = Inr u" for u n m
    by (rule wait_heap_pending [OF _ _ that]) (use alloc(3,4) in simp_all)
  with alloc(2,4) show ?case unfolding ar
    by (auto simp: alloc_tensor_def Let_def split: if_splits option.splits elim!: bindR_InrE)
next
  case (complete s t s')
  then show ?case by (simp add: pending_at_def)
qed (simp_all add: free_tensor_def take_snapshot_def orchestration_done_def)

lemma pending_run: "orch_step\<^sup>*\<^sup>* s s' \<Longrightarrow> quiescent s \<Longrightarrow> pending_at g s \<Longrightarrow> pending_at g s'"
  by (induction rule: converse_rtranclp_induct) (auto intro: pending_step quiescent_step)

lemma quiescent_run: "orch_step\<^sup>*\<^sup>* s s' \<Longrightarrow> quiescent s \<Longrightarrow> quiescent s'"
  by (induction rule: converse_rtranclp_induct) (auto intro: quiescent_step)

section \<open>What a submission does\<close>

lemma evolves_static:
  assumes "evolves s s'" "ring_wf (o_task_ring s)"
  shows "td_fanin_count (o_get s' i) = td_fanin_count (o_get s i)"
    "td_fanout_count (o_get s' i) = td_fanout_count (o_get s i)"
  using desc_evolvesD(3,4) [OF evolves_get [OF assms, of i]] by simp_all

lemma submit_task_ok:
  assumes "quiescent s" "has_room (length ps) s" "o_dispatcher s \<noteq> SyncDispatcher"
  defines "tid \<equiv> tr_current_index (o_task_ring s)"
    and "qs \<equiv> fst (dataflow (tr_current_index (o_task_ring s)) ps (tm_abs (o_tensor_map s)))"
  shows "\<exists>s'. submit_task arrivals tgt k ps s = Inr s' \<and> quiescent s' \<and> live s' tid \<and>
    deps s' tid = rev qs \<and> td_fanin_count (o_get s' tid) = length qs \<and>
    tm_abs (o_tensor_map s') = snd (dataflow tid ps (tm_abs (o_tensor_map s))) \<and>
    (\<forall>i. live s i \<longrightarrow> live s' i \<and> deps s' i = deps s i \<and> outs s' i = replicate (count_list qs i) tid @ outs s i \<and>
       td_fanout_count (o_get s' i) = td_fanout_count (o_get s i) + count_list qs i)"
proof -
  let ?k = "case k of Some k \<Rightarrow> k | None \<Rightarrow> ''''"
  from register_ok [OF assms(1,2) keeps_edges_fills(1), of ?k] obtain s1 where
    r: "register_task id ?k ps s = Inr (tid, s1)" "quiescent s1" "live s1 tid" "deps s1 tid = rev qs"
      "tm_abs (o_tensor_map s1) = snd (dataflow tid ps (tm_abs (o_tensor_map s)))" "o_dispatcher s1 = o_dispatcher s"
      "\<forall>i. live s i \<longrightarrow> live s1 i \<and> deps s1 i = deps s i \<and> outs s1 i = replicate (count_list qs i) tid @ outs s i \<and>
       td_fanout_count (o_get s1 i) = td_fanout_count (o_get s i) + count_list qs i"
    unfolding tid_def qs_def by blast
  note rg = registered [OF assms(1,2) keeps_edges_fills(1) r(1) fresh_task_status(1)]
  have ok1: "links_ok s1" "ring_wf (o_task_ring s1)" using r(2) by (auto simp: quiescent_def links_ok_def)
  from submit_task_steps [OF assms(2) r(1) ok1(1) rg(3), of arrivals tgt] r(6) assms(3) obtain s' where
    s': "submit_task arrivals tgt k ps s = Inr s'" "evolves s1 s'" by (auto simp: steps_def split: sum.splits)
  note e = evolves_edges [OF s'(2) ok1(2)] and st = evolves_static [OF s'(2) ok1(2)]
  show ?thesis
    using s' r(3,4,5,7) e st rg(7) quiescent_evolves [OF s'(2) r(2)] evolvesD(5) [OF s'(2)]
    by (intro exI [of _ s']) auto
qed

lemma default_start:
  assumes "n \<le> 256"
  shows "\<exists>s. orch_init 3 coord_zero orch_config_default d fn = Inr s \<and> quiescent s \<and> has_room n s \<and>
    o_dispatcher s = d \<and> tr_current_index (o_task_ring s) = 0 \<and> tm_abs (o_tensor_map s) = Map.empty \<and> o_calls s = []"
proof -
  obtain s where s: "orch_init 3 coord_zero orch_config_default d fn = Inr s"
    by (simp add: orch_init_def orch_config_default_def task_ring_init_def dep_init_def tm_init_def)
  have "has_room n s" "tr_current_index (o_task_ring s) = 0" "o_calls s = []"
    using s assms
    by (auto simp: orch_init_def orch_config_default_def task_ring_init_def dep_init_def tm_init_def has_room_def
        has_space_def active_count_def dep_available_def dep_used_def tm_room_def scope_init_def scope_new_def
        MAX_SCOPE_DEPTH_def)
  with s init_quiescent [OF s] show ?thesis by (auto simp: orch_config_default_def)
qed

section \<open>Properties\<close>



text \<open>C2. Submission builds the data-flow graph. With room for the task and a dispatcher that does not call
  back from inside \<^verbatim>\<open>dispatch\<close>, \<^verbatim>\<open>submit_task\<close> returns; the new task's fan-in chain is the list of the latest
  producers of the handles it reads, in the order of the parameters, its fan-in count their number;
  every producer's fan-out chain and count gain the new task once per edge, and no other edge changes;
  the tensor map records the new task as the producer of what it writes.\<close>

theorem submit_builds_dataflow:
  assumes "quiescent s" "has_room (length ps) s" "o_dispatcher s \<noteq> SyncDispatcher"
  shows "\<exists>s'. submit_task arrivals tgt k ps s = Inr s' \<and>
    (let tid = tr_current_index (o_task_ring s); (qs, m) = dataflow tid ps (tm_abs (o_tensor_map s)) in
     deps s' tid = rev qs \<and> td_fanin_count (o_get s' tid) = length qs \<and> tm_abs (o_tensor_map s') = m \<and>
     (\<forall>i. live s i \<longrightarrow> deps s' i = deps s i \<and> outs s' i = replicate (count_list qs i) tid @ outs s i \<and>
       td_fanout_count (o_get s' i) = td_fanout_count (o_get s i) + count_list qs i))"
  using submit_task_ok [OF assms, of arrivals tgt k] by (auto simp: Let_def split: prod.splits)

theorem submit_builds_dataflow_witness:
  "\<exists>s s'. orch_init 3 coord_zero orch_config_default NoDispatcher False = Inr s \<and>
     submit_task [] coord_zero None [linqu_make_output 7, linqu_make_inout 7] s = Inr s' \<and>
     deps s' 0 = [0] \<and> tm_abs (o_tensor_map s') = [7 \<mapsto> 0]"
proof -
  let ?ps = "[linqu_make_output 7, linqu_make_inout 7]"
  obtain s where s: "orch_init 3 coord_zero orch_config_default NoDispatcher False = Inr s" "quiescent s" "has_room 2 s"
    "o_dispatcher s = NoDispatcher" "tr_current_index (o_task_ring s) = 0" "tm_abs (o_tensor_map s) = Map.empty"
    using default_start [of 2] by fastforce
  with submit_builds_dataflow [of s ?ps "[]" coord_zero None] show ?thesis
    by (auto simp: numeral_2_eq_2 Let_def reads_def writes_def linqu_make_output_def linqu_make_inout_def)
qed

text \<open>C27. A task is sent out before its inputs exist. With an asynchronous dispatcher \<^verbatim>\<open>submit_task\<close> hands the
  task to the dispatcher at once and marks it running, whatever its fan-in: a producer it depends on
  may still be running. The counters that would let it wait are maintained and not consulted.\<close>

theorem submit_never_waits:
  assumes "quiescent s" "has_room (length ps) s" "o_dispatcher s = AsyncDispatcher"
  shows "\<exists>s'. submit_task arrivals tgt k ps s = Inr s' \<and>
    (let tid = tr_current_index (o_task_ring s) in
     td_status (o_get s' tid) = RUNNING \<and>
     td_fanin_count (o_get s' tid) = length (fst (dataflow tid ps (tm_abs (o_tensor_map s)))) \<and>
     (\<forall>i. live s i \<longrightarrow> td_status (o_get s' i) = td_status (o_get s i)) \<and>
     o_calls s' = o_calls s @ [\<lparr>dc_task_id = tid, dc_target = tgt,
       dc_kernel_so = (case k of Some k \<Rightarrow> k | None \<Rightarrow> ''''), dc_params = ps\<rparr>])"
proof -
  let ?k = "case k of Some k \<Rightarrow> k | None \<Rightarrow> ''''" and ?tid = "tr_current_index (o_task_ring s)"
  from register_ok [OF assms(1,2) keeps_edges_fills(1), of ?k] obtain s1 where
    r: "register_task id ?k ps s = Inr (?tid, s1)" "quiescent s1" "live s1 ?tid" "o_dispatcher s1 = AsyncDispatcher"
      "o_calls s1 = o_calls s" "deps s1 ?tid = rev (fst (dataflow ?tid ps (tm_abs (o_tensor_map s))))"
      "\<forall>i. live s i \<longrightarrow> live s1 i \<and> i \<noteq> ?tid \<and> bare (o_get s1 i) = bare (o_get s i)"
    using assms(3) by auto
  note rg = registered [OF assms(1,2) keeps_edges_fills(1) r(1) fresh_task_status(1)]
  have wf: "ring_wf (o_task_ring s1)" using r(2) by (simp add: quiescent_def links_ok_def)
  let ?s2 = "set_status RUNNING ?tid s1"
  let ?s' = "?s2\<lparr>o_calls := o_calls s @ [\<lparr>dc_task_id = ?tid, dc_target = tgt, dc_kernel_so = ?k, dc_params = ps\<rparr>]\<rparr>"
  have "submit_task arrivals tgt k ps s = Inr ?s'"
    using assms(2) r(1,4,5) by (simp add: submit_task_def Let_def dispatch_def dispatch_with_def set_status_def)
  moreover have "o_get ?s' i = o_get ?s2 i" for i by (simp add: o_get_def)
  moreover have "o_get ?s2 i = (if i = ?tid then (o_get s1 i)\<lparr>td_status := RUNNING\<rparr> else o_get s1 i)" if "live s1 i" for i
    using o_get_upd [OF wf r(3) that] by (auto simp: set_status_def)
  moreover have "td_status (o_get s1 i) = td_status (o_get s i)" if "live s i" for i
    using r(7) that bare_fields [of "o_get s1 i" "o_get s i"] by blast
  ultimately show ?thesis using r(3,6,7) rg(7) by (intro exI [of _ ?s']) (simp add: Let_def)
qed

theorem submit_never_waits_witness:
  "\<exists>s s'. orch_init 3 coord_zero orch_config_default AsyncDispatcher False = Inr s \<and>
     submit_task [] coord_zero None [linqu_make_output 7, linqu_make_input 7] s = Inr s' \<and>
     td_status (o_get s' 0) = RUNNING \<and> td_fanin_count (o_get s' 0) = 1 \<and> length (o_calls s') = 1"
proof -
  let ?ps = "[linqu_make_output 7, linqu_make_input 7]"
  obtain s where s: "orch_init 3 coord_zero orch_config_default AsyncDispatcher False = Inr s" "quiescent s" "has_room 2 s"
    "o_dispatcher s = AsyncDispatcher" "tr_current_index (o_task_ring s) = 0" "tm_abs (o_tensor_map s) = Map.empty"
    "o_calls s = []"
    using default_start [of 2] by fastforce
  with submit_never_waits [of s ?ps "[]" coord_zero None] show ?thesis
    by (auto simp: numeral_2_eq_2 Let_def reads_def writes_def linqu_make_output_def linqu_make_input_def)
qed

text \<open>C26. Without a dispatcher a group with a dependency never runs. \<^verbatim>\<open>submit_task_group\<close> counts every producer
  it finds towards the fan-in, also one that has completed, and parks the group; completions that
  would wake it have already happened. Whatever calls follow, the group stays live and pending, so the
  window never moves past it.\<close>

theorem group_with_producer_never_runs:
  assumes "quiescent s" "has_room (length ps) s" "o_dispatcher s = NoDispatcher" "subs \<noteq> []"
    and "fst (dataflow (tr_current_index (o_task_ring s)) ps (tm_abs (o_tensor_map s))) \<noteq> []"
  shows "\<exists>s1. submit_task_group arrivals k ps subs s = Inr s1 \<and>
    (\<forall>s'. orch_step\<^sup>*\<^sup>* s1 s' \<longrightarrow> live s' (tr_current_index (o_task_ring s)) \<and>
       td_status (o_get s' (tr_current_index (o_task_ring s))) = PENDING)"
proof -
  let ?k = "case k of Some k \<Rightarrow> k | None \<Rightarrow> ''group''" and ?tid = "tr_current_index (o_task_ring s)"
  let ?fill = "\<lambda>d :: task_desc. d\<lparr>td_is_group := True, td_group_size := length subs, td_sub_complete_count := 0\<rparr>"
  note ke = keeps_edges_fills(2) [where g = True and n = "length subs" and m = 0]
  from register_ok [OF assms(1,2) ke, of ?k] assms(3,5) obtain s1 where
    r: "register_task ?fill ?k ps s = Inr (?tid, s1)" "deps s1 ?tid \<noteq> []" "o_dispatcher s1 = NoDispatcher" by auto
  note rg = registered [OF assms(1,2) ke r(1) fresh_task_status(2)]
  have wf: "ring_wf (o_task_ring s1)" using rg(1) by (simp add: quiescent_def links_ok_def)
  let ?s2 = "set_status PENDING ?tid s1"
  let ?s3 = "?s2\<lparr>o_pending_group_specs := (o_pending_group_specs ?s2)(?tid \<mapsto>
    \<lparr>pg_kernel_so = (case k of Some k \<Rightarrow> k | None \<Rightarrow> ''''), pg_group_params = ps, pg_sub_tasks = subs\<rparr>)\<rparr>"
  have eq: "submit_task_group arrivals k ps subs s = Inr ?s3"
    using assms(2,4) r(1,2) rg(7) by (simp add: submit_task_group_def Let_def)
  have "evolves s1 ?s2" by (rule evolves_set_status) (simp add: rg(3))
  then have "quiescent ?s3" using quiescent_evolves rg(1) by simp
  moreover have "pending_at ?tid ?s3"
    using o_get_upd [OF wf rg(2) rg(2)] rg(2) r(3) by (simp add: pending_at_def set_status_def o_upd_def live_def o_get_def)
  ultimately show ?thesis using pending_run eq by (intro exI [of _ ?s3]) (auto simp: pending_at_def)
qed

theorem group_with_producer_never_runs_witness:
  "\<exists>s s1. orch_init 3 coord_zero orch_config_default NoDispatcher False = Inr s \<and>
     submit_task_group [] None [linqu_make_output 7, linqu_make_input 7]
       [\<lparr>st_target = coord_zero, st_kernel_so = None, st_private_params = []\<rparr>] s = Inr s1 \<and>
     (\<forall>s'. orch_step\<^sup>*\<^sup>* s1 s' \<longrightarrow> td_status (o_get s' 0) = PENDING)"
proof -
  let ?ps = "[linqu_make_output 7, linqu_make_input 7]"
  obtain s where s: "orch_init 3 coord_zero orch_config_default NoDispatcher False = Inr s" "quiescent s" "has_room 2 s"
    "o_dispatcher s = NoDispatcher" "tr_current_index (o_task_ring s) = 0" "tm_abs (o_tensor_map s) = Map.empty"
    using default_start [of 2] by fastforce
  with group_with_producer_never_runs [of s ?ps "[\<lparr>st_target = coord_zero, st_kernel_so = None, st_private_params = []\<rparr>]" "[]" None]
  show ?thesis
    by (auto simp: numeral_2_eq_2 Let_def reads_def writes_def linqu_make_output_def linqu_make_input_def)
qed

end
