(* ===== verification/Level_Runtime.thy ===== *)
theory Level_Runtime
  imports Heap_Ring Dep_Pool Scope_Stack Tensor_Map Profiling
begin

text \<open>
  \<^verbatim>\<open>LevelRuntime\<close> (src/src/runtime/level_runtime.h and .cpp) and \<^verbatim>\<open>LinquTensor\<close> (src/src/core/tensor.h
  and .cpp): the multi-threaded runtime of one hierarchy level. Tasks are submitted with input and
  output tensors; a task becomes ready when the tasks that produce its inputs have completed and its
  inputs from other levels are marked ready, goes through the ready queue to a worker thread, runs,
  and its completion is propagated along its fan-out chain.

  \<^item> The state is a record of the members. What tensors share through \<^verbatim>\<open>shared_ptr\<close> lives in stores:
    \<open>l_ready_cells\<close> (the \<^verbatim>\<open>ready\<close> flags), \<open>l_data_cells\<close> (the \<^verbatim>\<open>data_ref\<close> pointers) and \<open>l_futures\<close>
    (the promises, as the flag whether \<^verbatim>\<open>set_value\<close> was called); a tensor holds the addresses.
  \<^item> \<open>l_mem\<close> is the contents of the heap ring, by byte offset of a 64-bit element. A closure
    (\<^verbatim>\<open>std::function\<close>) is a number; what it does to the heap is the argument \<open>exec\<close>.
  \<^item> Every method is a function on the state that runs without interruption. What other threads do
    while a submission sleeps is the argument \<open>idle\<close>; clock readings are arguments.
\<close>

section \<open>Tensors\<close>

record linqu_tensor =
  t_handle :: u64
  t_count :: u64
  t_data_ref :: "nat option"
  t_ready :: "nat option"

definition INVALID_HANDLE :: u64 where
  "INVALID_HANDLE = 0"

definition t_is_valid :: "linqu_tensor \<Rightarrow> bool" where
  "t_is_valid t \<longleftrightarrow> t_handle t \<noteq> INVALID_HANDLE"

definition t_is_ready :: "bool list \<Rightarrow> linqu_tensor \<Rightarrow> bool" where
  "t_is_ready cells t = (case t_ready t of None \<Rightarrow> False | Some a \<Rightarrow> cells ! a)"

definition t_mark_ready :: "linqu_tensor \<Rightarrow> bool list \<Rightarrow> bool list" where
  "t_mark_ready t cells = (case t_ready t of None \<Rightarrow> cells | Some a \<Rightarrow> cells[a := True])"

definition t_data_ptr :: "u64 option list \<Rightarrow> linqu_tensor \<Rightarrow> u64 option" where
  "t_data_ptr cells t = (case t_data_ref t of None \<Rightarrow> None | Some a \<Rightarrow> cells ! a)"

definition t_scalar :: "bool list \<Rightarrow> u64 option list \<Rightarrow> (nat \<Rightarrow> u64) \<Rightarrow> linqu_tensor \<Rightarrow> u64 res" where
  "t_scalar ready data mem t =
     (case t_data_ptr data t of
        Some p \<Rightarrow> if t_is_ready ready t then Inr (mem (unat p)) else Inl AssertFail
      | None \<Rightarrow> Inl AssertFail)"

section \<open>State\<close>

record lr_config =
  lc_task_ring_window :: i32
  lc_heap_ring_capacity :: u64
  lc_dep_pool_capacity :: i32
  lc_tensormap_buckets :: i32
  lc_tensormap_pool :: i32
  lc_ready_queue_capacity :: i32

definition lr_config_default :: lr_config where
  "lr_config_default = \<lparr>lc_task_ring_window = 4096, lc_heap_ring_capacity = 64 * 1024 * 1024,
     lc_dep_pool_capacity = 8192, lc_tensormap_buckets = 4096, lc_tensormap_pool = 8192,
     lc_ready_queue_capacity = 4096\<rparr>"

record orch_job =
  oj_name :: string
  oj_fn :: nat
  oj_trace_pid :: i32

record lrt =
  l_level :: i32
  l_sched_count :: i32
  l_worker_count :: i32
  l_trace :: "trace_writer option"
  l_task_ring :: task_ring
  l_heap_ring :: heap_ring
  l_dep_pool :: dep_pool
  l_tensor_map :: tensor_map
  l_scope_stack :: scope_stack
  l_rq_buf :: "i32 list"
  l_rq_capacity :: i32
  l_rq_head :: i32
  l_rq_tail :: i32
  l_promises :: "nat option list"
  l_outputs :: "linqu_tensor list list"
  l_external_inputs :: "u64 list list"
  l_external_ready :: "nat option list list"
  l_trace_pids :: "i32 list"
  l_running :: bool
  l_stop_requested :: bool
  l_orch_queue :: "orch_job list"
  l_next_handle :: u64
  l_ready_cells :: "bool list"
  l_data_cells :: "u64 option list"
  l_futures :: "bool list"
  l_mem :: "nat \<Rightarrow> u64"

definition lr_new :: "i32 \<Rightarrow> i32 \<Rightarrow> i32 \<Rightarrow> lr_config \<Rightarrow> lrt res" where
  "lr_new level sched_threads worker_threads cfg =
     bindR (task_ring_init (lc_task_ring_window cfg)) (\<lambda>tr.
     bindR (dep_init (lc_dep_pool_capacity cfg) dep_new) (\<lambda>dp.
     bindR (tm_init (lc_tensormap_buckets cfg) (lc_tensormap_pool cfg) tm_new) (\<lambda>tm.
     let ws = nat (lc_task_ring_window cfg) in
       Inr \<lparr>l_level = level,
         l_sched_count = (if 0 < sched_threads then sched_threads else 1),
         l_worker_count = (if 0 < worker_threads then worker_threads else 1),
         l_trace = None, l_task_ring = tr,
         l_heap_ring = heap_init (lc_heap_ring_capacity cfg) heap_new, l_dep_pool = dp, l_tensor_map = tm,
         l_scope_stack = scope_init 8 (lc_task_ring_window cfg * 8) scope_new,
         l_rq_buf = replicate (nat (lc_ready_queue_capacity cfg)) (- 1),
         l_rq_capacity = lc_ready_queue_capacity cfg, l_rq_head = 0, l_rq_tail = 0,
         l_promises = replicate ws None, l_outputs = replicate ws [],
         l_external_inputs = replicate ws [], l_external_ready = replicate ws [],
         l_trace_pids = replicate ws (- 1), l_running = False, l_stop_requested = False,
         l_orch_queue = [], l_next_handle = 1, l_ready_cells = [], l_data_cells = [],
         l_futures = [], l_mem = (\<lambda>_. 0)\<rparr>)))"

definition l_get :: "lrt \<Rightarrow> i32 \<Rightarrow> task_desc" where
  "l_get s tid = task_get (l_task_ring s) tid"

definition l_upd :: "i32 \<Rightarrow> (task_desc \<Rightarrow> task_desc) \<Rightarrow> lrt \<Rightarrow> lrt" where
  "l_upd tid f s = s\<lparr>l_task_ring := task_upd tid f (l_task_ring s)\<rparr>"

definition l_set_status :: "task_status \<Rightarrow> i32 \<Rightarrow> lrt \<Rightarrow> lrt" where
  "l_set_status st tid = l_upd tid (\<lambda>d. d\<lparr>td_status := st\<rparr>)"

definition l_slot :: "lrt \<Rightarrow> i32 \<Rightarrow> nat" where
  "l_slot s tid = nat (task_slot (l_task_ring s) tid)"

section \<open>Tracing, start and stop\<close>

definition trace_tid_orch :: i32 where
  "trace_tid_orch = 0"

definition trace_tid_sched :: "i32 \<Rightarrow> i32" where
  "trace_tid_sched idx = 1 + idx"

definition trace_tid_worker :: "lrt \<Rightarrow> i32 \<Rightarrow> i32" where
  "trace_tid_worker s idx = 1 + l_sched_count s + idx"

definition tracing :: "lrt \<Rightarrow> bool" where
  "tracing s = (case l_trace s of None \<Rightarrow> False | Some tw \<Rightarrow> tw_enabled tw)"

definition l_trace_complete :: "string \<Rightarrow> string \<Rightarrow> i32 \<Rightarrow> i32 \<Rightarrow> int \<Rightarrow> int \<Rightarrow> lrt \<Rightarrow> lrt" where
  "l_trace_complete name cat pid tid t0 dur s =
     s\<lparr>l_trace := map_option (add_complete name cat pid tid t0 dur '''') (l_trace s)\<rparr>"

definition set_trace_writer :: "trace_writer option \<Rightarrow> lrt \<Rightarrow> lrt" where
  "set_trace_writer tw s =
     s\<lparr>l_trace := map_option (\<lambda>tw.
         if \<not> tw_enabled tw then tw
         else fold (\<lambda>i. set_thread_name (l_level s) (trace_tid_sched i) (''Scheduler-'' @ to_string_i i))
                [0..l_sched_count s - 1]
                (set_process_name (l_level s) (''L'' @ to_string_i (l_level s)) tw)) tw\<rparr>"

definition register_trace_instance :: "i32 \<Rightarrow> string \<Rightarrow> lrt \<Rightarrow> lrt" where
  "register_trace_instance trace_pid label s =
     (if \<not> tracing s then s
      else s\<lparr>l_trace := map_option (\<lambda>tw.
        fold (\<lambda>i. set_thread_name trace_pid (trace_tid_worker s i) (''Worker-'' @ to_string_i i))
          [0..l_worker_count s - 1]
          (set_thread_name trace_pid trace_tid_orch ''Orchestrator''
            (set_process_name trace_pid label tw))) (l_trace s)\<rparr>)"

text \<open>\<^verbatim>\<open>stop\<close> raises the request, waits until every thread has left its loop, then clears \<^verbatim>\<open>running_\<close>.\<close>

definition lr_start :: "lrt \<Rightarrow> lrt" where
  "lr_start s = (if l_running s then s else s\<lparr>l_running := True, l_stop_requested := False\<rparr>)"

definition lr_stop_request :: "lrt \<Rightarrow> lrt" where
  "lr_stop_request s = (if \<not> l_running s then s else s\<lparr>l_stop_requested := True\<rparr>)"

definition lr_stopped :: "lrt \<Rightarrow> lrt" where
  "lr_stopped s = s\<lparr>l_running := False\<rparr>"

text \<open>\<open>l_next_handle\<close> is the process-wide counter \<^verbatim>\<open>g_next_handle\<close>.\<close>

definition alloc_tensor_handle :: "u64 \<Rightarrow> u64 \<times> u64" where
  "alloc_tensor_handle next = (next, next + 1)"

definition make_tensor :: "u64 \<Rightarrow> lrt \<Rightarrow> linqu_tensor \<times> lrt" where
  "make_tensor n s =
     (let (handle, next) = alloc_tensor_handle (l_next_handle s) in
      (\<lparr>t_handle = handle, t_count = n, t_data_ref = Some (length (l_data_cells s)),
        t_ready = Some (length (l_ready_cells s))\<rparr>,
       s\<lparr>l_next_handle := next, l_data_cells := l_data_cells s @ [None],
         l_ready_cells := l_ready_cells s @ [False]\<rparr>))"

section \<open>Fan-out lock, ready queue, ready transition\<close>

text \<open>The spin lock of a task: no other thread runs while a method does, so a taken lock is never
  released and the spin never ends.\<close>

definition fanout_lock :: "i32 \<Rightarrow> lrt \<Rightarrow> lrt res" where
  "fanout_lock tid s =
     (if td_fanout_lock (l_get s tid) \<noteq> 0 then Inl Diverges
      else Inr (l_upd tid (\<lambda>d. d\<lparr>td_fanout_lock := 1\<rparr>) s))"

definition fanout_unlock :: "i32 \<Rightarrow> lrt \<Rightarrow> lrt" where
  "fanout_unlock tid = l_upd tid (\<lambda>d. d\<lparr>td_fanout_lock := 0\<rparr>)"

definition add_consumer_to_producer :: "i32 \<Rightarrow> i32 \<Rightarrow> lrt \<Rightarrow> lrt res" where
  "add_consumer_to_producer producer_id consumer_id s =
     bindR (fanout_lock producer_id s) (\<lambda>s.
     bindR (dep_prepend (td_fanout_list_head (l_get s producer_id)) consumer_id (l_dep_pool s)) (\<lambda>(h, dp).
     let s = l_upd producer_id (\<lambda>d. d\<lparr>td_fanout_list_head := h, td_fanout_count := td_fanout_count d + 1\<rparr>)
               (s\<lparr>l_dep_pool := dp\<rparr>);
         st = td_status (l_get s producer_id);
         s = (if st = COMPLETED \<or> st = CONSUMED
              then l_upd consumer_id (\<lambda>d. d\<lparr>td_atomic_fanin_refcount := td_atomic_fanin_refcount d + 1\<rparr>) s
              else s)
     in Inr (fanout_unlock producer_id s)))"

definition enqueue_ready :: "i32 \<Rightarrow> lrt \<Rightarrow> lrt res" where
  "enqueue_ready tid s =
     (let tail = l_rq_tail s in
      bindR (vec_put (l_rq_buf s) (c_rem tail (l_rq_capacity s)) tid) (\<lambda>buf.
      bindR (inc_i32 tail) (\<lambda>tail'. Inr (s\<lparr>l_rq_buf := buf, l_rq_tail := tail'\<rparr>))))"

definition dequeue_ready :: "lrt \<Rightarrow> (i32 \<times> lrt) res" where
  "dequeue_ready s =
     (if l_rq_tail s \<le> l_rq_head s then Inr (- 1, s)
      else bindR (vec_at (l_rq_buf s) (c_rem (l_rq_head s) (l_rq_capacity s))) (\<lambda>tid.
        Inr (tid, s\<lparr>l_rq_head := l_rq_head s + 1\<rparr>)))"

text \<open>The compare-and-swap from \<^verbatim>\<open>PENDING\<close> to \<^verbatim>\<open>READY\<close>, and the enqueueing its winner does.\<close>

definition try_set_ready :: "i32 \<Rightarrow> lrt \<Rightarrow> bool \<times> lrt" where
  "try_set_ready tid s =
     (if td_status (l_get s tid) = PENDING then (True, l_set_status READY tid s) else (False, s))"

definition ready_once :: "i32 \<Rightarrow> lrt \<Rightarrow> (bool \<times> lrt) res" where
  "ready_once tid s =
     (case try_set_ready tid s of
        (True, s) \<Rightarrow> bindR (enqueue_ready tid s) (\<lambda>s. Inr (True, s))
      | (False, s) \<Rightarrow> Inr (False, s))"

section \<open>Retirement\<close>

primrec l_advance_cursor :: "task_ring \<Rightarrow> nat \<Rightarrow> i32 \<Rightarrow> i32" where
  "l_advance_cursor r 0 cursor = cursor"
| "l_advance_cursor r (Suc n) cursor =
     (if td_status (task_get r cursor) \<noteq> CONSUMED then cursor else l_advance_cursor r n (cursor + 1))"

definition l_try_advance :: "lrt \<Rightarrow> lrt" where
  "l_try_advance s =
     (let alive = tr_last_task_alive (l_task_ring s);
          cursor = l_advance_cursor (l_task_ring s) (nat (tr_current_index (l_task_ring s) - alive)) alive in
      if alive < cursor then
        let s = s\<lparr>l_task_ring := set_last_task_alive cursor (l_task_ring s),
                  l_tensor_map := tm_invalidate_below cursor (l_tensor_map s)\<rparr> in
        if 0 < cursor \<and> hr_tail (l_heap_ring s) < td_heap_end (l_get s (cursor - 1))
        then s\<lparr>l_heap_ring := heap_retire_to (td_heap_end (l_get s (cursor - 1))) (l_heap_ring s)\<rparr>
        else s
      else s)"

definition l_check_consumed :: "i32 \<Rightarrow> lrt \<Rightarrow> lrt" where
  "l_check_consumed tid s =
     (let desc = l_get s tid in
      if td_status desc \<noteq> COMPLETED then s
      else if td_fanout_count desc \<le> td_atomic_fanout_refcount desc then
        let s = l_set_status CONSUMED tid s in
        if tid = tr_last_task_alive (l_task_ring s) then l_try_advance s else s
      else s)"

section \<open>Completion\<close>

definition l_notify_consumer :: "i32 \<Rightarrow> lrt \<Rightarrow> lrt res" where
  "l_notify_consumer c s =
     (let prev = td_atomic_fanin_refcount (l_get s c);
          s = l_upd c (\<lambda>d. d\<lparr>td_atomic_fanin_refcount := td_atomic_fanin_refcount d + 1\<rparr>) s in
      if td_fanin_count (l_get s c) \<le> prev + 1
      then bindR (ready_once c s) (\<lambda>(won, s). Inr s) else Inr s)"

definition l_release_producer :: "i32 \<Rightarrow> lrt \<Rightarrow> lrt res" where
  "l_release_producer p s =
     Inr (l_check_consumed p
       (l_upd p (\<lambda>d. d\<lparr>td_atomic_fanout_refcount := td_atomic_fanout_refcount d + 1\<rparr>) s))"

definition l_propagate :: "i32 \<Rightarrow> lrt \<Rightarrow> lrt res" where
  "l_propagate tid s =
     bindR (fanout_lock tid s) (\<lambda>s.
     bindR (dep_for_each (l_dep_pool s) l_notify_consumer (td_fanout_list_head (l_get s tid)) s) (\<lambda>s.
     let s = fanout_unlock tid s in
     bindR (dep_for_each (l_dep_pool s) l_release_producer (td_dep_list_head (l_get s tid)) s) (\<lambda>s.
       Inr (l_check_consumed tid s))))"

definition l_on_task_complete :: "i32 \<Rightarrow> lrt \<Rightarrow> lrt res" where
  "l_on_task_complete tid s = l_propagate tid (l_set_status COMPLETED tid s)"

section \<open>Submission\<close>

primrec l_wait_space :: "nat \<Rightarrow> (nat \<Rightarrow> lrt \<Rightarrow> lrt res) \<Rightarrow> lrt \<Rightarrow> lrt res" where
  "l_wait_space 0 idle s =
     (if has_space (l_task_ring s) then Inr s
      else let s = l_try_advance s in if has_space (l_task_ring s) then Inr s else Inl AssertFail)"
| "l_wait_space (Suc spins) idle s =
     (if has_space (l_task_ring s) then Inr s
      else let s = l_try_advance s in
        if has_space (l_task_ring s) then Inr s
        else bindR (idle spins s) (l_wait_space spins idle))"

text \<open>Step 2 for one input; the accumulator is \<^verbatim>\<open>fanin\<close>, \<^verbatim>\<open>has_external\<close> and \<^verbatim>\<open>within_level_producers\<close>.\<close>

definition scan_input ::
  "i32 \<Rightarrow> linqu_tensor \<Rightarrow> (nat \<times> bool \<times> i32 list) \<times> lrt \<Rightarrow> ((nat \<times> bool \<times> i32 list) \<times> lrt) res" where
  "scan_input tid t = (\<lambda>((fanin, ext, prods), s).
     if \<not> t_is_valid t then Inr ((fanin, ext, prods), s)
     else bindR (tm_lookup (t_handle t) (l_tensor_map s)) (\<lambda>r. case r of
       Some q \<Rightarrow> bindR (dep_prepend (td_dep_list_head (l_get s tid)) q (l_dep_pool s)) (\<lambda>(h, dp).
         Inr ((fanin + 1, ext, prods @ [q]),
              l_upd tid (\<lambda>d. d\<lparr>td_dep_list_head := h\<rparr>) (s\<lparr>l_dep_pool := dp\<rparr>)))
     | None \<Rightarrow>
         if t_is_ready (l_ready_cells s) t then Inr ((fanin, ext, prods), s)
         else let slot = l_slot s tid in
           Inr ((fanin + 1, True, prods),
             s\<lparr>l_external_inputs := (l_external_inputs s)[slot := l_external_inputs s ! slot @ [t_handle t]],
               l_external_ready := (l_external_ready s)[slot := l_external_ready s ! slot @ [t_ready t]]\<rparr>)))"

text \<open>Step 3: the packed output buffer. One output gets the current pointer and its elements are zeroed.\<close>

definition total_output_bytes :: "linqu_tensor list \<Rightarrow> u64" where
  "total_output_bytes outs = sum_list (map (\<lambda>t. t_count t * 8) outs)"

definition place_output :: "linqu_tensor \<Rightarrow> nat \<times> lrt \<Rightarrow> (nat \<times> lrt) res" where
  "place_output t = (\<lambda>(ptr, s).
     case t_data_ref t of
       None \<Rightarrow> Inl NullDeref
     | Some a \<Rightarrow>
         let n = unat (t_count t) in
         if unat (hr_capacity (l_heap_ring s)) < ptr + 8 * n then Inl OutOfBounds
         else Inr (ptr + 8 * n,
           s\<lparr>l_data_cells := (l_data_cells s)[a := Some (of_nat ptr)],
             l_mem := (\<lambda>x. if ptr \<le> x \<and> x < ptr + 8 * n \<and> (x - ptr) mod 8 = 0 then 0 else l_mem s x)\<rparr>))"

definition alloc_outputs :: "i32 \<Rightarrow> linqu_tensor list \<Rightarrow> lrt \<Rightarrow> lrt res" where
  "alloc_outputs tid outs s =
     (if 0 < total_output_bytes outs then
        bindR (heap_alloc (total_output_bytes outs) (l_heap_ring s)) (\<lambda>(pos, hr).
        bindR (foldR place_output outs (unat pos, s\<lparr>l_heap_ring := hr\<rparr>)) (\<lambda>(ptr, s).
          Inr (s\<lparr>l_outputs := (l_outputs s)[l_slot s tid := outs]\<rparr>)))
      else Inr s)"

definition register_output :: "i32 \<Rightarrow> linqu_tensor \<Rightarrow> lrt \<Rightarrow> lrt res" where
  "register_output tid t s =
     bindR (tm_insert (t_handle t) tid True (l_tensor_map s)) (\<lambda>tm. Inr (s\<lparr>l_tensor_map := tm\<rparr>))"

text \<open>Steps 1 to 6: slot, auxiliary data, inputs, outputs, scope, heap position. The result is the task
  id, its future and the accumulator of step 2.\<close>

definition open_slot :: "i32 \<Rightarrow> string \<Rightarrow> nat \<Rightarrow> linqu_tensor list \<Rightarrow> i32 \<Rightarrow> lrt \<Rightarrow> nat \<times> lrt" where
  "open_slot tid name fn outs trace_pid s =
     (let s = l_upd tid (\<lambda>d. d\<lparr>td_key := TaskKey (key_logical_system (td_key d)) (key_coord (td_key d))
                (key_scope_depth (td_key d)) (word_of_int tid), td_kernel_so := name, td_fn := Some fn\<rparr>) s;
          slot = l_slot s tid;
          fut = length (l_futures s) in
      (fut, s\<lparr>l_futures := l_futures s @ [False],
              l_promises := (l_promises s)[slot := Some fut],
              l_outputs := (l_outputs s)[slot := outs],
              l_external_inputs := (l_external_inputs s)[slot := []],
              l_external_ready := (l_external_ready s)[slot := []],
              l_trace_pids := (l_trace_pids s)[slot := trace_pid]\<rparr>))"

definition prepare_task ::
  "string \<Rightarrow> nat \<Rightarrow> linqu_tensor list \<Rightarrow> linqu_tensor list \<Rightarrow> i32 \<Rightarrow> lrt \<Rightarrow>
   ((i32 \<times> nat \<times> nat \<times> bool \<times> i32 list) \<times> lrt) res" where
  "prepare_task name fn ins outs trace_pid s =
     bindR (task_alloc (l_task_ring s)) (\<lambda>(tid, tr).
     let (fut, s) = open_slot tid name fn outs trace_pid (s\<lparr>l_task_ring := tr\<rparr>) in
     bindR (foldR (scan_input tid) ins ((0, False, []), s)) (\<lambda>((fanin, ext, prods), s).
     bindR (alloc_outputs tid outs s) (\<lambda>s.
     bindR (foldR (register_output tid) outs s) (\<lambda>s.
     bindR (if 0 \<le> scope_depth (l_scope_stack s)
       then bindR (stack_add_task tid (l_scope_stack s)) (\<lambda>ss. Inr (s\<lparr>l_scope_stack := ss\<rparr>))
       else Inr s) (\<lambda>s.
       Inr ((tid, fut, fanin, ext, prods),
            l_upd tid (\<lambda>d. d\<lparr>td_heap_end := hr_top (l_heap_ring s)\<rparr>) s))))))"

text \<open>Step 7: publish the task.\<close>

definition publish_task :: "i32 \<Rightarrow> nat \<Rightarrow> i32 list \<Rightarrow> lrt \<Rightarrow> lrt res" where
  "publish_task tid fanin prods s =
     (let s = l_upd tid (\<lambda>d. d\<lparr>td_fanin_count := fanin\<rparr>) s in
      if fanin = 0 then enqueue_ready tid (l_set_status READY tid s)
      else
        bindR (foldR (\<lambda>p. add_consumer_to_producer p tid) prods (l_set_status PENDING tid s)) (\<lambda>s.
          if fanin \<le> td_atomic_fanin_refcount (l_get s tid)
          then bindR (ready_once tid s) (\<lambda>(won, s). Inr s) else Inr s))"

definition submit_worker ::
  "(nat \<Rightarrow> lrt \<Rightarrow> lrt res) \<Rightarrow> string \<Rightarrow> nat \<Rightarrow> linqu_tensor list \<Rightarrow> linqu_tensor list \<Rightarrow> i32 \<Rightarrow> lrt \<Rightarrow>
   (nat \<times> lrt) res" where
  "submit_worker idle name fn ins outs trace_pid s =
     bindR (if \<not> has_space (l_task_ring s) then l_wait_space 100000 idle s else Inr s) (\<lambda>s.
     bindR (prepare_task name fn ins outs trace_pid s) (\<lambda>((tid, fut, fanin, ext, prods), s).
     bindR (publish_task tid fanin prods s) (\<lambda>s. Inr (fut, s))))"

section \<open>The thread loops\<close>

text \<open>One iteration of the worker loop up to the dequeued task, and from there to its end.\<close>

datatype worker_wait = W_Block | W_Exit | W_Again lrt | W_Run i32 lrt

definition worker_take :: "lrt \<Rightarrow> worker_wait res" where
  "worker_take s =
     (if l_stop_requested s \<and> l_rq_tail s \<le> l_rq_head s then Inr W_Exit
      else if \<not> l_stop_requested s \<and> l_rq_tail s \<le> l_rq_head s then Inr W_Block
      else bindR (dequeue_ready s) (\<lambda>(tid, s).
        Inr (if tid < 0 then W_Again s else W_Run tid (l_set_status RUNNING tid s))))"

definition resolve_promise :: "nat \<Rightarrow> lrt \<Rightarrow> lrt res" where
  "resolve_promise slot s =
     (case l_promises s ! slot of
        None \<Rightarrow> Inr s
      | Some f \<Rightarrow>
          if l_futures s ! f then Inl PromiseSatisfied
          else Inr (s\<lparr>l_futures := (l_futures s)[f := True], l_promises := (l_promises s)[slot := None]\<rparr>))"

definition worker_run ::
  "(nat \<Rightarrow> u64 option list \<Rightarrow> (nat \<Rightarrow> u64) \<Rightarrow> (nat \<Rightarrow> u64)) \<Rightarrow> int \<Rightarrow> int \<Rightarrow> i32 \<Rightarrow> i32 \<Rightarrow> lrt \<Rightarrow> lrt res" where
  "worker_run exec t0 t1 worker_idx tid s =
     (let slot = l_slot s tid;
          s = (case td_fn (l_get s tid) of
                 None \<Rightarrow> s | Some fn \<Rightarrow> s\<lparr>l_mem := exec fn (l_data_cells s) (l_mem s)\<rparr>);
          s = (if tracing s then
                 let tpid = l_trace_pids s ! slot in
                 l_trace_complete (td_kernel_so (l_get s tid)) ''worker''
                   (if tpid < 0 then l_level s else tpid) (trace_tid_worker s worker_idx) t0 (t1 - t0) s
               else s);
          s = s\<lparr>l_ready_cells := fold t_mark_ready (l_outputs s ! slot) (l_ready_cells s)\<rparr>
      in resolve_promise slot s)"

definition worker_finish ::
  "(nat \<Rightarrow> u64 option list \<Rightarrow> (nat \<Rightarrow> u64) \<Rightarrow> (nat \<Rightarrow> u64)) \<Rightarrow> int \<Rightarrow> int \<Rightarrow> i32 \<Rightarrow> i32 \<Rightarrow> lrt \<Rightarrow> lrt res" where
  "worker_finish exec t0 t1 worker_idx tid s =
     bindR (worker_run exec t0 t1 worker_idx tid s) (l_on_task_complete tid)"

text \<open>The scheduler's scan, for one task and for the window.\<close>

primrec all_ready :: "bool list \<Rightarrow> nat option list \<Rightarrow> bool res" where
  "all_ready cells [] = Inr True"
| "all_ready cells (r # rs) =
     (case r of None \<Rightarrow> Inl NullDeref | Some a \<Rightarrow> if cells ! a then all_ready cells rs else Inr False)"

definition sched_check :: "i32 \<Rightarrow> nat \<times> lrt \<Rightarrow> (nat \<times> lrt) res" where
  "sched_check i = (\<lambda>(promoted, s).
     let slot = l_slot s i; ext_ready = l_external_ready s ! slot in
     if td_status (l_get s i) \<noteq> PENDING \<or> ext_ready = [] then Inr (promoted, s)
     else bindR (all_ready (l_ready_cells s) ext_ready) (\<lambda>ok.
       if \<not> ok then Inr (promoted, s)
       else
         let n = length ext_ready;
             prev = td_atomic_fanin_refcount (l_get s i);
             s = l_upd i (\<lambda>d. d\<lparr>td_atomic_fanin_refcount := td_atomic_fanin_refcount d + n\<rparr>) s;
             s = s\<lparr>l_external_ready := (l_external_ready s)[slot := []]\<rparr> in
         if td_fanin_count (l_get s i) \<le> prev + n
         then bindR (ready_once i s) (\<lambda>(won, s). Inr (if won then promoted + 1 else promoted, s))
         else Inr (promoted, s)))"

definition sched_scan :: "int \<Rightarrow> int \<Rightarrow> i32 \<Rightarrow> int \<Rightarrow> lrt \<Rightarrow> (int \<times> lrt) res" where
  "sched_scan t0 t1 sched_idx scan_seq s =
     bindR (foldR sched_check
         [tr_last_task_alive (l_task_ring s)..tr_current_index (l_task_ring s) - 1] (0, s)) (\<lambda>(promoted, s).
       Inr (if tracing s \<and> 0 < promoted
            then (scan_seq + 1, l_trace_complete
              (''sched_scan_'' @ to_string_i scan_seq @ '' +'' @ to_string_i (int promoted)) ''scheduler''
              (l_level s) (trace_tid_sched sched_idx) t0 (t1 - t0) s)
            else (scan_seq, s)))"

text \<open>The orchestrator thread: jobs in order of submission; \<open>run\<close> is what a job's closure does.\<close>

definition submit_orchestrator :: "string \<Rightarrow> nat \<Rightarrow> i32 \<Rightarrow> lrt \<Rightarrow> lrt" where
  "submit_orchestrator name fn trace_pid s =
     s\<lparr>l_orch_queue := l_orch_queue s @ [\<lparr>oj_name = name, oj_fn = fn, oj_trace_pid = trace_pid\<rparr>]\<rparr>"

datatype orch_wait = J_Block | J_Exit | J_Run lrt

definition orchestrator_turn :: "(nat \<Rightarrow> lrt \<Rightarrow> lrt res) \<Rightarrow> int \<Rightarrow> int \<Rightarrow> lrt \<Rightarrow> orch_wait res" where
  "orchestrator_turn run t0 t1 s =
     (case l_orch_queue s of
        [] \<Rightarrow> Inr (if l_stop_requested s then J_Exit else J_Block)
      | job # jobs \<Rightarrow>
          bindR (run (oj_fn job) (s\<lparr>l_orch_queue := jobs\<rparr>)) (\<lambda>s'.
            Inr (J_Run (if tracing s
              then l_trace_complete (oj_name job) ''orchestrator''
                     (if 0 \<le> oj_trace_pid job then oj_trace_pid job else l_level s) trace_tid_orch t0 (t1 - t0) s'
              else s'))))"

end
