(* ===== verification/Level_Safety.thy ===== *)
theory Level_Safety
  imports Level_Runtime
begin

text \<open>
  The protocol of \<^verbatim>\<open>LevelRuntime\<close> when its methods run one after the other, in any order: the
  invariant that ties the reference counts to the dependency chains and the ready queue to the task
  states, and that completion, the scheduler's scan, the workers and submission keep it.
\<close>

section \<open>The ready queue\<close>

text \<open>
  \<open>rq_ok buf cap h t n st\<close>: every position up to \<open>t\<close> holds one of the tasks below \<open>n\<close> that are not pending
  (in the state function \<open>st\<close>), each exactly once, and the ready ones are those not yet dequeued.
\<close>

definition rq_ok :: "i32 list \<Rightarrow> i32 \<Rightarrow> i32 \<Rightarrow> i32 \<Rightarrow> i32 \<Rightarrow> (i32 \<Rightarrow> task_status) \<Rightarrow> bool" where
  "rq_ok buf cap h t n st \<longleftrightarrow>
     n \<le> cap \<and> cap \<le> INT32_MAX \<and> length buf = nat cap \<and> 0 \<le> h \<and> h \<le> t \<and> t \<le> n \<and>
     distinct (take (nat t) buf) \<and> set (take (nat t) buf) = {i. 0 \<le> i \<and> i < n \<and> st i \<noteq> PENDING} \<and>
     (\<forall>k < nat t. st (buf ! k) = READY \<longleftrightarrow> nat h \<le> k)"

lemma rq_ok_bounds:
  assumes "rq_ok buf cap h t n st"
  shows "nat t \<le> length buf" "n \<le> cap" "cap \<le> INT32_MAX" "length buf = nat cap" "0 \<le> h" "h \<le> t"
    "0 \<le> t" "t \<le> n"
  using assms by (auto simp: rq_ok_def nat_le_iff)

lemma rq_ok_nth:
  assumes "rq_ok buf cap h t n st" "k < nat t"
  shows "0 \<le> buf ! k \<and> buf ! k < n \<and> st (buf ! k) \<noteq> PENDING"
proof -
  have "nat t \<le> length buf" by (rule rq_ok_bounds [OF assms(1)])
  with nth_mem [of k "take (nat t) buf"] assms(2) have "buf ! k \<in> set (take (nat t) buf)" by simp
  then show ?thesis using assms(1) by (auto simp: rq_ok_def)
qed

lemma rq_ok_cong:
  assumes "rq_ok buf cap h t n st" "\<And>i. 0 \<le> i \<Longrightarrow> i < n \<Longrightarrow> st' i = st i"
  shows "rq_ok buf cap h t n st'"
proof -
  have "{i. 0 \<le> i \<and> i < n \<and> st' i \<noteq> PENDING} = {i. 0 \<le> i \<and> i < n \<and> st i \<noteq> PENDING}"
    using assms(2) by auto
  moreover have "st' (buf ! k) = st (buf ! k)" if "k < nat t" for k
    using rq_ok_nth [OF assms(1) that] assms(2) by auto
  ultimately show ?thesis using assms(1) by (simp add: rq_ok_def)
qed

lemma rq_room:
  assumes "rq_ok buf cap h t n st" "0 \<le> c" "c < n" "st c = PENDING"
  shows "t < n"
proof -
  have "set (take (nat t) buf) \<subseteq> {0..<n} - {c}" using assms by (auto simp: rq_ok_def)
  then have "card (set (take (nat t) buf)) \<le> card ({0..<n} - {c})" by (intro card_mono) auto
  moreover have "card (set (take (nat t) buf)) = nat t"
    using assms(1) rq_ok_bounds(1) [OF assms(1)] by (subst distinct_card) (auto simp: rq_ok_def)
  ultimately show ?thesis using assms(2,3) by (simp add: card_Diff_singleton)
qed

lemma c_rem_small: "0 \<le> a \<Longrightarrow> a < b \<Longrightarrow> c_rem a b = a"
  by (simp add: c_rem_def)

lemma rq_push:
  assumes "rq_ok buf cap h t n st" "0 \<le> c" "c < n" "st c = PENDING"
  shows "vec_put buf (c_rem t cap) c = Inr (buf[nat t := c])" "inc_i32 t = Inr (t + 1)"
    "rq_ok (buf[nat t := c]) cap h (t + 1) n (st(c := READY))"
proof -
  note tn = rq_room [OF assms]
  have b: "n \<le> cap" "cap \<le> INT32_MAX" "length buf = nat cap" "0 \<le> t" "0 \<le> h" "h \<le> t"
    using rq_ok_bounds [OF assms(1)] by simp_all
  have tl: "nat t < length buf" using tn b by simp
  show "vec_put buf (c_rem t cap) c = Inr (buf[nat t := c])" "inc_i32 t = Inr (t + 1)"
    using tn b by (simp_all add: c_rem_small vec_put_def inc_i32_def)
  have tk: "take (nat (t + 1)) (buf[nat t := c]) = take (nat t) buf @ [c]"
    using tl b by (simp add: nat_add_distrib take_Suc_conv_app_nth)
  have nin: "c \<notin> set (take (nat t) buf)" using assms by (auto simp: rq_ok_def)
  have "st ((buf[nat t := c]) ! k) = READY \<longleftrightarrow> nat h \<le> k" if "k < nat t" for k
    using that assms(1) by (simp add: rq_ok_def)
  moreover have "buf ! k \<noteq> c" if "k < nat t" for k
    using that nin tl by (metis in_set_conv_nth length_take less_imp_le_nat min.absorb2 nth_take)
  ultimately have "\<forall>k < nat (t + 1). (st(c := READY)) ((buf[nat t := c]) ! k) = READY \<longleftrightarrow> nat h \<le> k"
    using b tl by (auto simp: nat_add_distrib less_Suc_eq nth_list_update)
  moreover have "set (take (nat t) buf) = {i. 0 \<le> i \<and> i < n \<and> st i \<noteq> PENDING}" "distinct (take (nat t) buf)"
    using assms(1) by (auto simp: rq_ok_def)
  ultimately show "rq_ok (buf[nat t := c]) cap h (t + 1) n (st(c := READY))"
    unfolding rq_ok_def tk using b tn nin assms(2-4) by auto
qed

lemma rq_pop:
  assumes "rq_ok buf cap h t n st" "h < t"
  shows "vec_at buf (c_rem h cap) = Inr (buf ! nat h)" "0 \<le> buf ! nat h" "buf ! nat h < n"
    "st (buf ! nat h) = READY" "rq_ok buf cap (h + 1) t n (st(buf ! nat h := RUNNING))"
proof -
  let ?c = "buf ! nat h"
  have b: "n \<le> cap" "length buf = nat cap" "t \<le> n" "0 \<le> h" using rq_ok_bounds [OF assms(1)] by simp_all
  show "vec_at buf (c_rem h cap) = Inr ?c" using b assms(2) by (simp add: c_rem_small)
  have h: "nat h < nat t" using assms(2) b by simp
  from rq_ok_nth [OF assms(1) h] show c: "0 \<le> ?c" "?c < n" by auto
  show ready: "st ?c = READY" using assms(1) h by (simp add: rq_ok_def)
  have "buf ! k = ?c \<longleftrightarrow> k = nat h" if "k < nat t" for k
  proof -
    have "distinct (take (nat t) buf)" "nat t \<le> length buf"
      using assms(1) rq_ok_bounds(1) [OF assms(1)] by (auto simp: rq_ok_def)
    with that h show ?thesis using nth_eq_iff_index_eq [of "take (nat t) buf" k "nat h"] by simp
  qed
  moreover have "\<forall>k < nat t. st (buf ! k) = READY \<longleftrightarrow> nat h \<le> k" using assms(1) by (simp add: rq_ok_def)
  ultimately have "\<forall>k < nat t. (st(?c := RUNNING)) (buf ! k) = READY \<longleftrightarrow> nat (h + 1) \<le> k"
    using b by (auto simp: nat_add_distrib)
  moreover have "{i. 0 \<le> i \<and> i < n \<and> (st(?c := RUNNING)) i \<noteq> PENDING} = {i. 0 \<le> i \<and> i < n \<and> st i \<noteq> PENDING}"
    using ready by auto
  ultimately show "rq_ok buf cap (h + 1) t n (st(?c := RUNNING))"
    using assms by (simp add: rq_ok_def)
qed

lemma rq_running:
  assumes "rq_ok buf cap h t n st" "st c \<noteq> PENDING" "st c \<noteq> READY" "st' \<noteq> PENDING" "st' \<noteq> READY"
  shows "rq_ok buf cap h t n (st(c := st'))"
proof -
  have "{i. 0 \<le> i \<and> i < n \<and> (st(c := st')) i \<noteq> PENDING} = {i. 0 \<le> i \<and> i < n \<and> st i \<noteq> PENDING}"
    using assms(2,4) by auto
  with assms show ?thesis by (auto simp: rq_ok_def)
qed

lemma rq_grow:
  assumes "rq_ok buf cap h t n st" "st n = PENDING" "n < cap"
  shows "rq_ok buf cap h t (n + 1) st"
proof -
  have "i < n + 1 \<longleftrightarrow> i < n \<or> i = n" for i by auto
  then have "{i. 0 \<le> i \<and> i < n + 1 \<and> st i \<noteq> PENDING} = {i. 0 \<le> i \<and> i < n \<and> st i \<noteq> PENDING}"
    using assms(2) by auto
  with assms show ?thesis by (simp add: rq_ok_def)
qed

section \<open>Views of a state\<close>

definition l_cur :: "lrt \<Rightarrow> i32" where
  "l_cur s = tr_current_index (l_task_ring s)"

definition l_live :: "lrt \<Rightarrow> i32 \<Rightarrow> bool" where
  "l_live s i \<longleftrightarrow> 0 \<le> i \<and> i < l_cur s"

definition l_status :: "lrt \<Rightarrow> i32 \<Rightarrow> task_status" where
  "l_status s i = td_status (l_get s i)"

definition l_deps :: "lrt \<Rightarrow> i32 \<Rightarrow> i32 list" where
  "l_deps s i = dep_list (l_dep_pool s) (td_dep_list_head (l_get s i))"

definition l_outs :: "lrt \<Rightarrow> i32 \<Rightarrow> i32 list" where
  "l_outs s i = dep_list (l_dep_pool s) (td_fanout_list_head (l_get s i))"

definition ext_left :: "lrt \<Rightarrow> i32 \<Rightarrow> nat" where
  "ext_left s i = length (l_external_ready s ! nat i)"

text \<open>Geometry and chains; nothing has been retired and no scope is open.\<close>

definition lr_shape :: "lrt \<Rightarrow> bool" where
  "lr_shape s \<longleftrightarrow>
     ring_wf (l_task_ring s) \<and> tr_last_task_alive (l_task_ring s) = 0 \<and> dep_wf (l_dep_pool s) \<and>
     (\<forall>d \<in> set (tr_descriptors (l_task_ring s)).
        dep_head_ok (l_dep_pool s) (td_dep_list_head d) \<and> dep_head_ok (l_dep_pool s) (td_fanout_list_head d)) \<and>
     tm_inv (l_tensor_map s) (l_cur s - 1) \<and> tm_last_task_alive (l_tensor_map s) = 0 \<and>
     scope_depth (l_scope_stack s) < 0 \<and> l_rq_capacity s \<le> INT32_MAX \<and>
     tr_window_size (l_task_ring s) \<le> l_rq_capacity s \<and>
     length (l_promises s) = nat (tr_window_size (l_task_ring s)) \<and>
     length (l_external_ready s) = nat (tr_window_size (l_task_ring s)) \<and>
     length (l_futures s) = nat (l_cur s)"

lemma lr_shapeD:
  assumes "lr_shape s"
  shows "ring_wf (l_task_ring s)" "tr_last_task_alive (l_task_ring s) = 0" "dep_wf (l_dep_pool s)"
    "0 \<le> l_cur s" "l_cur s \<le> tr_window_size (l_task_ring s)" "l_live s i \<longleftrightarrow> task_live (l_task_ring s) i"
    "tm_inv (l_tensor_map s) (l_cur s - 1)" "tm_last_task_alive (l_tensor_map s) = 0"
    "length (l_promises s) = nat (tr_window_size (l_task_ring s))"
    "length (l_external_ready s) = nat (tr_window_size (l_task_ring s))" "length (l_futures s) = nat (l_cur s)"
  using assms by (auto simp: lr_shape_def ring_wf_def l_cur_def l_live_def task_live_def)

lemma l_slot_live: "lr_shape s \<Longrightarrow> l_live s i \<Longrightarrow> l_slot s i = nat i"
  using lr_shapeD(1,5) [of s] by (simp add: l_slot_def task_slot_mod l_live_def)

lemma lr_heads:
  assumes "lr_shape s"
  shows "dep_head_ok (l_dep_pool s) (td_dep_list_head (l_get s i))"
    "dep_head_ok (l_dep_pool s) (td_fanout_list_head (l_get s i))"
proof -
  have "l_get s i \<in> set (tr_descriptors (l_task_ring s))"
    using task_slot_range [OF lr_shapeD(1) [OF assms], of i] by (simp add: l_get_def task_get_def)
  with assms show "dep_head_ok (l_dep_pool s) (td_dep_list_head (l_get s i))"
    "dep_head_ok (l_dep_pool s) (td_fanout_list_head (l_get s i))" by (auto simp: lr_shape_def)
qed

lemma l_upd_simps [simp]:
  "l_dep_pool (l_upd i f s) = l_dep_pool s" "l_tensor_map (l_upd i f s) = l_tensor_map s"
  "l_heap_ring (l_upd i f s) = l_heap_ring s" "l_scope_stack (l_upd i f s) = l_scope_stack s"
  "l_rq_buf (l_upd i f s) = l_rq_buf s" "l_rq_capacity (l_upd i f s) = l_rq_capacity s"
  "l_rq_head (l_upd i f s) = l_rq_head s" "l_rq_tail (l_upd i f s) = l_rq_tail s"
  "l_promises (l_upd i f s) = l_promises s" "l_futures (l_upd i f s) = l_futures s"
  "l_external_ready (l_upd i f s) = l_external_ready s" "l_ready_cells (l_upd i f s) = l_ready_cells s"
  "l_external_inputs (l_upd i f s) = l_external_inputs s" "l_outputs (l_upd i f s) = l_outputs s"
  "l_cur (l_upd i f s) = l_cur s" "l_live (l_upd i f s) j = l_live s j" "l_slot (l_upd i f s) j = l_slot s j"
  "l_stop_requested (l_upd i f s) = l_stop_requested s" "ext_left (l_upd i f s) j = ext_left s j"
  by (simp_all add: l_upd_def l_cur_def l_live_def l_slot_def ext_left_def)

lemma l_get_upd:
  "lr_shape s \<Longrightarrow> l_live s i \<Longrightarrow> l_live s j \<Longrightarrow>
   l_get (l_upd i f s) j = (if i = j then f (l_get s j) else l_get s j)"
  by (simp add: l_get_def l_upd_def task_get_upd_live lr_shapeD)

lemma l_upd_shape:
  assumes "lr_shape s" "dep_head_ok (l_dep_pool s) (td_dep_list_head (f (l_get s i)))"
    "dep_head_ok (l_dep_pool s) (td_fanout_list_head (f (l_get s i)))"
  shows "lr_shape (l_upd i f s)"
proof -
  have "set (tr_descriptors (task_upd i f (l_task_ring s))) \<subseteq>
      insert (f (l_get s i)) (set (tr_descriptors (l_task_ring s)))"
    unfolding task_upd_def l_get_def by (simp add: set_update_subset_insert)
  with assms show ?thesis
    unfolding lr_shape_def l_cur_def by (auto simp: l_upd_def)
qed

section \<open>What completion changes\<close>

definition fixed :: "task_desc \<Rightarrow> task_desc" where
  "fixed d = d\<lparr>td_status := PENDING, td_atomic_fanin_refcount := 0, td_atomic_fanout_refcount := 0,
               td_fanout_lock := 0\<rparr>"

text \<open>Statuses, reference counts, locks and the tail of the ready queue.\<close>

definition lr_frame :: "lrt \<Rightarrow> lrt \<Rightarrow> bool" where
  "lr_frame s s' \<longleftrightarrow>
     s'\<lparr>l_task_ring := l_task_ring s, l_rq_buf := l_rq_buf s, l_rq_tail := l_rq_tail s\<rparr> = s \<and>
     (l_task_ring s')\<lparr>tr_descriptors := tr_descriptors (l_task_ring s)\<rparr> = l_task_ring s \<and>
     map fixed (tr_descriptors (l_task_ring s')) = map fixed (tr_descriptors (l_task_ring s))"

lemma lr_frame_refl [simp]: "lr_frame s s"
  by (simp add: lr_frame_def)

lemma lr_frame_trans: "lr_frame a b \<Longrightarrow> lr_frame b c \<Longrightarrow> lr_frame a c"
  by (cases a; cases b; cases c; cases "l_task_ring a"; cases "l_task_ring b"; cases "l_task_ring c")
    (auto simp: lr_frame_def)

lemma lr_frame_upd:
  assumes "\<And>d. fixed (f d) = fixed d"
  shows "lr_frame s (l_upd i f s)"
proof (cases "nat (task_slot (l_task_ring s) i) < length (tr_descriptors (l_task_ring s))")
  case True
  then show ?thesis using assms
    by (simp add: lr_frame_def l_upd_def task_upd_def map_update task_get_def list_update_same_conv)
qed (simp add: lr_frame_def l_upd_def task_upd_def list_update_beyond)

lemma lr_frame_queue: "lr_frame s (s\<lparr>l_rq_buf := b, l_rq_tail := t\<rparr>)"
  by (simp add: lr_frame_def)

lemma lr_frameD:
  assumes "lr_frame s s'"
  shows "l_dep_pool s' = l_dep_pool s" "l_tensor_map s' = l_tensor_map s" "l_scope_stack s' = l_scope_stack s"
    "l_rq_capacity s' = l_rq_capacity s" "l_rq_head s' = l_rq_head s" "l_promises s' = l_promises s"
    "l_futures s' = l_futures s" "l_external_ready s' = l_external_ready s" "l_ready_cells s' = l_ready_cells s"
    "tr_window_size (l_task_ring s') = tr_window_size (l_task_ring s)"
    "tr_last_task_alive (l_task_ring s') = tr_last_task_alive (l_task_ring s)"
    "l_cur s' = l_cur s" "length (tr_descriptors (l_task_ring s')) = length (tr_descriptors (l_task_ring s))"
    "l_outputs s' = l_outputs s" "l_stop_requested s' = l_stop_requested s"
proof -
  have a: "s'\<lparr>l_task_ring := l_task_ring s, l_rq_buf := l_rq_buf s, l_rq_tail := l_rq_tail s\<rparr> = s"
    and b: "(l_task_ring s')\<lparr>tr_descriptors := tr_descriptors (l_task_ring s)\<rparr> = l_task_ring s"
    and c: "map fixed (tr_descriptors (l_task_ring s')) = map fixed (tr_descriptors (l_task_ring s))"
    using assms unfolding lr_frame_def by blast+
  show "l_dep_pool s' = l_dep_pool s" using arg_cong [OF a, of l_dep_pool] by simp
  show "l_tensor_map s' = l_tensor_map s" using arg_cong [OF a, of l_tensor_map] by simp
  show "l_scope_stack s' = l_scope_stack s" using arg_cong [OF a, of l_scope_stack] by simp
  show "l_rq_capacity s' = l_rq_capacity s" using arg_cong [OF a, of l_rq_capacity] by simp
  show "l_rq_head s' = l_rq_head s" using arg_cong [OF a, of l_rq_head] by simp
  show "l_promises s' = l_promises s" using arg_cong [OF a, of l_promises] by simp
  show "l_futures s' = l_futures s" using arg_cong [OF a, of l_futures] by simp
  show "l_external_ready s' = l_external_ready s" using arg_cong [OF a, of l_external_ready] by simp
  show "l_ready_cells s' = l_ready_cells s" using arg_cong [OF a, of l_ready_cells] by simp
  show "l_outputs s' = l_outputs s" using arg_cong [OF a, of l_outputs] by simp
  show "l_stop_requested s' = l_stop_requested s" using arg_cong [OF a, of l_stop_requested] by simp
  show "tr_window_size (l_task_ring s') = tr_window_size (l_task_ring s)" using arg_cong [OF b, of tr_window_size] by simp
  show "tr_last_task_alive (l_task_ring s') = tr_last_task_alive (l_task_ring s)" using arg_cong [OF b, of tr_last_task_alive] by simp
  show "l_cur s' = l_cur s" using arg_cong [OF b, of tr_current_index] by (simp add: l_cur_def)
  show "length (tr_descriptors (l_task_ring s')) = length (tr_descriptors (l_task_ring s))"
    using c by (rule map_eq_imp_length_eq)
qed

lemma fixedD:
  assumes "fixed d' = fixed d"
  shows "td_dep_list_head d' = td_dep_list_head d" "td_fanout_list_head d' = td_fanout_list_head d"
    "td_fanin_count d' = td_fanin_count d" "td_fanout_count d' = td_fanout_count d" "td_fn d' = td_fn d"
  using assms by (cases d; cases d'; simp add: fixed_def)+

lemma lr_frame_get:
  assumes "lr_frame s s'" "ring_wf (l_task_ring s)"
  shows "fixed (l_get s' i) = fixed (l_get s i)"
proof -
  have sl: "task_slot (l_task_ring s') i = task_slot (l_task_ring s) i"
    using lr_frameD(10) [OF assms(1)] by (simp add: task_slot_def)
  have eq: "map fixed (tr_descriptors (l_task_ring s')) = map fixed (tr_descriptors (l_task_ring s))"
    using assms(1) by (simp add: lr_frame_def)
  show ?thesis
    using arg_cong [OF eq, of "\<lambda>xs. xs ! nat (task_slot (l_task_ring s) i)"] lr_frameD(13) [OF assms(1)]
      task_slot_range [OF assms(2), of i]
    by (simp add: l_get_def task_get_def sl)
qed

lemma lr_frame_shape:
  assumes "lr_frame s s'" "lr_shape s"
  shows "lr_shape s'"
proof -
  note f = lr_frameD [OF assms(1)]
  have "ring_wf (l_task_ring s')" using assms(2) f(10-13) by (simp add: lr_shape_def ring_wf_def l_cur_def)
  moreover have "\<exists>d' \<in> set (tr_descriptors (l_task_ring s)). fixed d = fixed d'"
    if "d \<in> set (tr_descriptors (l_task_ring s'))" for d
  proof -
    have "fixed ` set (tr_descriptors (l_task_ring s')) = fixed ` set (tr_descriptors (l_task_ring s))"
      using assms(1) unfolding lr_frame_def by (metis set_map)
    with that show ?thesis by (auto simp: image_iff set_eq_iff)
  qed
  ultimately show ?thesis using assms(2) f unfolding lr_shape_def by (metis fixedD(1,2))
qed

lemma lr_frame_views:
  assumes "lr_frame s s'" "lr_shape s"
  shows "l_live s' i = l_live s i" "l_deps s' i = l_deps s i" "l_outs s' i = l_outs s i"
    "ext_left s' i = ext_left s i" "td_fanin_count (l_get s' i) = td_fanin_count (l_get s i)"
    "td_fanout_count (l_get s' i) = td_fanout_count (l_get s i)"
  using lr_frameD [OF assms(1)] fixedD [OF lr_frame_get [OF assms(1) lr_shapeD(1) [OF assms(2)]], of i]
  by (simp_all add: l_live_def l_deps_def l_outs_def ext_left_def)

section \<open>Credits\<close>

text \<open>
  \<open>got i\<close> is the number of fan-in credits task \<open>i\<close> has, \<open>rel i\<close> the number of its consumers that have
  finished. A task is pending exactly as long as credits are missing. The reference a scope would
  hold is never released, so \<open>rel i\<close> stays below the fan-out count.
\<close>

definition credits :: "lrt \<Rightarrow> (i32 \<Rightarrow> nat) \<Rightarrow> (i32 \<Rightarrow> nat) \<Rightarrow> bool" where
  "credits s got rel \<longleftrightarrow> (\<forall>i. l_live s i \<longrightarrow>
     td_atomic_fanin_refcount (l_get s i) = got i \<and> td_atomic_fanout_refcount (l_get s i) = rel i \<and>
     got i \<le> td_fanin_count (l_get s i) \<and> rel i < td_fanout_count (l_get s i) \<and>
     (l_status s i = PENDING \<longleftrightarrow> got i < td_fanin_count (l_get s i)) \<and> l_status s i \<noteq> CONSUMED)"

definition lr_queue :: "lrt \<Rightarrow> bool" where
  "lr_queue s \<longleftrightarrow> rq_ok (l_rq_buf s) (l_rq_capacity s) (l_rq_head s) (l_rq_tail s) (l_cur s) (l_status s)"

text \<open>The frame of completion, with statuses moving from pending to ready at most.\<close>

definition promotes :: "lrt \<Rightarrow> lrt \<Rightarrow> bool" where
  "promotes s s' \<longleftrightarrow> lr_frame s s' \<and> (\<forall>i. l_live s i \<longrightarrow>
     td_fanout_lock (l_get s' i) = td_fanout_lock (l_get s i) \<and>
     (l_status s' i = l_status s i \<or> l_status s i = PENDING \<and> l_status s' i = READY))"

lemma promotes_refl [simp]: "promotes s s"
  by (simp add: promotes_def)

lemma promotes_trans:
  assumes "promotes a b" "promotes b c" "lr_shape a"
  shows "promotes a c"
proof -
  have f: "lr_frame a b" "lr_frame b c" using assms(1,2) by (simp_all add: promotes_def)
  have "l_live b i = l_live a i" for i using lr_frame_views(1) [OF f(1) assms(3)] .
  with assms(1,2) show ?thesis unfolding promotes_def using lr_frame_trans [OF f] by force
qed

lemma promotes_completed:
  "promotes s s' \<Longrightarrow> l_live s i \<Longrightarrow> l_status s' i = COMPLETED \<longleftrightarrow> l_status s i = COMPLETED"
  by (auto simp: promotes_def)

lemma bump_fanin_frame: "lr_frame s (l_upd c (\<lambda>d. d\<lparr>td_atomic_fanin_refcount := g d\<rparr>) s)"
  and bump_fanout_frame: "lr_frame s (l_upd c (\<lambda>d. d\<lparr>td_atomic_fanout_refcount := g d\<rparr>) s)"
  and status_frame: "lr_frame s (l_set_status st c s)"
  and lock_frame: "lr_frame s (l_upd c (\<lambda>d. d\<lparr>td_fanout_lock := v\<rparr>) s)"
  by (simp_all add: lr_frame_upd fixed_def l_set_status_def)

text \<open>A pending task that gets its last credits is made ready and enqueued, once.\<close>

lemma ready_once_ok:
  assumes "lr_shape s" "lr_queue s" "l_live s c" "l_status s c = PENDING"
  shows "\<exists>s'. ready_once c s = Inr (True, s') \<and> lr_queue s' \<and> promotes s s' \<and>
    (\<forall>i. l_live s i \<longrightarrow> l_get s' i = (if i = c then (l_get s c)\<lparr>td_status := READY\<rparr> else l_get s i))"
proof -
  let ?s1 = "l_set_status READY c s"
  have g: "l_get ?s1 i = (if c = i then (l_get s i)\<lparr>td_status := READY\<rparr> else l_get s i)" if "l_live s i" for i
    using l_get_upd [OF assms(1,3) that] by (simp add: l_set_status_def)
  have st: "l_status ?s1 i = ((l_status s)(c := READY)) i" if "l_live s i" for i
    using g [OF that] by (simp add: l_status_def)
  have q: "rq_ok (l_rq_buf s) (l_rq_capacity s) (l_rq_head s) (l_rq_tail s) (l_cur s) (l_status s)"
    "0 \<le> c" "c < l_cur s" using assms(2,3) by (simp_all add: lr_queue_def l_live_def)
  note p = rq_push [OF q assms(4)]
  let ?s2 = "?s1\<lparr>l_rq_buf := (l_rq_buf s)[nat (l_rq_tail s) := c], l_rq_tail := l_rq_tail s + 1\<rparr>"
  have get2: "l_get ?s2 i = l_get ?s1 i" for i by (simp add: l_get_def)
  have "ready_once c s = Inr (True, ?s2)"
    using p(1,2) assms(4)
    by (simp add: ready_once_def try_set_ready_def enqueue_ready_def l_status_def Let_def l_set_status_def)
  moreover have "lr_queue ?s2"
  proof -
    have "l_status ?s2 i = ((l_status s)(c := READY)) i" if "0 \<le> i" "i < l_cur s" for i
      using st [of i] get2 [of i] that by (simp add: l_live_def l_status_def)
    from rq_ok_cong [OF p(3) this] show ?thesis
      unfolding lr_queue_def by (simp add: l_set_status_def l_cur_def) (simp add: l_upd_def)
  qed
  moreover have "lr_frame s ?s2" by (rule lr_frame_trans [OF status_frame lr_frame_queue])
  ultimately show ?thesis
    using g get2 assms(3,4) by (intro exI [of _ ?s2]) (auto simp: promotes_def l_status_def)
qed

lemma lr_queue_upd:
  assumes "lr_queue s" "\<And>i. l_live s i \<Longrightarrow> l_status (l_upd c f s) i = l_status s i"
  shows "lr_queue (l_upd c f s)"
  using assms rq_ok_cong [of _ _ _ _ _ "l_status s" "l_status (l_upd c f s)"]
  by (auto simp: lr_queue_def l_live_def)

text \<open>\<open>n\<close> credits for task \<open>c\<close>, as a consumer's bump (\<open>n = 1\<close>) or the scheduler's.\<close>

definition give_credit :: "nat \<Rightarrow> i32 \<Rightarrow> lrt \<Rightarrow> (bool \<times> lrt) res" where
  "give_credit n c s =
     (let prev = td_atomic_fanin_refcount (l_get s c);
          s = l_upd c (\<lambda>d. d\<lparr>td_atomic_fanin_refcount := td_atomic_fanin_refcount d + n\<rparr>) s in
      if td_fanin_count (l_get s c) \<le> prev + n then ready_once c s else Inr (False, s))"

lemma give_credit_ok:
  assumes "lr_shape s" "lr_queue s" "credits s got rel" "l_live s c" "0 < n"
    "got c + n \<le> td_fanin_count (l_get s c)"
  shows "\<exists>b s'. give_credit n c s = Inr (b, s') \<and> lr_queue s' \<and> promotes s s' \<and>
    credits s' (got(c := got c + n)) rel"
proof -
  let ?s1 = "l_upd c (\<lambda>d. d\<lparr>td_atomic_fanin_refcount := td_atomic_fanin_refcount d + n\<rparr>) s"
  note g = l_get_upd [OF assms(1,4)]
  have c: "td_atomic_fanin_refcount (l_get s c) = got c" "l_status s c = PENDING"
    using assms(3-6) by (auto simp: credits_def)
  have sh: "lr_shape ?s1" by (rule lr_frame_shape [OF bump_fanin_frame assms(1)])
  have st: "l_status ?s1 i = l_status s i" if "l_live s i" for i using g [OF that] by (simp add: l_status_def)
  have q: "lr_queue ?s1" using st by (intro lr_queue_upd assms(2))
  have pr: "promotes s ?s1" unfolding promotes_def using bump_fanin_frame st g by simp
  show ?thesis
  proof (cases "got c + n = td_fanin_count (l_get s c)")
    case True
    have "l_live ?s1 c" "l_status ?s1 c = PENDING" using assms(4) st c by simp_all
    from ready_once_ok [OF sh q this] obtain s' where
      s': "ready_once c ?s1 = Inr (True, s')" "lr_queue s'" "promotes ?s1 s'"
        "\<forall>i. l_live s i \<longrightarrow> l_get s' i = (if i = c then (l_get ?s1 c)\<lparr>td_status := READY\<rparr> else l_get ?s1 i)"
      by (simp only: l_upd_simps) blast
    have lv: "l_live s' i = l_live s i" for i
      using lr_frame_views(1) [OF _ sh] s'(3) by (simp add: promotes_def)
    have "credits s' (got(c := got c + n)) rel"
      unfolding credits_def lv
    proof (intro allI impI)
      fix i
      assume i: "l_live s i"
      have "l_get s' i = (if i = c then (l_get s c)\<lparr>td_atomic_fanin_refcount := got c + n, td_status := READY\<rparr>
          else l_get s i)" using s'(4) g [OF i] c i by auto
      then show "td_atomic_fanin_refcount (l_get s' i) = (got(c := got c + n)) i \<and>
        td_atomic_fanout_refcount (l_get s' i) = rel i \<and>
        (got(c := got c + n)) i \<le> td_fanin_count (l_get s' i) \<and> rel i < td_fanout_count (l_get s' i) \<and>
        (l_status s' i = PENDING \<longleftrightarrow> (got(c := got c + n)) i < td_fanin_count (l_get s' i)) \<and>
        l_status s' i \<noteq> CONSUMED"
        using assms(3,6) True i by (auto simp: credits_def l_status_def)
    qed
    moreover have "give_credit n c s = Inr (True, s')"
      using s'(1) True c g [OF assms(4)] by (simp add: give_credit_def Let_def)
    ultimately show ?thesis using s'(2) promotes_trans [OF pr s'(3) assms(1)] by blast
  next
    case False
    have "give_credit n c s = Inr (False, ?s1)"
      using False c assms(6) g [OF assms(4)] by (simp add: give_credit_def Let_def)
    moreover have "credits ?s1 (got(c := got c + n)) rel"
      using assms(3,6) False st g c by (auto simp: credits_def)
    ultimately show ?thesis using q pr by blast
  qed
qed

lemma notify_credit: "l_notify_consumer c s = bindR (give_credit 1 c s) (\<lambda>(won, s). Inr s)"
  by (simp add: l_notify_consumer_def give_credit_def Let_def)

lemma notify_all:
  assumes "lr_shape s" "lr_queue s" "credits s got rel" "\<forall>c \<in> set cs. l_live s c"
    "\<forall>c. l_live s c \<longrightarrow> got c + count_list cs c \<le> td_fanin_count (l_get s c)"
  shows "\<exists>s'. foldR l_notify_consumer cs s = Inr s' \<and> lr_queue s' \<and> promotes s s' \<and>
    credits s' (\<lambda>c. got c + count_list cs c) rel"
  using assms
proof (induction cs arbitrary: s got)
  case Nil
  then show ?case by simp
next
  case (Cons c cs)
  have c: "l_live s c" "got c + 1 \<le> td_fanin_count (l_get s c)"
    using Cons.prems(4) Cons.prems(5) [rule_format, of c] by auto
  from give_credit_ok [OF Cons.prems(1-3) c(1) _ c(2)] obtain b s1 where
    s1: "give_credit 1 c s = Inr (b, s1)" "lr_queue s1" "promotes s s1" "credits s1 (got(c := got c + 1)) rel"
    by auto
  have f: "lr_frame s s1" using s1(3) by (simp add: promotes_def)
  note v = lr_frame_views [OF f Cons.prems(1)]
  have "\<forall>x. l_live s1 x \<longrightarrow> (got(c := got c + 1)) x + count_list cs x \<le> td_fanin_count (l_get s1 x)"
    using Cons.prems(5) v by auto
  with Cons.IH [OF lr_frame_shape [OF f Cons.prems(1)] s1(2,4)] Cons.prems(4) v obtain s' where
    s': "foldR l_notify_consumer cs s1 = Inr s'" "lr_queue s'" "promotes s1 s'"
      "credits s' (\<lambda>x. (got(c := got c + 1)) x + count_list cs x) rel" by auto
  have "(\<lambda>x. (got(c := got c + 1)) x + count_list cs x) = (\<lambda>x. got x + count_list (c # cs) x)" by auto
  with s' s1(1) promotes_trans [OF s1(3) s'(3) Cons.prems(1)] show ?case by (simp add: notify_credit [of c s])
qed

lemma release_all:
  assumes "lr_shape s" "lr_queue s" "credits s got rel" "\<forall>p \<in> set ps. l_live s p"
    "\<forall>p. l_live s p \<longrightarrow> rel p + count_list ps p < td_fanout_count (l_get s p)"
  shows "\<exists>s'. foldR l_release_producer ps s = Inr s' \<and> lr_queue s' \<and> promotes s s' \<and>
    credits s' got (\<lambda>p. rel p + count_list ps p)"
  using assms
proof (induction ps arbitrary: s rel)
  case Nil
  then show ?case by simp
next
  case (Cons p ps)
  let ?s1 = "l_upd p (\<lambda>d. d\<lparr>td_atomic_fanout_refcount := td_atomic_fanout_refcount d + 1\<rparr>) s"
  have p: "l_live s p" "rel p + 1 < td_fanout_count (l_get s p)"
    using Cons.prems(4) Cons.prems(5) [rule_format, of p] by auto
  note g = l_get_upd [OF Cons.prems(1) p(1)]
  have st: "l_status ?s1 i = l_status s i" if "l_live s i" for i using g [OF that] by (simp add: l_status_def)
  have q: "lr_queue ?s1" using st by (intro lr_queue_upd Cons.prems(2))
  have pr: "promotes s ?s1" unfolding promotes_def using bump_fanout_frame st g by simp
  have cr: "credits ?s1 got (rel(p := rel p + 1))"
    using Cons.prems(3) p st g by (auto simp: credits_def)
  have "l_check_consumed p ?s1 = ?s1"
    using p Cons.prems(3) g [OF p(1)] by (auto simp: l_check_consumed_def credits_def Let_def)
  then have e: "l_release_producer p s = Inr ?s1" by (simp add: l_release_producer_def)
  have f: "lr_frame s ?s1" using pr by (simp add: promotes_def)
  note v = lr_frame_views [OF f Cons.prems(1)]
  have "\<forall>x. l_live ?s1 x \<longrightarrow> (rel(p := rel p + 1)) x + count_list ps x < td_fanout_count (l_get ?s1 x)"
    using Cons.prems(5) v by auto
  with Cons.IH [OF lr_frame_shape [OF f Cons.prems(1)] q cr] Cons.prems(4) v obtain s' where
    s': "foldR l_release_producer ps ?s1 = Inr s'" "lr_queue s'" "promotes ?s1 s'"
      "credits s' got (\<lambda>x. (rel(p := rel p + 1)) x + count_list ps x)" by auto
  have "(\<lambda>x. (rel(p := rel p + 1)) x + count_list ps x) = (\<lambda>x. rel x + count_list (p # ps) x)" by auto
  with s' e promotes_trans [OF pr s'(3) Cons.prems(1)] show ?case by simp
qed

section \<open>The invariant\<close>

definition got_of :: "lrt \<Rightarrow> i32 \<Rightarrow> nat" where
  "got_of s i = length (filter (\<lambda>p. l_status s p = COMPLETED) (l_deps s i)) +
     (td_fanin_count (l_get s i) - length (l_deps s i) - ext_left s i)"

definition rel_of :: "lrt \<Rightarrow> i32 \<Rightarrow> nat" where
  "rel_of s i = length (filter (\<lambda>c. l_status s c = COMPLETED) (l_outs s i))"

definition lr_edges :: "lrt \<Rightarrow> bool" where
  "lr_edges s \<longleftrightarrow> (\<forall>i. l_live s i \<longrightarrow>
     (\<forall>p \<in> set (l_deps s i). 0 \<le> p \<and> p < i) \<and> (\<forall>c \<in> set (l_outs s i). i < c \<and> c < l_cur s) \<and>
     td_fanout_count (l_get s i) = length (l_outs s i) + 1 \<and>
     length (l_deps s i) + ext_left s i \<le> td_fanin_count (l_get s i) \<and>
     (\<forall>c. l_live s c \<longrightarrow> count_list (l_outs s i) c = count_list (l_deps s c) i))"

definition lr_unlocked :: "lrt \<Rightarrow> bool" where
  "lr_unlocked s \<longleftrightarrow> (\<forall>i. l_live s i \<longrightarrow> td_fanout_lock (l_get s i) = 0)"

definition lr_promised :: "lrt \<Rightarrow> bool" where
  "lr_promised s \<longleftrightarrow> (\<forall>i. l_live s i \<longrightarrow>
     l_promises s ! nat i = (if l_status s i = COMPLETED then None else Some (nat i)) \<and>
     (l_futures s ! nat i \<longleftrightarrow> l_status s i = COMPLETED))"

definition lr_inv :: "lrt \<Rightarrow> bool" where
  "lr_inv s \<longleftrightarrow> lr_shape s \<and> lr_edges s \<and> lr_unlocked s \<and> lr_queue s \<and> lr_promised s \<and>
     credits s (got_of s) (rel_of s)"

lemma lr_invD:
  assumes "lr_inv s"
  shows "lr_shape s" "lr_edges s" "lr_unlocked s" "lr_queue s" "lr_promised s" "credits s (got_of s) (rel_of s)"
  using assms by (simp_all add: lr_inv_def)

lemma credits_cong:
  assumes "credits s got rel" "\<And>i. l_live s i \<Longrightarrow> got' i = got i \<and> rel' i = rel i"
  shows "credits s got' rel'"
  using assms by (simp add: credits_def)

lemma filter_add_one:
  "(\<And>x. x \<in> set xs \<Longrightarrow> Q x \<longleftrightarrow> P x \<or> x = t) \<Longrightarrow> \<not> P t \<Longrightarrow>
   length (filter Q xs) = length (filter P xs) + count_list xs t"
  by (induction xs) auto

lemma lr_edges_live:
  assumes "lr_edges s" "l_live s i"
  shows "\<forall>p \<in> set (l_deps s i). l_live s p" "\<forall>c \<in> set (l_outs s i). l_live s c"
proof -
  have "\<forall>p \<in> set (l_deps s i). 0 \<le> p \<and> p < i" "\<forall>c \<in> set (l_outs s i). i < c \<and> c < l_cur s"
    using assms unfolding lr_edges_def by blast+
  with assms(2) show "\<forall>p \<in> set (l_deps s i). l_live s p" "\<forall>c \<in> set (l_outs s i). l_live s c"
    unfolding l_live_def by (meson order.strict_trans order.trans less_imp_le)+
qed

lemma lr_edges_frame:
  assumes "lr_frame s s'" "lr_shape s" "lr_edges s"
  shows "lr_edges s'"
  using assms(3) lr_frame_views [OF assms(1,2)] lr_frameD(12) [OF assms(1)] by (simp add: lr_edges_def)

text \<open>The counts of a state depend on which tasks have completed.\<close>

lemma counts_frame:
  assumes "lr_frame s s'" "lr_shape s" "lr_edges s" "l_live s i"
    "\<And>j. l_live s j \<Longrightarrow> l_status s' j = COMPLETED \<longleftrightarrow> l_status s j = COMPLETED"
  shows "got_of s' i = got_of s i" "rel_of s' i = rel_of s i"
proof -
  have "filter (\<lambda>p. l_status s' p = COMPLETED) (l_deps s i) = filter (\<lambda>p. l_status s p = COMPLETED) (l_deps s i)"
    "filter (\<lambda>p. l_status s' p = COMPLETED) (l_outs s i) = filter (\<lambda>p. l_status s p = COMPLETED) (l_outs s i)"
    using lr_edges_live [OF assms(3,4)] assms(5) by (auto intro!: filter_cong)
  then show "got_of s' i = got_of s i" "rel_of s' i = rel_of s i"
    using lr_frame_views [OF assms(1,2)] by (simp_all add: got_of_def rel_of_def)
qed

lemma counts_complete:
  assumes "lr_frame s s'" "lr_shape s" "lr_edges s" "l_live s i" "l_live s t" "l_status s t \<noteq> COMPLETED"
    "\<And>j. l_live s j \<Longrightarrow> l_status s' j = COMPLETED \<longleftrightarrow> l_status s j = COMPLETED \<or> j = t"
  shows "got_of s' i = got_of s i + count_list (l_outs s t) i" "rel_of s' i = rel_of s i + count_list (l_deps s t) i"
proof -
  have "length (filter (\<lambda>p. l_status s' p = COMPLETED) (l_deps s i)) =
      length (filter (\<lambda>p. l_status s p = COMPLETED) (l_deps s i)) + count_list (l_deps s i) t"
    "length (filter (\<lambda>p. l_status s' p = COMPLETED) (l_outs s i)) =
      length (filter (\<lambda>p. l_status s p = COMPLETED) (l_outs s i)) + count_list (l_outs s i) t"
    using lr_edges_live [OF assms(3,4)] assms(6,7) by (auto intro!: filter_add_one)
  moreover have "count_list (l_deps s i) t = count_list (l_outs s t) i"
    "count_list (l_outs s i) t = count_list (l_deps s t) i"
    using assms(3-5) by (simp_all add: lr_edges_def)
  ultimately show "got_of s' i = got_of s i + count_list (l_outs s t) i"
    "rel_of s' i = rel_of s i + count_list (l_deps s t) i"
    using lr_frame_views [OF assms(1,2)] by (simp_all add: got_of_def rel_of_def)
qed

lemma counts_bound:
  assumes "lr_edges s" "l_live s i"
  shows "got_of s i \<le> td_fanin_count (l_get s i)" "rel_of s i < td_fanout_count (l_get s i)"
proof -
  have "length (filter (\<lambda>p. l_status s p = COMPLETED) (l_deps s i)) \<le> length (l_deps s i)"
    "length (filter (\<lambda>p. l_status s p = COMPLETED) (l_outs s i)) \<le> length (l_outs s i)" by simp_all
  moreover have "td_fanout_count (l_get s i) = length (l_outs s i) + 1"
    "length (l_deps s i) + ext_left s i \<le> td_fanin_count (l_get s i)"
    using assms by (simp_all add: lr_edges_def)
  ultimately show "got_of s i \<le> td_fanin_count (l_get s i)" "rel_of s i < td_fanout_count (l_get s i)"
    unfolding got_of_def rel_of_def by linarith+
qed

section \<open>Completion keeps the invariant\<close>

lemma lock_step:
  assumes "lr_shape s" "l_live s t" "lr_queue s" "credits s got rel"
    and s': "s' = l_upd t (\<lambda>d. d\<lparr>td_fanout_lock := v\<rparr>) s"
  shows "lr_shape s'" "lr_queue s'" "credits s' got rel" "lr_frame s s'"
    "\<And>i. l_live s i \<Longrightarrow> l_get s' i = (if t = i then (l_get s i)\<lparr>td_fanout_lock := v\<rparr> else l_get s i)"
    "\<And>i. l_live s i \<Longrightarrow> l_status s' i = l_status s i"
proof -
  show f: "lr_frame s s'" unfolding s' by (rule lock_frame)
  show "lr_shape s'" by (rule lr_frame_shape [OF f assms(1)])
  show g: "l_get s' i = (if t = i then (l_get s i)\<lparr>td_fanout_lock := v\<rparr> else l_get s i)" if "l_live s i" for i
    using l_get_upd [OF assms(1,2) that] by (simp add: s')
  show st: "l_status s' i = l_status s i" if "l_live s i" for i using g [OF that] by (simp add: l_status_def)
  show "lr_queue s'" unfolding s' using st by (intro lr_queue_upd assms(3)) (simp add: s')
  show "credits s' got rel"
    using assms(4) g st lr_frame_views(1) [OF f assms(1)] by (auto simp: credits_def)
qed

lemma l_each_foldR:
  "lr_shape s \<Longrightarrow> dep_for_each (l_dep_pool s) f (td_fanout_list_head (l_get s t)) x = foldR f (l_outs s t) x"
  "lr_shape s \<Longrightarrow> dep_for_each (l_dep_pool s) f (td_dep_list_head (l_get s t)) x = foldR f (l_deps s t) x"
  by (simp_all add: l_outs_def l_deps_def dep_for_each_foldR lr_heads lr_shapeD)

lemma check_consumed_idle:
  assumes "credits s got rel" "l_live s t"
  shows "l_check_consumed t s = s"
  using assms by (auto simp: l_check_consumed_def credits_def Let_def)

text \<open>\<^verbatim>\<open>propagate_completion\<close> gives one credit per cell of the fan-out chain and releases one reference per
  cell of the fan-in chain.\<close>

lemma propagate_credits:
  assumes "lr_shape s" "lr_edges s" "lr_unlocked s" "lr_queue s" "l_live s t" "credits s got rel"
    "\<And>i. l_live s i \<Longrightarrow> got i + count_list (l_outs s t) i \<le> td_fanin_count (l_get s i)"
    "\<And>i. l_live s i \<Longrightarrow> rel i + count_list (l_deps s t) i < td_fanout_count (l_get s i)"
  shows "\<exists>s'. l_propagate t s = Inr s' \<and> lr_queue s' \<and> promotes s s' \<and>
    credits s' (\<lambda>i. got i + count_list (l_outs s t) i) (\<lambda>i. rel i + count_list (l_deps s t) i)"
proof -
  note live = lr_edges_live [OF assms(2,5)]
  define s1 where "s1 = l_upd t (\<lambda>d. d\<lparr>td_fanout_lock := 1\<rparr>) s"
  note l1 = lock_step [OF assms(1,5,4,6) s1_def]
  note v1 = lr_frame_views [OF l1(4) assms(1)]
  have "\<forall>c. l_live s1 c \<longrightarrow> got c + count_list (l_outs s t) c \<le> td_fanin_count (l_get s1 c)"
    using v1 assms(7) by simp
  with notify_all [OF l1(1-3), of "l_outs s t"] live(2) v1 obtain s2 where
    s2: "foldR l_notify_consumer (l_outs s t) s1 = Inr s2" "lr_queue s2" "promotes s1 s2"
      "credits s2 (\<lambda>c. got c + count_list (l_outs s t) c) rel" by auto
  have f2: "lr_frame s1 s2" using s2(3) by (simp add: promotes_def)
  have sh2: "lr_shape s2" by (rule lr_frame_shape [OF f2 l1(1)])
  note v2 = lr_frame_views [OF f2 l1(1)]
  have t2: "l_live s2 t" using v2(1) v1(1) assms(5) by simp
  define s3 where "s3 = l_upd t (\<lambda>d. d\<lparr>td_fanout_lock := 0\<rparr>) s2"
  note l3 = lock_step [OF sh2 t2 s2(2,4) s3_def]
  note v3 = lr_frame_views [OF l3(4) sh2]
  have "\<forall>p. l_live s3 p \<longrightarrow> rel p + count_list (l_deps s t) p < td_fanout_count (l_get s3 p)"
    using v1 v2 v3 assms(8) by simp
  with release_all [OF l3(1-3), of "l_deps s t"] live(1) v1 v2 v3 obtain s4 where
    s4: "foldR l_release_producer (l_deps s t) s3 = Inr s4" "lr_queue s4" "promotes s3 s4"
      "credits s4 (\<lambda>c. got c + count_list (l_outs s t) c) (\<lambda>p. rel p + count_list (l_deps s t) p)" by auto
  have f4: "lr_frame s3 s4" using s4(3) by (simp add: promotes_def)
  note v4 = lr_frame_views [OF f4 l3(1)]
  have "l_propagate t s = Inr s4"
    using s2(1) s4(1) assms(3,5) check_consumed_idle [OF s4(4), of t] v1 v2 v3 v4 lr_frameD(1) [OF l3(4)]
      l_each_foldR(1) [OF l1(1), of l_notify_consumer t s1] l_each_foldR(2) [OF l3(1), of l_release_producer t s3]
    by (simp add: l_propagate_def fanout_lock_def fanout_unlock_def lr_unlocked_def Let_def
        s1_def [symmetric] s3_def [symmetric])
  moreover have pr: "promotes s s4"
  proof -
    have "lr_frame s s4" by (rule lr_frame_trans [OF lr_frame_trans [OF l1(4) f2] lr_frame_trans [OF l3(4) f4]])
    moreover have "td_fanout_lock (l_get s4 i) = td_fanout_lock (l_get s i) \<and>
       (l_status s4 i = l_status s i \<or> l_status s i = PENDING \<and> l_status s4 i = READY)" if i: "l_live s i" for i
    proof -
      have i': "l_live s1 i" "l_live s2 i" "l_live s3 i" using i v1 v2 v3 by simp_all
      have "td_fanout_lock (l_get s2 i) = td_fanout_lock (l_get s1 i) \<and>
          (l_status s2 i = l_status s1 i \<or> l_status s1 i = PENDING \<and> l_status s2 i = READY)"
        "td_fanout_lock (l_get s4 i) = td_fanout_lock (l_get s3 i) \<and>
          (l_status s4 i = l_status s3 i \<or> l_status s3 i = PENDING \<and> l_status s4 i = READY)"
        using s2(3) s4(3) i'(1,3) unfolding promotes_def by blast+
      moreover have "td_fanout_lock (l_get s i) = 0" using assms(3) i by (simp add: lr_unlocked_def)
      ultimately show ?thesis using l1(5,6) [OF i] l3(5,6) [OF i'(2)] by (cases "t = i") auto
    qed
    ultimately show ?thesis by (simp add: promotes_def)
  qed
  ultimately show ?thesis using s4(2,4) by blast
qed

text \<open>\<open>t\<close> is marked completed, and its consumers and producers do not know yet.\<close>

lemma propagate_ok:
  assumes "lr_shape s" "lr_edges s" "lr_unlocked s" "lr_queue s" "l_live s t" "credits s got rel"
    "\<And>i. l_live s i \<Longrightarrow> got_of s i = got i + count_list (l_outs s t) i"
    "\<And>i. l_live s i \<Longrightarrow> rel_of s i = rel i + count_list (l_deps s t) i"
  shows "\<exists>s'. l_propagate t s = Inr s' \<and> lr_queue s' \<and> promotes s s' \<and> credits s' (got_of s') (rel_of s')"
proof -
  obtain s' where s': "l_propagate t s = Inr s'" "lr_queue s'" "promotes s s'"
    "credits s' (\<lambda>i. got i + count_list (l_outs s t) i) (\<lambda>i. rel i + count_list (l_deps s t) i)"
    using propagate_credits [OF assms(1-6)] counts_bound [OF assms(2)] assms(7,8) by auto
  have f: "lr_frame s s'" using s'(3) by (simp add: promotes_def)
  have "credits s' (got_of s') (rel_of s')"
  proof (rule credits_cong [OF s'(4)])
    fix i
    assume "l_live s' i"
    then have i: "l_live s i" using lr_frame_views(1) [OF f assms(1)] by simp
    from counts_frame [OF f assms(1,2) i promotes_completed [OF s'(3)]] assms(7,8) [OF i]
    show "got_of s' i = got i + count_list (l_outs s t) i \<and> rel_of s' i = rel i + count_list (l_deps s t) i"
      by simp
  qed
  with s' show ?thesis by blast
qed

lemma promotes_unlocked: "promotes s s' \<Longrightarrow> lr_shape s \<Longrightarrow> lr_unlocked s \<Longrightarrow> lr_unlocked s'"
  using lr_frame_views(1) by (auto simp: promotes_def lr_unlocked_def)

text \<open>What holds between two steps of a completion: the invariant with the credits given so far.\<close>

definition lr_mid :: "lrt \<Rightarrow> (i32 \<Rightarrow> nat) \<Rightarrow> (i32 \<Rightarrow> nat) \<Rightarrow> bool" where
  "lr_mid s got rel \<longleftrightarrow> lr_shape s \<and> lr_edges s \<and> lr_unlocked s \<and> lr_queue s \<and> lr_promised s \<and>
     credits s got rel"

lemma lr_mid_inv: "lr_mid s (got_of s) (rel_of s) \<longleftrightarrow> lr_inv s"
  by (simp add: lr_mid_def lr_inv_def)

lemma lr_midD:
  assumes "lr_mid s got rel"
  shows "lr_shape s" "lr_edges s" "lr_unlocked s" "lr_queue s" "lr_promised s" "credits s got rel"
  using assms by (simp_all add: lr_mid_def)

text \<open>Marking a running task completed (the first line of \<^verbatim>\<open>on_task_complete\<close>).\<close>

lemma mark_completed:
  assumes "lr_shape s" "lr_edges s" "lr_unlocked s" "lr_queue s" "credits s got rel"
    "l_live s t" "l_status s t = RUNNING" and s1: "s1 = l_set_status COMPLETED t s"
  shows "lr_frame s s1" "lr_shape s1" "lr_edges s1" "lr_unlocked s1" "lr_queue s1" "credits s1 got rel"
    "\<And>i. l_live s i \<Longrightarrow> l_status s1 i = ((l_status s)(t := COMPLETED)) i"
proof -
  show f: "lr_frame s s1" unfolding s1 by (rule status_frame)
  show sh: "lr_shape s1" by (rule lr_frame_shape [OF f assms(1)])
  show "lr_edges s1" by (rule lr_edges_frame [OF f assms(1,2)])
  note v = lr_frame_views [OF f assms(1)]
  have g: "l_get s1 i = (if t = i then (l_get s i)\<lparr>td_status := COMPLETED\<rparr> else l_get s i)" if "l_live s i" for i
    using l_get_upd [OF assms(1,6) that] by (simp add: s1 l_set_status_def)
  show st: "l_status s1 i = ((l_status s)(t := COMPLETED)) i" if "l_live s i" for i
    using g [OF that] by (simp add: l_status_def)
  have "rq_ok (l_rq_buf s) (l_rq_capacity s) (l_rq_head s) (l_rq_tail s) (l_cur s) ((l_status s)(t := COMPLETED))"
    using assms(4,7) by (intro rq_running) (auto simp: lr_queue_def)
  then show "lr_queue s1"
    using rq_ok_cong [of _ _ _ _ _ "(l_status s)(t := COMPLETED)" "l_status s1"] st lr_frameD(4,5,12) [OF f]
    by (simp add: lr_queue_def s1 l_set_status_def l_live_def)
  show "credits s1 got rel" using assms(5-7) g st v(1) by (auto simp: credits_def)
  show "lr_unlocked s1" using assms(3) g v(1) by (auto simp: lr_unlocked_def)
qed

lemma complete_ok:
  assumes "lr_shape s" "lr_edges s" "lr_unlocked s" "lr_queue s" "credits s (got_of s) (rel_of s)"
    "l_live s t" "l_status s t = RUNNING"
  shows "\<exists>s'. l_on_task_complete t s = Inr s' \<and> lr_queue s' \<and> lr_unlocked s' \<and> lr_frame s s' \<and>
    credits s' (got_of s') (rel_of s') \<and> l_status s' t = COMPLETED \<and>
    (\<forall>i. l_live s i \<longrightarrow> i \<noteq> t \<longrightarrow> l_status s' i = l_status s i \<or> l_status s i = PENDING \<and> l_status s' i = READY)"
proof -
  define s1 where "s1 = l_set_status COMPLETED t s"
  note m = mark_completed [OF assms s1_def]
  note f = m(1) and sh = m(2) and un = m(4) and q = m(5) and cr = m(6) and st = m(7)
  note v = lr_frame_views [OF f assms(1)]
  have "l_live s1 t" using assms(6) v by simp
  moreover have "got_of s1 i = got_of s i + count_list (l_outs s1 t) i \<and>
      rel_of s1 i = rel_of s i + count_list (l_deps s1 t) i" if "l_live s1 i" for i
    using counts_complete [OF f assms(1,2) _ assms(6), of i] that st v assms(7) by auto
  ultimately obtain s' where s': "l_propagate t s1 = Inr s'" "lr_queue s'" "promotes s1 s'"
    "credits s' (got_of s') (rel_of s')"
    using propagate_ok [OF sh lr_edges_frame [OF f assms(1,2)] un q _ cr] by blast
  have "l_status s' i = l_status s1 i \<or> l_status s1 i = PENDING \<and> l_status s' i = READY" if "l_live s i" for i
    using s'(3) that v(1) by (auto simp: promotes_def)
  with st assms(6) have "l_status s' t = COMPLETED"
    "\<forall>i. l_live s i \<longrightarrow> i \<noteq> t \<longrightarrow> l_status s' i = l_status s i \<or> l_status s i = PENDING \<and> l_status s' i = READY"
    by fastforce+
  moreover have "lr_frame s s'" using lr_frame_trans [OF f] s'(3) by (simp add: promotes_def)
  ultimately show ?thesis
    using s' promotes_unlocked [OF s'(3) sh un] by (auto simp: l_on_task_complete_def s1_def)
qed

end
