(* ===== verification/Level_Submission.thy ===== *)
theory Level_Submission
  imports Level_Safety
begin

text \<open>
  \<^verbatim>\<open>submit_worker\<close>: what preparing a task leaves of the other tasks, what linking it to its producers
  adds, and that publishing it keeps the invariant of \<open>Level_Safety\<close>.
\<close>

section \<open>Linking a task to its producers\<close>

text \<open>\<open>c\<close> has been added to the fan-out chains of \<open>ps\<close>.\<close>

definition linked :: "i32 list \<Rightarrow> i32 \<Rightarrow> lrt \<Rightarrow> lrt \<Rightarrow> bool" where
  "linked ps c s s' \<longleftrightarrow>
     s'\<lparr>l_task_ring := l_task_ring s, l_dep_pool := l_dep_pool s\<rparr> = s \<and>
     (l_task_ring s')\<lparr>tr_descriptors := tr_descriptors (l_task_ring s)\<rparr> = l_task_ring s \<and>
     lr_shape s' \<and> (\<forall>i. l_live s i \<longrightarrow>
       l_status s' i = l_status s i \<and> td_fanin_count (l_get s' i) = td_fanin_count (l_get s i) \<and>
       td_atomic_fanout_refcount (l_get s' i) = td_atomic_fanout_refcount (l_get s i) \<and>
       td_fanout_lock (l_get s' i) = 0 \<and> l_deps s' i = l_deps s i \<and>
       l_outs s' i = replicate (count_list ps i) c @ l_outs s i \<and>
       td_fanout_count (l_get s' i) = td_fanout_count (l_get s i) + count_list ps i \<and>
       td_atomic_fanin_refcount (l_get s' i) = td_atomic_fanin_refcount (l_get s i) +
         (if i = c then length (filter (\<lambda>p. l_status s p = COMPLETED \<or> l_status s p = CONSUMED) ps) else 0))"

lemma linkedD:
  assumes "linked ps c s s'"
  shows "l_tensor_map s' = l_tensor_map s" "l_scope_stack s' = l_scope_stack s" "l_rq_buf s' = l_rq_buf s"
    "l_rq_capacity s' = l_rq_capacity s" "l_rq_head s' = l_rq_head s" "l_rq_tail s' = l_rq_tail s"
    "l_promises s' = l_promises s" "l_futures s' = l_futures s" "l_external_ready s' = l_external_ready s"
    "l_cur s' = l_cur s" "l_live s' i = l_live s i" "ext_left s' i = ext_left s i" "lr_shape s'"
    "tr_window_size (l_task_ring s') = tr_window_size (l_task_ring s)"
proof -
  have a: "s'\<lparr>l_task_ring := l_task_ring s, l_dep_pool := l_dep_pool s\<rparr> = s"
    and b: "(l_task_ring s')\<lparr>tr_descriptors := tr_descriptors (l_task_ring s)\<rparr> = l_task_ring s"
    and sh: "lr_shape s'" using assms unfolding linked_def by blast+
  show "l_tensor_map s' = l_tensor_map s" using arg_cong [OF a, of l_tensor_map] by simp
  show "l_scope_stack s' = l_scope_stack s" using arg_cong [OF a, of l_scope_stack] by simp
  show "l_rq_buf s' = l_rq_buf s" using arg_cong [OF a, of l_rq_buf] by simp
  show "l_rq_capacity s' = l_rq_capacity s" using arg_cong [OF a, of l_rq_capacity] by simp
  show "l_rq_head s' = l_rq_head s" using arg_cong [OF a, of l_rq_head] by simp
  show "l_rq_tail s' = l_rq_tail s" using arg_cong [OF a, of l_rq_tail] by simp
  show "l_promises s' = l_promises s" using arg_cong [OF a, of l_promises] by simp
  show "l_futures s' = l_futures s" using arg_cong [OF a, of l_futures] by simp
  show e: "l_external_ready s' = l_external_ready s" using arg_cong [OF a, of l_external_ready] by simp
  show c: "l_cur s' = l_cur s" using arg_cong [OF b, of tr_current_index] by (simp add: l_cur_def)
  show "tr_window_size (l_task_ring s') = tr_window_size (l_task_ring s)"
    using arg_cong [OF b, of tr_window_size] by simp
  show "l_live s' i = l_live s i" "ext_left s' i = ext_left s i" using c e by (simp_all add: l_live_def ext_left_def)
  show "lr_shape s'" by (fact sh)
qed

lemma linked_get:
  assumes "linked ps c s s'" "l_live s i"
  shows "l_status s' i = l_status s i" "td_fanin_count (l_get s' i) = td_fanin_count (l_get s i)"
    "td_atomic_fanout_refcount (l_get s' i) = td_atomic_fanout_refcount (l_get s i)"
    "td_fanout_lock (l_get s' i) = 0" "l_deps s' i = l_deps s i"
    "l_outs s' i = replicate (count_list ps i) c @ l_outs s i"
    "td_fanout_count (l_get s' i) = td_fanout_count (l_get s i) + count_list ps i"
    "td_atomic_fanin_refcount (l_get s' i) = td_atomic_fanin_refcount (l_get s i) +
         (if i = c then length (filter (\<lambda>p. l_status s p = COMPLETED \<or> l_status s p = CONSUMED) ps) else 0)"
  using assms unfolding linked_def by blast+

lemma prepend_pool:
  assumes "lr_shape s" "dep_head_ok (l_dep_pool s) h" "dep_prepend h t (l_dep_pool s) = Inr (h', p)"
  shows "lr_shape (s\<lparr>l_dep_pool := p\<rparr>)" "dep_head_ok p h'" "dep_list p h' = t # dep_list (l_dep_pool s) h"
    "l_deps (s\<lparr>l_dep_pool := p\<rparr>) i = l_deps s i" "l_outs (s\<lparr>l_dep_pool := p\<rparr>) i = l_outs s i"
proof -
  note d = dep.prepend_InrD [OF lr_shapeD(3) [OF assms(1)] assms(2,3)]
  show "lr_shape (s\<lparr>l_dep_pool := p\<rparr>)" using assms(1) d(1,5) by (auto simp: lr_shape_def l_cur_def)
  show "dep_head_ok p h'" "dep_list p h' = t # dep_list (l_dep_pool s) h" by (fact d)+
  have "l_get (s\<lparr>l_dep_pool := p\<rparr>) i = l_get s i" by (simp add: l_get_def)
  then show "l_deps (s\<lparr>l_dep_pool := p\<rparr>) i = l_deps s i" "l_outs (s\<lparr>l_dep_pool := p\<rparr>) i = l_outs s i"
    using d(5) lr_heads [OF assms(1)] by (simp_all add: l_deps_def l_outs_def)
qed

lemma get_pool [simp]: "l_get (s\<lparr>l_dep_pool := p\<rparr>) i = l_get s i" "l_live (s\<lparr>l_dep_pool := p\<rparr>) i = l_live s i"
  by (simp_all add: l_get_def l_live_def l_cur_def)

text \<open>The descriptors after one edge: the producer has the consumer in front of its list, the consumer a credit when the
  producer is done already.\<close>

lemma add_consumer_get:
  assumes "lr_shape s" "lr_unlocked s" "l_live s p" "l_live s c" "p \<noteq> c"
    "add_consumer_to_producer p c s = Inr s'"
  defines "up \<equiv> l_status s p = COMPLETED \<or> l_status s p = CONSUMED"
  obtains h where
    "\<And>i. l_live s i \<Longrightarrow> l_get s' i =
      (if p = i then (l_get s i)\<lparr>td_fanout_list_head := h, td_fanout_count := td_fanout_count (l_get s i) + 1\<rparr>
       else if c = i \<and> up then (l_get s i)\<lparr>td_atomic_fanin_refcount := td_atomic_fanin_refcount (l_get s i) + 1\<rparr>
       else l_get s i)"
    "dep_list (l_dep_pool s') h = c # l_outs s p"
    "\<And>i. l_live s i \<Longrightarrow> dep_list (l_dep_pool s') (td_dep_list_head (l_get s i)) = l_deps s i"
    "\<And>i. l_live s i \<Longrightarrow> dep_list (l_dep_pool s') (td_fanout_list_head (l_get s i)) = l_outs s i"
    "lr_shape s'" "s'\<lparr>l_task_ring := l_task_ring s, l_dep_pool := l_dep_pool s\<rparr> = s"
    "(l_task_ring s')\<lparr>tr_descriptors := tr_descriptors (l_task_ring s)\<rparr> = l_task_ring s"
proof -
  define s1 where "s1 = l_upd p (\<lambda>d. d\<lparr>td_fanout_lock := 1\<rparr>) s"
  have f1: "lr_frame s s1" unfolding s1_def by (rule lock_frame)
  have sh1: "lr_shape s1" by (rule lr_frame_shape [OF f1 assms(1)])
  note v1 = lr_frame_views [OF f1 assms(1)]
  have g1: "l_get s1 i = (if p = i then (l_get s i)\<lparr>td_fanout_lock := 1\<rparr> else l_get s i)" if "l_live s i" for i
    using l_get_upd [OF assms(1,3) that] by (simp add: s1_def)
  have un: "td_fanout_lock (l_get s i) = 0" if "l_live s i" for i using assms(2) that by (simp add: lr_unlocked_def)
  from assms(6) un [OF assms(3)] obtain h dp where
    pre: "dep_prepend (td_fanout_list_head (l_get s1 p)) c (l_dep_pool s1) = Inr (h, dp)"
    by (auto simp: add_consumer_to_producer_def fanout_lock_def s1_def elim!: bindR_InrE)
  note d = prepend_pool [OF sh1 lr_heads(2) [OF sh1] pre]
  define s2 where "s2 = l_upd p (\<lambda>d. d\<lparr>td_fanout_list_head := h, td_fanout_count := td_fanout_count d + 1\<rparr>)
    (s1\<lparr>l_dep_pool := dp\<rparr>)"
  have lv: "l_live (s1\<lparr>l_dep_pool := dp\<rparr>) i = l_live s i" for i using v1(1) by simp
  have sh2: "lr_shape s2" unfolding s2_def
    using d(2) lr_heads(1) [OF d(1), of p] by (intro l_upd_shape d(1)) auto
  have g2: "l_get s2 i = (if p = i then (l_get s i)\<lparr>td_fanout_lock := 1, td_fanout_list_head := h,
      td_fanout_count := td_fanout_count (l_get s i) + 1\<rparr> else l_get s i)" if "l_live s i" for i
    using l_get_upd [OF d(1), of p i] g1 [OF that] assms(3) that lv by (auto simp: s2_def)
  have lv2: "l_live s2 i = l_live s i" for i using lv by (simp add: s2_def)
  define s3 where "s3 = (if up
    then l_upd c (\<lambda>d. d\<lparr>td_atomic_fanin_refcount := td_atomic_fanin_refcount d + 1\<rparr>) s2 else s2)"
  have sh3: "lr_shape s3" using lr_frame_shape [OF bump_fanin_frame sh2] sh2 by (simp add: s3_def)
  have lv3: "l_live s3 i = l_live s i" for i using lv2 by (simp add: s3_def)
  have g3: "l_get s3 i = (if c = i \<and> up
      then (l_get s2 i)\<lparr>td_atomic_fanin_refcount := td_atomic_fanin_refcount (l_get s2 i) + 1\<rparr> else l_get s2 i)"
    if "l_live s i" for i
    using l_get_upd [OF sh2, of c i] assms(4) that lv2 by (auto simp: s3_def)
  have "td_status (l_get s2 p) = l_status s p" using g2 [OF assms(3)] by (simp add: l_status_def)
  moreover have "add_consumer_to_producer p c s = Inr (l_upd p (\<lambda>d. d\<lparr>td_fanout_lock := 0\<rparr>)
      (if td_status (l_get s2 p) = COMPLETED \<or> td_status (l_get s2 p) = CONSUMED
       then l_upd c (\<lambda>d. d\<lparr>td_atomic_fanin_refcount := td_atomic_fanin_refcount d + 1\<rparr>) s2 else s2))"
    using un [OF assms(3)] pre
    by (simp add: add_consumer_to_producer_def fanout_lock_def fanout_unlock_def Let_def s1_def s2_def)
  ultimately have s': "s' = l_upd p (\<lambda>d. d\<lparr>td_fanout_lock := 0\<rparr>) s3" using assms(6) by (simp add: s3_def up_def)
  have g: "l_get s' i = (if p = i then (l_get s3 i)\<lparr>td_fanout_lock := 0\<rparr> else l_get s3 i)" if "l_live s i" for i
    using l_get_upd [OF sh3, of p i] assms(3) that lv3 by (simp add: s')
  have shape: "lr_shape s'" unfolding s' by (rule lr_frame_shape [OF lock_frame sh3])
  have pool: "l_dep_pool s' = dp" by (simp add: s' s3_def s2_def)
  have eqs: "s'\<lparr>l_task_ring := l_task_ring s, l_dep_pool := l_dep_pool s\<rparr> = s"
    "(l_task_ring s')\<lparr>tr_descriptors := tr_descriptors (l_task_ring s)\<rparr> = l_task_ring s"
    by (simp_all add: s' s3_def s2_def s1_def l_upd_def task_upd_def)
  have heads: "td_dep_list_head (l_get s1 i) = td_dep_list_head (l_get s i)"
    "td_fanout_list_head (l_get s1 i) = td_fanout_list_head (l_get s i)" if "l_live s i" for i using g1 [OF that] by auto
  show thesis
  proof (rule that [of h])
    fix i
    assume i: "l_live s i"
    show "l_get s' i =
      (if p = i then (l_get s i)\<lparr>td_fanout_list_head := h, td_fanout_count := td_fanout_count (l_get s i) + 1\<rparr>
       else if c = i \<and> up then (l_get s i)\<lparr>td_atomic_fanin_refcount := td_atomic_fanin_refcount (l_get s i) + 1\<rparr>
       else l_get s i)"
      using g [OF i] g3 [OF i] g2 [OF i] un [OF i] assms(5) by auto
    show "dep_list (l_dep_pool s') (td_dep_list_head (l_get s i)) = l_deps s i"
      "dep_list (l_dep_pool s') (td_fanout_list_head (l_get s i)) = l_outs s i"
      using d(4,5) [of i] v1(2,3) [of i] heads [OF i] by (simp_all add: l_deps_def l_outs_def pool)
  qed (use d(3) v1(3) [of p] shape eqs in \<open>simp_all add: l_outs_def pool\<close>)
qed

lemma add_consumer_linked:
  assumes "lr_shape s" "lr_unlocked s" "l_live s p" "l_live s c" "p \<noteq> c"
    "add_consumer_to_producer p c s = Inr s'"
  shows "linked [p] c s s'"
proof -
  from add_consumer_get [OF assms] obtain h where
    g: "\<And>i. l_live s i \<Longrightarrow> l_get s' i =
      (if p = i then (l_get s i)\<lparr>td_fanout_list_head := h, td_fanout_count := td_fanout_count (l_get s i) + 1\<rparr>
       else if c = i \<and> (l_status s p = COMPLETED \<or> l_status s p = CONSUMED)
         then (l_get s i)\<lparr>td_atomic_fanin_refcount := td_atomic_fanin_refcount (l_get s i) + 1\<rparr>
       else l_get s i)"
    and lists: "dep_list (l_dep_pool s') h = c # l_outs s p"
    "\<And>i. l_live s i \<Longrightarrow> dep_list (l_dep_pool s') (td_dep_list_head (l_get s i)) = l_deps s i"
    "\<And>i. l_live s i \<Longrightarrow> dep_list (l_dep_pool s') (td_fanout_list_head (l_get s i)) = l_outs s i"
    and rest: "lr_shape s'" "s'\<lparr>l_task_ring := l_task_ring s, l_dep_pool := l_dep_pool s\<rparr> = s"
    "(l_task_ring s')\<lparr>tr_descriptors := tr_descriptors (l_task_ring s)\<rparr> = l_task_ring s" by blast
  have "l_status s' i = l_status s i \<and> td_fanin_count (l_get s' i) = td_fanin_count (l_get s i) \<and>
       td_atomic_fanout_refcount (l_get s' i) = td_atomic_fanout_refcount (l_get s i) \<and>
       td_fanout_lock (l_get s' i) = 0 \<and> l_deps s' i = l_deps s i \<and>
       l_outs s' i = replicate (count_list [p] i) c @ l_outs s i \<and>
       td_fanout_count (l_get s' i) = td_fanout_count (l_get s i) + count_list [p] i \<and>
       td_atomic_fanin_refcount (l_get s' i) = td_atomic_fanin_refcount (l_get s i) +
         (if i = c then length (filter (\<lambda>p. l_status s p = COMPLETED \<or> l_status s p = CONSUMED) [p]) else 0)"
    if i: "l_live s i" for i
  proof -
    have "td_fanout_lock (l_get s i) = 0" using assms(2) i by (simp add: lr_unlocked_def)
    moreover have "l_deps s' i = l_deps s i" using lists(2) [OF i] g [OF i] by (simp add: l_deps_def)
    moreover have "l_outs s' i = replicate (count_list [p] i) c @ l_outs s i"
      using lists(1,3) i g [OF i] by (auto simp: l_outs_def)
    ultimately show ?thesis using g [OF i] assms(5) by (auto simp: l_status_def)
  qed
  with rest show ?thesis by (simp add: linked_def)
qed

lemma linked_Nil: "lr_shape s \<Longrightarrow> lr_unlocked s \<Longrightarrow> linked [] c s s"
  by (simp add: linked_def lr_unlocked_def)

lemma linked_append:
  assumes "linked ps c s s'" "linked qs c s' s''" "\<forall>p \<in> set qs. l_live s p"
  shows "linked (ps @ qs) c s s''"
proof -
  have lv: "l_live s' i = l_live s i" for i by (rule linkedD [OF assms(1)])
  have "filter (\<lambda>p. l_status s' p = COMPLETED \<or> l_status s' p = CONSUMED) qs =
      filter (\<lambda>p. l_status s p = COMPLETED \<or> l_status s p = CONSUMED) qs"
    using linked_get(1) [OF assms(1)] assms(3) by (intro filter_cong) auto
  then have "l_status s'' i = l_status s i \<and> td_fanin_count (l_get s'' i) = td_fanin_count (l_get s i) \<and>
       td_atomic_fanout_refcount (l_get s'' i) = td_atomic_fanout_refcount (l_get s i) \<and>
       td_fanout_lock (l_get s'' i) = 0 \<and> l_deps s'' i = l_deps s i \<and>
       l_outs s'' i = replicate (count_list (ps @ qs) i) c @ l_outs s i \<and>
       td_fanout_count (l_get s'' i) = td_fanout_count (l_get s i) + count_list (ps @ qs) i \<and>
       td_atomic_fanin_refcount (l_get s'' i) = td_atomic_fanin_refcount (l_get s i) +
         (if i = c then length (filter (\<lambda>p. l_status s p = COMPLETED \<or> l_status s p = CONSUMED) (ps @ qs)) else 0)"
    if i: "l_live s i" for i
    using linked_get [OF assms(1) i] linked_get [OF assms(2), of i] i lv
    by (auto simp: replicate_add [symmetric] add.commute)
  moreover have "s''\<lparr>l_task_ring := l_task_ring s, l_dep_pool := l_dep_pool s\<rparr> = s"
  proof -
    have "s''\<lparr>l_task_ring := l_task_ring s', l_dep_pool := l_dep_pool s'\<rparr> = s'"
      "s'\<lparr>l_task_ring := l_task_ring s, l_dep_pool := l_dep_pool s\<rparr> = s"
      using assms(1,2) unfolding linked_def by blast+
    from this(2) arg_cong [OF this(1), of "\<lambda>x. x\<lparr>l_task_ring := l_task_ring s, l_dep_pool := l_dep_pool s\<rparr>"]
    show ?thesis by simp
  qed
  moreover have "(l_task_ring s'')\<lparr>tr_descriptors := tr_descriptors (l_task_ring s)\<rparr> = l_task_ring s"
  proof -
    have "(l_task_ring s'')\<lparr>tr_descriptors := tr_descriptors (l_task_ring s')\<rparr> = l_task_ring s'"
      "(l_task_ring s')\<lparr>tr_descriptors := tr_descriptors (l_task_ring s)\<rparr> = l_task_ring s"
      using assms(1,2) unfolding linked_def by blast+
    from this(2) arg_cong [OF this(1), of "\<lambda>x. x\<lparr>tr_descriptors := tr_descriptors (l_task_ring s)\<rparr>"]
    show ?thesis by simp
  qed
  moreover have "lr_shape s''" using assms(2) by (simp add: linked_def)
  ultimately show ?thesis unfolding linked_def by blast
qed

lemma linked_unlocked: "linked ps c s s' \<Longrightarrow> lr_unlocked s'"
  using linkedD(11) linked_get(4) by (auto simp: lr_unlocked_def)

lemma add_consumers_linked:
  assumes "lr_shape s" "lr_unlocked s" "l_live s c" "\<forall>p \<in> set ps. l_live s p \<and> p \<noteq> c"
    "foldR (\<lambda>p. add_consumer_to_producer p c) ps s = Inr s'"
  shows "linked ps c s s'"
  using assms
proof (induction ps arbitrary: s)
  case Nil
  then show ?case by (simp add: linked_Nil)
next
  case (Cons p ps)
  from Cons.prems(5) obtain s1 where s1: "add_consumer_to_producer p c s = Inr s1"
    "foldR (\<lambda>p. add_consumer_to_producer p c) ps s1 = Inr s'" by (auto elim: bindR_InrE)
  have l: "linked [p] c s s1" using add_consumer_linked [OF Cons.prems(1,2) _ Cons.prems(3) _ s1(1)] Cons.prems(4) by auto
  have "linked ps c s1 s'"
    using Cons.IH [OF linkedD(13) [OF l] linked_unlocked [OF l] _ _ s1(2)] Cons.prems(3,4) linkedD(11) [OF l] by auto
  with linked_append [OF l this] Cons.prems(4) show ?case by simp
qed

section \<open>Publishing a task\<close>

text \<open>\<open>s\<close> is \<open>s0\<close> with the new task \<open>t\<close>, whose producers are \<open>ps\<close> and which waits for \<open>e\<close> external inputs.\<close>

definition prepared :: "i32 \<Rightarrow> i32 list \<Rightarrow> nat \<Rightarrow> lrt \<Rightarrow> lrt \<Rightarrow> bool" where
  "prepared t ps e s0 s \<longleftrightarrow>
     lr_shape s \<and> t = l_cur s0 \<and> l_cur s = t + 1 \<and>
     tr_window_size (l_task_ring s) = tr_window_size (l_task_ring s0) \<and>
     l_rq_buf s = l_rq_buf s0 \<and> l_rq_capacity s = l_rq_capacity s0 \<and> l_rq_head s = l_rq_head s0 \<and>
     l_rq_tail s = l_rq_tail s0 \<and> l_promises s = (l_promises s0)[nat t := Some (nat t)] \<and>
     l_futures s = l_futures s0 @ [False] \<and>
     (\<forall>i. l_live s0 i \<longrightarrow> l_get s i = l_get s0 i \<and> l_deps s i = l_deps s0 i \<and> l_outs s i = l_outs s0 i \<and>
        ext_left s i = ext_left s0 i) \<and>
     (\<forall>p \<in> set ps. l_live s0 p) \<and> l_deps s t = rev ps \<and> l_outs s t = [] \<and> ext_left s t = e \<and>
     l_status s t = PENDING \<and> td_atomic_fanin_refcount (l_get s t) = 0 \<and>
     td_atomic_fanout_refcount (l_get s t) = 0 \<and> td_fanout_count (l_get s t) = 1 \<and>
     td_fanout_lock (l_get s t) = 0"

text \<open>The new task with its fan-in count set and its edges in place, not yet made ready.\<close>

definition pre_ready :: "i32 \<Rightarrow> i32 list \<Rightarrow> nat \<Rightarrow> lrt \<Rightarrow> lrt \<Rightarrow> bool" where
  "pre_ready t ps e s0 s \<longleftrightarrow>
     lr_shape s \<and> lr_unlocked s \<and> t = l_cur s0 \<and> l_cur s = t + 1 \<and>
     tr_window_size (l_task_ring s) = tr_window_size (l_task_ring s0) \<and>
     l_rq_buf s = l_rq_buf s0 \<and> l_rq_capacity s = l_rq_capacity s0 \<and> l_rq_head s = l_rq_head s0 \<and>
     l_rq_tail s = l_rq_tail s0 \<and> l_promises s = (l_promises s0)[nat t := Some (nat t)] \<and>
     l_futures s = l_futures s0 @ [False] \<and> (\<forall>p \<in> set ps. l_live s0 p) \<and>
     (\<forall>i. l_live s0 i \<longrightarrow> l_status s i = l_status s0 i \<and> l_deps s i = l_deps s0 i \<and>
        l_outs s i = replicate (count_list ps i) t @ l_outs s0 i \<and> ext_left s i = ext_left s0 i \<and>
        td_fanin_count (l_get s i) = td_fanin_count (l_get s0 i) \<and>
        td_fanout_count (l_get s i) = td_fanout_count (l_get s0 i) + count_list ps i \<and>
        td_atomic_fanin_refcount (l_get s i) = td_atomic_fanin_refcount (l_get s0 i) \<and>
        td_atomic_fanout_refcount (l_get s i) = td_atomic_fanout_refcount (l_get s0 i)) \<and>
     l_deps s t = rev ps \<and> l_outs s t = [] \<and> ext_left s t = e \<and> l_status s t = PENDING \<and>
     td_fanin_count (l_get s t) = length ps + e \<and> td_fanout_count (l_get s t) = 1 \<and>
     td_atomic_fanin_refcount (l_get s t) = length (filter (\<lambda>p. l_status s0 p = COMPLETED) ps) \<and>
     td_atomic_fanout_refcount (l_get s t) = 0"

lemma pre_readyD:
  assumes "pre_ready t ps e s0 s"
  shows "lr_shape s" "lr_unlocked s" "t = l_cur s0" "l_cur s = t + 1" "l_rq_buf s = l_rq_buf s0"
    "l_rq_capacity s = l_rq_capacity s0" "l_rq_head s = l_rq_head s0" "l_rq_tail s = l_rq_tail s0"
    "l_promises s = (l_promises s0)[nat t := Some (nat t)]" "l_futures s = l_futures s0 @ [False]"
    "\<forall>p \<in> set ps. l_live s0 p" "l_deps s t = rev ps" "l_outs s t = []" "ext_left s t = e"
    "l_status s t = PENDING" "td_fanin_count (l_get s t) = length ps + e" "td_fanout_count (l_get s t) = 1"
    "td_atomic_fanin_refcount (l_get s t) = length (filter (\<lambda>p. l_status s0 p = COMPLETED) ps)"
    "td_atomic_fanout_refcount (l_get s t) = 0"
    "\<And>i. l_live s0 i \<Longrightarrow> l_status s i = l_status s0 i" "\<And>i. l_live s0 i \<Longrightarrow> l_deps s i = l_deps s0 i"
    "\<And>i. l_live s0 i \<Longrightarrow> l_outs s i = replicate (count_list ps i) t @ l_outs s0 i"
    "\<And>i. l_live s0 i \<Longrightarrow> ext_left s i = ext_left s0 i"
    "\<And>i. l_live s0 i \<Longrightarrow> td_fanin_count (l_get s i) = td_fanin_count (l_get s0 i)"
    "\<And>i. l_live s0 i \<Longrightarrow> td_fanout_count (l_get s i) = td_fanout_count (l_get s0 i) + count_list ps i"
    "\<And>i. l_live s0 i \<Longrightarrow> td_atomic_fanin_refcount (l_get s i) = td_atomic_fanin_refcount (l_get s0 i)"
    "\<And>i. l_live s0 i \<Longrightarrow> td_atomic_fanout_refcount (l_get s i) = td_atomic_fanout_refcount (l_get s0 i)"
    "tr_window_size (l_task_ring s) = tr_window_size (l_task_ring s0)"
  using assms unfolding pre_ready_def by blast+

lemma live_Suc: "t = l_cur s0 \<Longrightarrow> 0 \<le> t \<Longrightarrow> l_cur s = t + 1 \<Longrightarrow> l_live s i \<longleftrightarrow> l_live s0 i \<or> i = t"
  by (auto simp: l_live_def)

lemma count_list_notin [simp]: "x \<notin> set xs \<Longrightarrow> count_list xs x = 0"
  by (simp add: count_list_0_iff)

lemma count_list_replicate [simp]: "count_list (replicate n x) y = (if x = y then n else 0)"
  by (induction n) auto

lemma pre_ready_edge_counts:
  assumes "lr_mid s0 got rel" "pre_ready t ps e s0 s" "l_live s i" "l_live s c"
  shows "count_list (l_outs s i) c = count_list (l_deps s c) i"
proof -
  note inv = lr_midD [OF assms(1)]
  note pr = pre_readyD [OF assms(2)]
  have t0: "0 \<le> t" "t = l_cur s0" "l_cur s = t + 1" using pr(3,4) lr_shapeD(4) [OF inv(1)] by simp_all
  note lv = live_Suc [OF t0(2,1,3)]
  have ps: "p \<in> set ps \<Longrightarrow> 0 \<le> p \<and> p < t" for p using pr(11) t0(2) by (auto simp: l_live_def)
  have old: "l_deps s i = l_deps s0 i" "l_outs s i = replicate (count_list ps i) t @ l_outs s0 i"
    "ext_left s i = ext_left s0 i" "td_fanin_count (l_get s i) = td_fanin_count (l_get s0 i)"
    "td_fanout_count (l_get s i) = td_fanout_count (l_get s0 i) + count_list ps i" if "l_live s0 i" for i
    using pr(21-25) that by blast+
  have new: "l_deps s t = rev ps" "l_outs s t = []" "ext_left s t = e" "td_fanin_count (l_get s t) = length ps + e"
    "td_fanout_count (l_get s t) = 1" by (fact pr)+
  have e0: "\<forall>p \<in> set (l_deps s0 i). 0 \<le> p \<and> p < i" "\<forall>c \<in> set (l_outs s0 i). i < c \<and> c < t"
    "td_fanout_count (l_get s0 i) = length (l_outs s0 i) + 1"
    "length (l_deps s0 i) + ext_left s0 i \<le> td_fanin_count (l_get s0 i)"
    "\<forall>c. l_live s0 c \<longrightarrow> count_list (l_outs s0 i) c = count_list (l_deps s0 c) i" if "l_live s0 i" for i
    using inv(2) that t0(2) unfolding lr_edges_def by blast+
  have lt: "l_live s0 i \<Longrightarrow> i < t" for i using t0 by (simp add: l_live_def)
  have tnot: "t \<notin> set ps" using ps by auto
  have deps_t: "t \<notin> set (l_deps s0 i)" if "l_live s0 i" for i using e0(1) [OF that] lt [OF that] by fastforce
  have outs_t: "t \<notin> set (l_outs s0 i)" if "l_live s0 i" for i using e0(2) [OF that] by fastforce
  show ?thesis
  proof (cases "i = t")
    case True
    have "t \<notin> set (l_deps s c)" using assms(4) lv [of c] deps_t [of c] old(1) [of c] new(1) tnot by auto
    with True new(2) show ?thesis by simp
  next
    case False
    then have i: "l_live s0 i" using assms(3) lv by simp
    show ?thesis
    proof (cases "c = t")
      case True
      with old(2) [OF i] outs_t [OF i] new(1) show ?thesis by simp
    next
      case False
      then have "l_live s0 c" using assms(4) lv by simp
      with old(1) [OF this] old(2) [OF i] e0(5) [OF i] False show ?thesis by simp
    qed
  qed
qed

lemma pre_ready_edges:
  assumes "lr_mid s0 got rel" "pre_ready t ps e s0 s"
  shows "lr_edges s"
proof -
  note inv = lr_midD [OF assms(1)]
  note pr = pre_readyD [OF assms(2)]
  have t0: "0 \<le> t" "t = l_cur s0" "l_cur s = t + 1" using pr(3,4) lr_shapeD(4) [OF inv(1)] by simp_all
  note lv = live_Suc [OF t0(2,1,3)]
  have ps: "p \<in> set ps \<Longrightarrow> 0 \<le> p \<and> p < t" for p using pr(11) t0(2) by (auto simp: l_live_def)
  have old: "l_deps s i = l_deps s0 i" "l_outs s i = replicate (count_list ps i) t @ l_outs s0 i"
    "ext_left s i = ext_left s0 i" "td_fanin_count (l_get s i) = td_fanin_count (l_get s0 i)"
    "td_fanout_count (l_get s i) = td_fanout_count (l_get s0 i) + count_list ps i" if "l_live s0 i" for i
    using pr(21-25) that by blast+
  have new: "l_deps s t = rev ps" "l_outs s t = []" "ext_left s t = e" "td_fanin_count (l_get s t) = length ps + e"
    "td_fanout_count (l_get s t) = 1" by (fact pr)+
  have e0: "\<forall>p \<in> set (l_deps s0 i). 0 \<le> p \<and> p < i" "\<forall>c \<in> set (l_outs s0 i). i < c \<and> c < t"
    "td_fanout_count (l_get s0 i) = length (l_outs s0 i) + 1"
    "length (l_deps s0 i) + ext_left s0 i \<le> td_fanin_count (l_get s0 i)"
    "\<forall>c. l_live s0 c \<longrightarrow> count_list (l_outs s0 i) c = count_list (l_deps s0 c) i" if "l_live s0 i" for i
    using inv(2) that t0(2) unfolding lr_edges_def by blast+
  have lt: "l_live s0 i \<Longrightarrow> i < t" for i using t0 by (simp add: l_live_def)
  show ?thesis
    unfolding lr_edges_def
  proof (intro allI impI conjI)
    fix i
    assume i: "l_live s i"
    show "\<forall>p \<in> set (l_deps s i). 0 \<le> p \<and> p < i"
      using i lv [of i] old(1) [of i] e0(1) [of i] new(1) ps by auto
    have "\<forall>c \<in> set (l_outs s0 i). i < c \<and> c < t + 1" if "l_live s0 i" using e0(2) [OF that] by force
    then show "\<forall>c \<in> set (l_outs s i). i < c \<and> c < l_cur s"
      using i lv [of i] old(2) [of i] new(2) lt [of i] unfolding t0(3) by auto
    show "td_fanout_count (l_get s i) = length (l_outs s i) + 1"
      using i lv [of i] old(2,5) [of i] e0(3) [of i] new(2,5) by auto
    show "length (l_deps s i) + ext_left s i \<le> td_fanin_count (l_get s i)"
      using i lv [of i] old(1,3,4) [of i] e0(4) [of i] new(1,3,4) by auto
    fix c
    assume "l_live s c"
    with pre_ready_edge_counts [OF assms i] show "count_list (l_outs s i) c = count_list (l_deps s c) i" by blast
  qed
qed

lemma pre_ready_rest:
  assumes "lr_mid s0 got rel" "pre_ready t ps e s0 s"
  shows "lr_queue s" "lr_promised s"
    "\<And>i. l_live s i \<Longrightarrow>
       td_atomic_fanin_refcount (l_get s i) = (got(t := length (filter (\<lambda>p. l_status s0 p = COMPLETED) ps))) i \<and>
       td_atomic_fanout_refcount (l_get s i) = (rel(t := 0)) i \<and> l_status s i \<noteq> CONSUMED \<and>
       (rel(t := 0)) i < td_fanout_count (l_get s i)"
    "\<And>i. l_live s0 i \<Longrightarrow> got i \<le> td_fanin_count (l_get s i) \<and>
       (l_status s i = PENDING \<longleftrightarrow> got i < td_fanin_count (l_get s i))"
proof -
  note inv = lr_midD [OF assms(1)]
  note pr = pre_readyD [OF assms(2)]
  note sh = pr(1) and st = pr(20) and stt = pr(15) and pf = pr(9,10) and ps = pr(11) and rq = pr(5-8)
  have t0: "0 \<le> t" "t = l_cur s0" "l_cur s = t + 1" using pr(3,4) lr_shapeD(4) [OF inv(1)] by simp_all
  note lv = live_Suc [OF t0(2,1,3)]
  have q0: "rq_ok (l_rq_buf s0) (l_rq_capacity s0) (l_rq_head s0) (l_rq_tail s0) t (l_status s0)"
    using inv(4) t0(2) by (simp add: lr_queue_def)
  have "t < l_rq_capacity s0"
    using sh t0 rq(2) lr_shapeD(5) [OF sh] by (auto simp: lr_shape_def)
  moreover have "rq_ok (l_rq_buf s0) (l_rq_capacity s0) (l_rq_head s0) (l_rq_tail s0) t (l_status s)"
    using rq_ok_cong [OF q0, of "l_status s"] st t0(2) by (simp add: l_live_def)
  ultimately show "lr_queue s" unfolding lr_queue_def rq t0(3) using rq_grow stt by blast
  have len: "nat t < length (l_promises s0)" "length (l_futures s0) = nat t"
    using lr_shapeD(5,9) [OF sh] lr_shapeD(11) [OF inv(1)] t0 pf(1) by auto
  show "lr_promised s"
    unfolding lr_promised_def
  proof (intro allI impI)
    fix i
    assume i: "l_live s i"
    show "l_promises s ! nat i = (if l_status s i = COMPLETED then None else Some (nat i)) \<and>
      l_futures s ! nat i = (l_status s i = COMPLETED)"
    proof (cases "i = t")
      case True
      with len stt show ?thesis by (simp add: pf nth_append)
    next
      case False
      then have i0: "l_live s0 i" using i lv by simp
      then have "nat i < nat t" using t0 by (simp add: l_live_def)
      then have "l_promises s ! nat i = l_promises s0 ! nat i" "l_futures s ! nat i = l_futures s0 ! nat i"
        using len unfolding pf by (simp_all only: nth_list_update_neq nth_append less_irrefl if_True)
      with inv(5) i0 st [OF i0] show ?thesis by (simp add: lr_promised_def)
    qed
  qed
  have c0: "td_atomic_fanin_refcount (l_get s0 i) = got i" "td_atomic_fanout_refcount (l_get s0 i) = rel i"
    "got i \<le> td_fanin_count (l_get s0 i)" "rel i < td_fanout_count (l_get s0 i)"
    "l_status s0 i = PENDING \<longleftrightarrow> got i < td_fanin_count (l_get s0 i)" "l_status s0 i \<noteq> CONSUMED"
    if "l_live s0 i" for i using inv(6) that unfolding credits_def by blast+
  show "td_atomic_fanin_refcount (l_get s i) = (got(t := length (filter (\<lambda>p. l_status s0 p = COMPLETED) ps))) i \<and>
       td_atomic_fanout_refcount (l_get s i) = (rel(t := 0)) i \<and> l_status s i \<noteq> CONSUMED \<and>
       (rel(t := 0)) i < td_fanout_count (l_get s i)" if i: "l_live s i" for i
  proof (cases "i = t")
    case True
    with stt pr(17-19) show ?thesis by simp
  next
    case False
    then have "l_live s0 i" using i lv by simp
    with c0(1,2,4,6) [OF this] st pr(25-27) [OF this] False show ?thesis by simp
  qed
  show "got i \<le> td_fanin_count (l_get s i) \<and> (l_status s i = PENDING \<longleftrightarrow> got i < td_fanin_count (l_get s i))"
    if "l_live s0 i" for i
    using that c0(3,5) pr(24) st by simp
qed

text \<open>The last part of \<^verbatim>\<open>submit_worker\<close>: ready now, or later through a completion or the scheduler.\<close>

text \<open>A task whose credits are all there when it is published goes to the ready queue.\<close>

lemma pre_ready_promoted:
  assumes "lr_mid s0 got rel" "pre_ready t ps e s0 s" "0 \<le> t"
    and True: "length ps + e \<le> length (filter (\<lambda>p. l_status s0 p = COMPLETED) ps)"
    and s1: "lr_queue s1" "promotes s s1"
      "\<forall>i. l_live s i \<longrightarrow> l_get s1 i = (if i = t then (l_get s t)\<lparr>td_status := READY\<rparr> else l_get s i)"
  shows "lr_mid s1 (got(t := length (filter (\<lambda>p. l_status s0 p = COMPLETED) ps))) (rel(t := 0))" "l_status s1 t = READY"
    "\<And>i. l_live s0 i \<Longrightarrow> l_status s1 i = l_status s0 i"
proof -
  note pr = pre_readyD [OF assms(2)]
  note sh = pr(1) and un = pr(2) and t0 = pr(3,4) and stt = pr(15) and fan = pr(16) and st = pr(20)
  let ?k = "length (filter (\<lambda>p. l_status s0 p = COMPLETED) ps)"
  let ?got = "got(t := ?k)" and ?rel = "rel(t := 0)"
  note lv = live_Suc [OF t0(1) assms(3) t0(2)]
  note ed = pre_ready_edges [OF assms(1,2)] and rest = pre_ready_rest [OF assms(1,2)]
  have lt: "l_live s t" using lv by simp
  have kb: "?k \<le> length ps + e" using length_filter_le [of _ ps] by (rule trans_le_add1)
  have tnot: "\<not> l_live s0 t" using t0(1) by (simp add: l_live_def)
  have bound: "?got i \<le> td_fanin_count (l_get s i)" if "l_live s i" for i
    using that lv [of i] rest(4) [of i] kb fan by auto
  have f: "lr_frame s s1" using s1(2) by (simp add: promotes_def)
  note v = lr_frame_views [OF f sh]
  have stat: "l_status s1 i = (if i = t then READY else l_status s i)" if "l_live s i" for i
    using s1(3) that by (simp add: l_status_def)
  have comp: "l_status s1 i = COMPLETED \<longleftrightarrow> l_status s i = COMPLETED" if "l_live s i" for i
    using stat [OF that] stt by auto
  have "credits s1 ?got ?rel"
    unfolding credits_def v(1)
  proof (intro allI impI)
    fix i
    assume i: "l_live s i"
    have "td_atomic_fanin_refcount (l_get s1 i) = ?got i" "td_atomic_fanout_refcount (l_get s1 i) = ?rel i"
      using s1(3) i rest(3) [OF i] by auto
    moreover have "l_status s1 i = PENDING \<longleftrightarrow> ?got i < td_fanin_count (l_get s i)"
      using stat [OF i] True fan rest(4) [of i] lv [of i] i tnot by auto
    ultimately show "td_atomic_fanin_refcount (l_get s1 i) = ?got i \<and> td_atomic_fanout_refcount (l_get s1 i) = ?rel i \<and>
      ?got i \<le> td_fanin_count (l_get s1 i) \<and> ?rel i < td_fanout_count (l_get s1 i) \<and>
      (l_status s1 i = PENDING \<longleftrightarrow> ?got i < td_fanin_count (l_get s1 i)) \<and> l_status s1 i \<noteq> CONSUMED"
      using v(5,6) [of i] bound [OF i] stat [OF i] rest(3) [OF i] by auto
  qed
  moreover have "lr_promised s1"
    using rest(2) comp v(1) lr_frameD(6,7) [OF f] by (simp add: lr_promised_def)
  moreover have "lr_edges s1" by (rule lr_edges_frame [OF f sh ed])
  ultimately show "lr_mid s1 ?got ?rel"
    unfolding lr_mid_def using s1(1) promotes_unlocked [OF s1(2) sh un] lr_frame_shape [OF f sh] by blast
  show "l_status s1 i = l_status s0 i" if "l_live s0 i" for i
    using stat [of i] that lv [of i] st [OF that] tnot by auto
  show "l_status s1 t = READY" using stat [OF lt] by simp
qed

lemma pre_ready_mid:
  assumes "lr_mid s0 got rel" "pre_ready t ps e s0 s" "0 \<le> t"
    "(if length ps + e \<le> td_atomic_fanin_refcount (l_get s t)
      then bindR (ready_once t s) (\<lambda>(won, s). Inr s) else Inr s) = Inr s'"
  shows "lr_mid s' (got(t := length (filter (\<lambda>p. l_status s0 p = COMPLETED) ps))) (rel(t := 0)) \<and> lr_frame s s' \<and>
    (\<forall>i. l_live s0 i \<longrightarrow> l_status s' i = l_status s0 i) \<and> (l_status s' t = PENDING \<or> l_status s' t = READY)"
proof -
  note pr = pre_readyD [OF assms(2)]
  note sh = pr(1) and un = pr(2) and t0 = pr(3,4) and stt = pr(15) and fan = pr(16) and st = pr(20)
  let ?k = "length (filter (\<lambda>p. l_status s0 p = COMPLETED) ps)"
  let ?got = "got(t := ?k)" and ?rel = "rel(t := 0)"
  note lv = live_Suc [OF t0(1) assms(3) t0(2)]
  note ed = pre_ready_edges [OF assms(1,2)] and rest = pre_ready_rest [OF assms(1,2)]
  have lt: "l_live s t" using lv by simp
  have gt: "td_atomic_fanin_refcount (l_get s t) = ?k" using rest(3) [OF lt] by simp
  have kb: "?k \<le> length ps + e" using length_filter_le [of _ ps] by (rule trans_le_add1)
  have tnot: "\<not> l_live s0 t" using t0(1) by (simp add: l_live_def)
  have bound: "?got i \<le> td_fanin_count (l_get s i)" if "l_live s i" for i
    using that lv [of i] rest(4) [of i] kb fan by auto
  show ?thesis
  proof (cases "length ps + e \<le> ?k")
    case False
    then have s': "s' = s" using assms(4) gt by simp
    have "l_status s i = PENDING \<longleftrightarrow> ?got i < td_fanin_count (l_get s i)" if "l_live s i" for i
      using that lv [of i] rest(4) [of i] False fan stt tnot by auto
    then have "credits s ?got ?rel" unfolding credits_def using rest(3) bound by blast
    then show ?thesis using sh ed un rest(1,2) st stt s' by (auto simp: lr_mid_def)
  next
    case True
    from ready_once_ok [OF sh rest(1) lt stt] obtain s1 where
      s1: "ready_once t s = Inr (True, s1)" "lr_queue s1" "promotes s s1"
        "\<forall>i. l_live s i \<longrightarrow> l_get s1 i = (if i = t then (l_get s t)\<lparr>td_status := READY\<rparr> else l_get s i)" by blast
    have e: "s' = s1" using True assms(4) gt s1(1) by simp
    note pm = pre_ready_promoted [OF assms(1-3) True s1(2-4)]
    have "lr_frame s s1" using s1(3) by (simp add: promotes_def)
    with e pm show ?thesis by simp
  qed
qed

text \<open>When no credit is outstanding before, none is after.\<close>

lemma pre_ready_counts:
  assumes "lr_inv s0" "pre_ready t ps e s0 s" "0 \<le> t" "lr_frame s s'" "l_live s i"
    "\<And>j. l_live s0 j \<Longrightarrow> l_status s' j = l_status s0 j" "l_status s' t \<noteq> COMPLETED"
  shows "got_of s' i = ((got_of s0)(t := length (filter (\<lambda>p. l_status s0 p = COMPLETED) ps))) i"
    "rel_of s' i = ((rel_of s0)(t := 0)) i"
proof -
  note inv = lr_invD [OF assms(1)] and pr = pre_readyD [OF assms(2)]
  note v = lr_frame_views [OF assms(4) pr(1)]
  have main: "got_of s' i = ((got_of s0)(t := length (filter (\<lambda>p. l_status s0 p = COMPLETED) ps))) i \<and>
    rel_of s' i = ((rel_of s0)(t := 0)) i"
  proof (cases "i = t")
    case True
    have "filter (\<lambda>p. l_status s' p = COMPLETED) (rev ps) = filter (\<lambda>p. l_status s0 p = COMPLETED) (rev ps)"
      using pr(11) assms(6) by (intro filter_cong) auto
    then show ?thesis
      using pr(12-14,16) v True by (simp add: got_of_def rel_of_def rev_filter [symmetric])
  next
    case False
    then have i: "l_live s0 i" using assms(5) live_Suc [OF pr(3) assms(3) pr(4)] by simp
    have "filter (\<lambda>p. l_status s' p = COMPLETED) (l_deps s0 i) = filter (\<lambda>p. l_status s0 p = COMPLETED) (l_deps s0 i)"
      "filter (\<lambda>p. l_status s' p = COMPLETED) (l_outs s0 i) = filter (\<lambda>p. l_status s0 p = COMPLETED) (l_outs s0 i)"
      using lr_edges_live [OF inv(2) i] assms(6) by (auto intro!: filter_cong)
    then show ?thesis
      using pr(21-24) [OF i] v assms(7) False by (simp add: got_of_def rel_of_def)
  qed
  from main show "got_of s' i = ((got_of s0)(t := length (filter (\<lambda>p. l_status s0 p = COMPLETED) ps))) i"
    "rel_of s' i = ((rel_of s0)(t := 0)) i" by blast+
qed

lemma preparedD:
  assumes "prepared t ps e s0 s"
  shows "lr_shape s" "t = l_cur s0" "l_cur s = t + 1" "\<forall>p \<in> set ps. l_live s0 p" "l_status s t = PENDING"
    "tr_window_size (l_task_ring s) = tr_window_size (l_task_ring s0)" "l_rq_buf s = l_rq_buf s0"
    "l_rq_capacity s = l_rq_capacity s0" "l_rq_head s = l_rq_head s0" "l_rq_tail s = l_rq_tail s0"
    "l_promises s = (l_promises s0)[nat t := Some (nat t)]" "l_futures s = l_futures s0 @ [False]"
    "l_deps s t = rev ps" "l_outs s t = []" "ext_left s t = e" "td_atomic_fanin_refcount (l_get s t) = 0"
    "td_atomic_fanout_refcount (l_get s t) = 0" "td_fanout_count (l_get s t) = 1" "td_fanout_lock (l_get s t) = 0"
    "\<And>i. l_live s0 i \<Longrightarrow> l_get s i = l_get s0 i \<and> l_deps s i = l_deps s0 i \<and> l_outs s i = l_outs s0 i \<and>
        ext_left s i = ext_left s0 i"
  using assms unfolding prepared_def by blast+

lemma l_upd_id: "lr_shape s \<Longrightarrow> f (l_get s t) = l_get s t \<Longrightarrow> l_upd t f s = s"
  by (simp add: l_upd_def l_get_def task_upd_def) (simp add: task_get_def)

text \<open>Setting the fan-in count and adding the consumer edges.\<close>

lemma linked_pre_ready:
  assumes "lr_mid s0 got rel" "prepared t ps e s0 s" and a_def: "a = l_upd t (\<lambda>d. d\<lparr>td_fanin_count := length ps + e\<rparr>) s"
    and lk: "linked ps t a b"
  shows "pre_ready t ps e s0 b"
proof -
  note inv = lr_midD [OF assms(1)]
  note p = preparedD [OF assms(2)]
  have t: "0 \<le> t" using lr_shapeD(4) [OF inv(1)] p(2) by simp
  note lv = live_Suc [OF p(2) t p(3)]
  have lt: "l_live s t" using lv by simp
  have sha: "lr_shape a" unfolding a_def using lr_heads [OF p(1)] by (intro l_upd_shape p(1)) simp_all
  have ga: "l_get a i = (if t = i then (l_get s i)\<lparr>td_fanin_count := length ps + e\<rparr> else l_get s i)"
    if "l_live s i" for i using l_get_upd [OF p(1) lt that] by (simp add: a_def)
  have la: "l_live a i = l_live s i" for i by (simp add: a_def)
  note d = linkedD [OF assms(4)]
  have old: "l_get a i = l_get s0 i \<and> l_deps a i = l_deps s0 i \<and> l_outs a i = l_outs s0 i \<and>
      ext_left a i = ext_left s0 i \<and> l_live a i" if i: "l_live s0 i" for i
  proof -
    have "l_get a i = l_get s i" using ga [of i] i lv p(2) by (auto simp: l_live_def)
    then have "l_deps a i = l_deps s i" "l_outs a i = l_outs s i" "ext_left a i = ext_left s i"
      by (simp_all add: l_deps_def l_outs_def) (simp_all add: a_def)
    moreover note \<open>l_get a i = l_get s i\<close>
    moreover have "l_get s i = l_get s0 i \<and> l_deps s i = l_deps s0 i \<and> l_outs s i = l_outs s0 i \<and>
      ext_left s i = ext_left s0 i" by (rule p(20) [OF i])
    ultimately show ?thesis using i lv la by simp
  qed
  have new: "l_deps a t = rev ps" "l_outs a t = []" "ext_left a t = e" "l_status a t = PENDING"
    "td_fanin_count (l_get a t) = length ps + e" "td_fanout_count (l_get a t) = 1"
    "td_atomic_fanin_refcount (l_get a t) = 0" "td_atomic_fanout_refcount (l_get a t) = 0"
    using p(5,13-18) ga [OF lt] by (simp_all add: l_deps_def l_outs_def l_status_def) (simp_all add: a_def)
  have ta: "l_live a t" using lt la by simp
  have nt: "count_list ps t = 0" using p(2,4) by (auto simp: count_list_0_iff l_live_def)
  have "filter (\<lambda>p. l_status a p = COMPLETED \<or> l_status a p = CONSUMED) ps =
      filter (\<lambda>p. l_status s0 p = COMPLETED) ps"
    using p(4) old inv(6) by (intro filter_cong) (auto simp: credits_def l_status_def)
  then have "td_atomic_fanin_refcount (l_get b t) = length (filter (\<lambda>p. l_status s0 p = COMPLETED) ps)"
    using linked_get(8) [OF assms(4) ta] new(7) by simp
  moreover have "l_status b i = l_status s0 i \<and> l_deps b i = l_deps s0 i \<and>
      l_outs b i = replicate (count_list ps i) t @ l_outs s0 i \<and> ext_left b i = ext_left s0 i \<and>
      td_fanin_count (l_get b i) = td_fanin_count (l_get s0 i) \<and>
      td_fanout_count (l_get b i) = td_fanout_count (l_get s0 i) + count_list ps i \<and>
      td_atomic_fanin_refcount (l_get b i) = td_atomic_fanin_refcount (l_get s0 i) \<and>
      td_atomic_fanout_refcount (l_get b i) = td_atomic_fanout_refcount (l_get s0 i)" if i: "l_live s0 i" for i
    using old [OF i] linked_get [OF assms(4), of i] d(12) [of i] i p(2) by (auto simp: l_status_def l_live_def)
  moreover have "l_cur b = t + 1" "tr_window_size (l_task_ring b) = tr_window_size (l_task_ring s0)"
    "l_rq_buf b = l_rq_buf s0" "l_rq_capacity b = l_rq_capacity s0" "l_rq_head b = l_rq_head s0"
    "l_rq_tail b = l_rq_tail s0" "l_promises b = (l_promises s0)[nat t := Some (nat t)]"
    "l_futures b = l_futures s0 @ [False]"
    using d p(3,6-12) by (simp_all add: a_def) (simp add: l_upd_def)
  ultimately show ?thesis
    unfolding pre_ready_def
    using linked_get [OF assms(4) ta] new nt d(12) [of t] d(13) linked_unlocked [OF assms(4)] p(2,4) by simp
qed

lemma publish_mid:
  assumes "lr_mid s0 got rel" "prepared t ps e s0 s" "publish_task t (length ps + e) ps s = Inr s'"
  shows "\<exists>b. pre_ready t ps e s0 b \<and> lr_frame b s' \<and> l_tensor_map b = l_tensor_map s \<and>
    lr_mid s' (got(t := length (filter (\<lambda>p. l_status s0 p = COMPLETED) ps))) (rel(t := 0)) \<and>
    (\<forall>i. l_live s0 i \<longrightarrow> l_status s' i = l_status s0 i) \<and> (l_status s' t = PENDING \<or> l_status s' t = READY)"
proof -
  note inv = lr_midD [OF assms(1)]
  note p = preparedD [OF assms(2)]
  have t: "0 \<le> t" using lr_shapeD(4) [OF inv(1)] p(2) by simp
  note lv = live_Suc [OF p(2) t p(3)]
  have lt: "l_live s t" using lv by simp
  define a where "a = l_upd t (\<lambda>d. d\<lparr>td_fanin_count := length ps + e\<rparr>) s"
  have sha: "lr_shape a" unfolding a_def using lr_heads [OF p(1)] by (intro l_upd_shape p(1)) simp_all
  have ga: "l_get a i = (if t = i then (l_get s i)\<lparr>td_fanin_count := length ps + e\<rparr> else l_get s i)"
    if "l_live s i" for i using l_get_upd [OF p(1) lt that] by (simp add: a_def)
  have la: "l_live a i = l_live s i" for i by (simp add: a_def)
  have una: "lr_unlocked a"
    using inv(3) ga lv p(19,20) la unfolding lr_unlocked_def by auto
  have "td_status (l_get a t) = PENDING" using ga [OF lt] p(5) by (simp add: l_status_def)
  then have idp: "l_set_status PENDING t a = a" unfolding l_set_status_def by (intro l_upd_id sha) simp
  obtain b where b: "linked ps t a b"
    "(if length ps + e \<le> td_atomic_fanin_refcount (l_get b t)
      then bindR (ready_once t b) (\<lambda>(won, s). Inr s) else Inr b) = Inr s'"
  proof (cases "length ps + e = 0")
    case True
    then have "linked ps t a a" using linked_Nil [OF sha una] by simp
    moreover have "bindR (ready_once t a) (\<lambda>(won, s). Inr s) = Inr s'"
    proof -
      have "enqueue_ready t (l_set_status READY t a) = Inr s'"
        using assms(3) True unfolding publish_task_def Let_def a_def by simp
      with ga [OF lt] p(5) show ?thesis by (simp add: ready_once_def try_set_ready_def l_status_def)
    qed
    ultimately show ?thesis using that [of a] True by simp
  next
    case False
    then obtain b where b: "foldR (\<lambda>p. add_consumer_to_producer p t) ps a = Inr b"
      "(if length ps + e \<le> td_atomic_fanin_refcount (l_get b t)
        then bindR (ready_once t b) (\<lambda>(won, s). Inr s) else Inr b) = Inr s'"
      using assms(3) by (auto simp: publish_task_def a_def [symmetric] Let_def idp bindR_Inr_iff)
    have "\<forall>q \<in> set ps. l_live a q \<and> q \<noteq> t" using p(2,4) la lv by (auto simp: l_live_def)
    from add_consumers_linked [OF sha una _ this b(1)] b(2) lt la show ?thesis by (intro that [of b]) auto
  qed
  have "pre_ready t ps e s0 b" by (rule linked_pre_ready [OF assms(1,2) a_def b(1)])
  moreover from pre_ready_mid [OF assms(1) this t b(2)] have "lr_frame b s'"
    "lr_mid s' (got(t := length (filter (\<lambda>p. l_status s0 p = COMPLETED) ps))) (rel(t := 0))"
    "\<forall>i. l_live s0 i \<longrightarrow> l_status s' i = l_status s0 i" "l_status s' t = PENDING \<or> l_status s' t = READY" by blast+
  moreover have "l_tensor_map b = l_tensor_map s" using linkedD(1) [OF b(1)] by (simp add: a_def)
  ultimately show ?thesis by blast
qed

lemma publish_inv:
  assumes "lr_inv s0" "prepared t ps e s0 s" "publish_task t (length ps + e) ps s = Inr s'"
  shows "lr_inv s'" "l_cur s' = l_cur s0 + 1" "l_deps s' t = rev ps"
    "td_fanin_count (l_get s' t) = length ps + e"
    "tr_window_size (l_task_ring s') = tr_window_size (l_task_ring s0)"
    "\<And>i. l_live s0 i \<Longrightarrow> l_status s' i = l_status s0 i"
    "l_status s' t = PENDING \<or> l_status s' t = READY" "l_tensor_map s' = l_tensor_map s" "ext_left s' t = e"
proof -
  have "lr_mid s0 (got_of s0) (rel_of s0)" using assms(1) by (simp add: lr_mid_inv)
  from publish_mid [OF this assms(2,3)] obtain b where b: "pre_ready t ps e s0 b" "lr_frame b s'"
    "l_tensor_map b = l_tensor_map s"
    and m: "lr_mid s' ((got_of s0)(t := length (filter (\<lambda>p. l_status s0 p = COMPLETED) ps))) ((rel_of s0)(t := 0))"
    and st: "\<And>i. l_live s0 i \<Longrightarrow> l_status s' i = l_status s0 i" and stt: "l_status s' t = PENDING \<or> l_status s' t = READY"
    by blast
  note pr = pre_readyD [OF b(1)]
  have t: "0 \<le> t" using preparedD(2) [OF assms(2)] lr_shapeD(4) [OF lr_invD(1) [OF assms(1)]] by simp
  have "credits s' (got_of s') (rel_of s')"
  proof (rule credits_cong [OF lr_midD(6) [OF m]])
    fix i
    assume "l_live s' i"
    then have "l_live b i" using lr_frame_views(1) [OF b(2) pr(1)] by simp
    from pre_ready_counts [OF assms(1) b(1) t b(2) this st] stt
    show "got_of s' i = ((got_of s0)(t := length (filter (\<lambda>p. l_status s0 p = COMPLETED) ps))) i \<and>
      rel_of s' i = ((rel_of s0)(t := 0)) i" by auto
  qed
  then show "lr_inv s'" using m unfolding lr_inv_def lr_mid_def by blast
  show "l_cur s' = l_cur s0 + 1" "tr_window_size (l_task_ring s') = tr_window_size (l_task_ring s0)"
    using lr_frameD(10,12) [OF b(2)] pr(3,4,28) by simp_all
  show "l_deps s' t = rev ps" "td_fanin_count (l_get s' t) = length ps + e" "ext_left s' t = e"
    using lr_frame_views(2,4,5) [OF b(2) pr(1)] pr(12,14,16) by simp_all
  show "l_tensor_map s' = l_tensor_map s" using lr_frameD(2) [OF b(2)] b(3) by simp
qed (use publish_mid [OF _ assms(2,3), of "got_of s0" "rel_of s0"] assms(1) lr_mid_inv in blast)+

section \<open>Preparing a task\<close>

lemma slot_heads:
  assumes "lr_shape s" "task_alloc (l_task_ring s) = Inr (t, tr)" "d \<in> set (tr_descriptors (task_upd t f tr))"
    and "td_dep_list_head (task_get (task_upd t f tr) t) = - 1" "td_fanout_list_head (task_get (task_upd t f tr) t) = - 1"
  shows "dep_head_ok (l_dep_pool s) (td_dep_list_head d) \<and> dep_head_ok (l_dep_pool s) (td_fanout_list_head d)"
proof -
  note al = task_alloc_wf [OF lr_shapeD(1) [OF assms(1)] assms(2)] and ad = task_alloc_InrD [OF assms(2)]
  have nil: "dep_head_ok (l_dep_pool s) (- 1)" using dep.nil_chain [OF lr_shapeD(3) [OF assms(1)]] by simp
  have "set (tr_descriptors (task_upd t f tr)) \<subseteq> insert (task_get (task_upd t f tr) t) (set (tr_descriptors tr))"
    using task_upd_set [of t f tr] al(1) by fastforce
  moreover have "set (tr_descriptors tr) \<subseteq> insert fresh_descriptor (set (tr_descriptors (l_task_ring s)))"
    unfolding ad(2) using task_upd_set [of t reset_descriptor "(l_task_ring s)\<lparr>tr_current_index := t + 1\<rparr>"]
    by (simp add: reset_descriptor_fresh)
  ultimately consider "d = task_get (task_upd t f tr) t" | "d = fresh_descriptor" | "d \<in> set (tr_descriptors (l_task_ring s))"
    using assms(3) by blast
  then show ?thesis by cases (use nil assms(1,4,5) in \<open>auto simp: lr_shape_def fresh_descriptor_def\<close>)
qed

lemma open_slot_prepared:
  assumes "lr_shape s" "task_alloc (l_task_ring s) = Inr (t, tr)"
    "open_slot t name fn outs pid (s\<lparr>l_task_ring := tr\<rparr>) = (fut, s')"
  shows "prepared t [] 0 s s'" "fut = nat t" "l_tensor_map s' = l_tensor_map s" "l_ready_cells s' = l_ready_cells s"
    "t = l_cur s"
proof -
  note sh = lr_shapeD [OF assms(1)]
  note al = task_alloc_wf [OF sh(1) assms(2)] and ad = task_alloc_InrD [OF assms(2)]
  define r where "r = task_upd t (\<lambda>d. d\<lparr>td_key := TaskKey (key_logical_system (td_key d)) (key_coord (td_key d))
      (key_scope_depth (td_key d)) (word_of_int t), td_kernel_so := name, td_fn := Some fn\<rparr>) tr"
  show t: "t = l_cur s" using ad(1) by (simp add: l_cur_def)
  have t0: "0 \<le> t" using t sh(4) by simp
  have tw: "t < tr_window_size (l_task_ring s)"
    using ad(1,3) sh(2) by (simp add: has_space_def active_count_def)
  have wf: "ring_wf r" "tr_current_index r = t + 1" "tr_last_task_alive r = 0"
    "tr_window_size r = tr_window_size (l_task_ring s)"
    using al(1-4) sh(2) by (simp_all add: r_def)
  have slot: "nat (task_slot r t) = nat t" using task_slot_mod [OF wf(1)] wf(4) t0 tw by simp
  have s': "s' = s\<lparr>l_task_ring := r, l_futures := l_futures s @ [False],
      l_promises := (l_promises s)[nat t := Some (length (l_futures s))],
      l_outputs := (l_outputs s)[nat t := outs], l_external_inputs := (l_external_inputs s)[nat t := []],
      l_external_ready := (l_external_ready s)[nat t := []], l_trace_pids := (l_trace_pids s)[nat t := pid]\<rparr>"
    and fut: "fut = length (l_futures s)"
    using assms(3) slot by (auto simp: open_slot_def Let_def l_upd_def l_slot_def r_def)
  show fut': "fut = nat t" using fut sh(11) t by simp
  show "l_tensor_map s' = l_tensor_map s" "l_ready_cells s' = l_ready_cells s" by (simp_all add: s')
  have cur: "l_cur s' = t + 1" using wf(2) by (simp add: s' l_cur_def)
  have live_tr: "task_live tr i" if "l_live s i" for i using al(7) [of i] that sh(6) by blast
  have gi: "l_get s' i = l_get s i" if "l_live s i" for i
    using task_get_upd_live [OF al(1,5) live_tr [OF that]] al(7) [of i] that sh(6) t
    by (auto simp: s' l_get_def r_def l_live_def)
  have gt: "l_get s' t = fresh_descriptor\<lparr>td_key := TaskKey (key_logical_system task_key_default)
      (key_coord task_key_default) (key_scope_depth task_key_default) (word_of_int t), td_kernel_so := name,
      td_fn := Some fn\<rparr>"
    using al(1,6) by (simp add: s' l_get_def r_def) (simp add: fresh_descriptor_def)
  have heads: "dep_head_ok (l_dep_pool s) (td_dep_list_head d) \<and> dep_head_ok (l_dep_pool s) (td_fanout_list_head d)"
    if "d \<in> set (tr_descriptors r)" for d
    using slot_heads [OF assms(1,2) that [unfolded r_def]] gt by (simp add: s' l_get_def r_def fresh_descriptor_def)
  have "lr_shape s'"
    unfolding lr_shape_def using wf heads assms(1) tm_inv_mono [OF sh(7)] sh(4,9-11) t tw cur t0
    by (auto simp: s' lr_shape_def nat_add_distrib)
  moreover have "l_deps s' i = l_deps s i \<and> l_outs s' i = l_outs s i \<and> ext_left s' i = ext_left s i"
    if "l_live s i" for i
  proof -
    have "nat i \<noteq> nat t" using that t by (auto simp: l_live_def)
    then have "ext_left s' i = ext_left s i" by (simp add: ext_left_def s')
    with gi [OF that] show ?thesis by (simp add: l_deps_def l_outs_def) (simp add: s')
  qed
  moreover have "ext_left s' t = 0" using sh(10) tw t0 by (simp add: ext_left_def s')
  moreover have "l_promises s' = (l_promises s)[nat t := Some (nat t)]" using fut fut' by (simp add: s')
  moreover have "l_deps s' t = []" "l_outs s' t = []" "l_status s' t = PENDING"
    using gt by (simp_all add: l_deps_def l_outs_def l_status_def fresh_descriptor_def)
  ultimately show "prepared t [] 0 s s'"
    unfolding prepared_def using gt gi t cur wf(4) by (simp add: fresh_descriptor_def) (simp add: s')
qed

text \<open>The producers a list of inputs has, by the tensor map, and the inputs that have to become ready
  from outside.\<close>

definition producer_of :: "tensor_map \<Rightarrow> linqu_tensor \<Rightarrow> i32 option" where
  "producer_of tm x = (if t_is_valid x then tm_abs tm (t_handle x) else None)"

definition waits_outside :: "tensor_map \<Rightarrow> bool list \<Rightarrow> linqu_tensor \<Rightarrow> bool" where
  "waits_outside tm cells x \<longleftrightarrow> t_is_valid x \<and> tm_abs tm (t_handle x) = None \<and> \<not> t_is_ready cells x"

lemma prepared_prepend:
  assumes "prepared t ps e s0 s" "0 \<le> t" "l_live s0 q"
    "dep_prepend (td_dep_list_head (l_get s t)) q (l_dep_pool s) = Inr (h, dp)"
  shows "prepared t (ps @ [q]) e s0 (l_upd t (\<lambda>d. d\<lparr>td_dep_list_head := h\<rparr>) (s\<lparr>l_dep_pool := dp\<rparr>))"
proof -
  note p = preparedD [OF assms(1)]
  let ?s1 = "s\<lparr>l_dep_pool := dp\<rparr>"
  let ?s2 = "l_upd t (\<lambda>d. d\<lparr>td_dep_list_head := h\<rparr>) ?s1"
  note d = prepend_pool [OF p(1) lr_heads(1) [OF p(1)] assms(4)]
  have "l_live s t" using p(3) assms(2) by (simp add: l_live_def)
  then have lt: "l_live ?s1 t" by simp
  have li: "l_live ?s1 i" "i \<noteq> t" if "l_live s0 i" for i using that p(2,3) by (auto simp: l_live_def l_cur_def)
  have sh: "lr_shape ?s2" using d(2) lr_heads(2) [OF d(1), of t] by (intro l_upd_shape d(1)) auto
  have gt: "l_get ?s2 t = (l_get s t)\<lparr>td_dep_list_head := h\<rparr>" using l_get_upd [OF d(1) lt lt] by simp
  have gi: "l_get ?s2 i = l_get s i" if "l_live s0 i" for i using l_get_upd [OF d(1) lt li(1) [OF that]] li(2) [OF that] by simp
  have new: "l_deps ?s2 t = q # rev ps" "l_outs ?s2 t = []"
  proof -
    have "dep_list dp h = q # rev ps" using d(3) p(13) by (simp add: l_deps_def)
    then show "l_deps ?s2 t = q # rev ps" using gt by (simp add: l_deps_def)
    have "l_outs ?s1 t = []" using d(5) [of t] p(14) by simp
    then show "l_outs ?s2 t = []" using gt by (simp add: l_outs_def)
  qed
  have old: "l_deps ?s2 i = l_deps s0 i \<and> l_outs ?s2 i = l_outs s0 i" if "l_live s0 i" for i
    using gi [OF that] d(4,5) [of i] p(20) [OF that] by (auto simp: l_deps_def l_outs_def)
  have ext: "ext_left ?s2 i = ext_left s i" for i by (simp add: ext_left_def)
  have "l_cur ?s2 = t + 1" using p(3) by (simp add: l_cur_def l_upd_def)
  moreover have "tr_window_size (l_task_ring ?s2) = tr_window_size (l_task_ring s0)"
    using p(6) by (simp add: l_upd_def)
  moreover have "l_status ?s2 t = PENDING" using gt p(5) by (simp add: l_status_def)
  ultimately show ?thesis
    unfolding prepared_def using sh p(2,4,7-12,15-20) gt gi new old ext assms(3) by simp
qed

lemma prepared_external:
  assumes "prepared t ps e s0 s" "0 \<le> t"
  shows "prepared t ps (e + 1) s0
    (s\<lparr>l_external_inputs := xs, l_external_ready := (l_external_ready s)[nat t := l_external_ready s ! nat t @ [r]]\<rparr>)"
proof -
  note p = preparedD [OF assms(1)]
  let ?s1 = "s\<lparr>l_external_inputs := xs, l_external_ready := (l_external_ready s)[nat t := l_external_ready s ! nat t @ [r]]\<rparr>"
  have len: "nat t < length (l_external_ready s)" using lr_shapeD(5,10) [OF p(1)] p(3) assms(2) by simp
  have "ext_left ?s1 t = e + 1" using p(15) len by (simp add: ext_left_def)
  moreover have "ext_left ?s1 i = ext_left s i" if "l_live s0 i" for i
  proof -
    have "nat i \<noteq> nat t" using that p(2) by (auto simp: l_live_def)
    then show ?thesis by (simp add: ext_left_def)
  qed
  moreover have "lr_shape ?s1" using p(1) by (simp add: lr_shape_def l_cur_def)
  moreover have "l_get ?s1 i = l_get s i" "l_cur ?s1 = l_cur s" for i by (simp_all add: l_get_def l_cur_def)
  moreover have "l_deps ?s1 i = l_deps s i" "l_outs ?s1 i = l_outs s i" "l_status ?s1 i = l_status s i" for i
    by (simp_all add: l_deps_def l_outs_def l_status_def l_get_def)
  ultimately show ?thesis unfolding prepared_def using p by simp
qed

lemma scan_inputs_prepared:
  assumes "prepared t ps e s0 s" "0 \<le> t" "tm_inv (l_tensor_map s) (t - 1)" "tm_last_task_alive (l_tensor_map s) = 0"
    "foldR (scan_input t) ins ((length ps + e, ext, ps), s) = Inr ((n, ext', ps'), s')"
  shows "\<exists>e'. prepared t ps' e' s0 s' \<and> n = length ps' + e' \<and>
    ps' = ps @ List.map_filter (producer_of (l_tensor_map s)) ins \<and>
    e' = e + length (filter (waits_outside (l_tensor_map s) (l_ready_cells s)) ins) \<and>
    l_tensor_map s' = l_tensor_map s"
  using assms
proof (induction ins arbitrary: ps e ext s)
  case Nil
  then show ?case by (auto simp: map_filter_simps)
next
  case (Cons x ins)
  note p = preparedD [OF Cons.prems(1)]
  note look = tm_index.lookup_abs [OF Cons.prems(3), of "t_handle x"]
  have slot: "l_slot s t = nat t" using l_slot_live [OF p(1), of t] p(3) Cons.prems(2) by (simp add: l_live_def)
  let ?tm = "l_tensor_map s" and ?c = "l_ready_cells s"
  consider (skip) "producer_of ?tm x = None" "\<not> waits_outside ?tm ?c x"
    | (ext) "producer_of ?tm x = None" "waits_outside ?tm ?c x"
    | (prod) q where "producer_of ?tm x = Some q"
    by (cases "producer_of ?tm x") auto
  then show ?case
  proof cases
    case skip
    then have "scan_input t x ((length ps + e, ext, ps), s) = Inr ((length ps + e, ext, ps), s)"
      using look by (auto simp: scan_input_def producer_of_def waits_outside_def split: if_splits)
    with Cons.prems(5) have "foldR (scan_input t) ins ((length ps + e, ext, ps), s) = Inr ((n, ext', ps'), s')" by simp
    from Cons.IH [OF Cons.prems(1-4) this] skip show ?thesis by (auto simp: map_filter_simps)
  next
    case ext
    let ?s1 = "s\<lparr>l_external_inputs := (l_external_inputs s)[nat t := l_external_inputs s ! nat t @ [t_handle x]],
        l_external_ready := (l_external_ready s)[nat t := l_external_ready s ! nat t @ [t_ready x]]\<rparr>"
    have "scan_input t x ((length ps + e, ext, ps), s) = Inr ((length ps + (e + 1), True, ps), ?s1)"
      using look ext slot by (auto simp: scan_input_def waits_outside_def Let_def)
    with Cons.prems(5) have "foldR (scan_input t) ins ((length ps + (e + 1), True, ps), ?s1) = Inr ((n, ext', ps'), s')"
      by simp
    from Cons.IH [OF prepared_external [OF Cons.prems(1,2)] Cons.prems(2) _ _ this] Cons.prems(3,4) ext
    show ?thesis by (auto simp: map_filter_simps)
  next
    case prod
    then have q: "t_is_valid x" "tm_abs ?tm (t_handle x) = Some q" by (auto simp: producer_of_def split: if_splits)
    from Cons.prems(5) q look obtain h dp where
      pre: "dep_prepend (td_dep_list_head (l_get s t)) q (l_dep_pool s) = Inr (h, dp)"
      by (auto simp: scan_input_def elim!: bindR_InrE)
    let ?s1 = "l_upd t (\<lambda>d. d\<lparr>td_dep_list_head := h\<rparr>) (s\<lparr>l_dep_pool := dp\<rparr>)"
    have "scan_input t x ((length ps + e, ext, ps), s) = Inr ((length (ps @ [q]) + e, ext, ps @ [q]), ?s1)"
      using look q pre by (simp add: scan_input_def)
    with Cons.prems(5) have "foldR (scan_input t) ins ((length (ps @ [q]) + e, ext, ps @ [q]), ?s1) = Inr ((n, ext', ps'), s')"
      by simp
    moreover have "l_live s0 q"
      using tm_abs_range [OF Cons.prems(3) q(2)] Cons.prems(4) p(2) by (simp add: l_live_def)
    moreover have "\<not> waits_outside ?tm ?c x" using q by (simp add: waits_outside_def)
    ultimately show ?thesis
      using Cons.IH [OF prepared_prepend [OF Cons.prems(1,2) _ pre] Cons.prems(2)] Cons.prems(3,4) prod
      by (auto simp: map_filter_simps)
  qed
qed

text \<open>The output buffers touch the heap, the shared data pointers and the heap contents only.\<close>

definition heap_only :: "lrt \<Rightarrow> lrt \<Rightarrow> bool" where
  "heap_only s s' \<longleftrightarrow> (\<exists>hr os dc m.
     s' = s\<lparr>l_heap_ring := hr, l_outputs := os, l_data_cells := dc, l_mem := m\<rparr>)"

lemma heap_only_refl: "heap_only s s"
  unfolding heap_only_def
  by (intro exI [of _ "l_heap_ring s"] exI [of _ "l_outputs s"] exI [of _ "l_data_cells s"] exI [of _ "l_mem s"]) simp

lemma heap_only_trans: "heap_only a b \<Longrightarrow> heap_only b c \<Longrightarrow> heap_only a c"
  by (auto simp: heap_only_def) (metis lrt.unfold_congs(1))

lemma place_outputs_heap_only:
  "foldR place_output outs (ptr, s) = Inr (ptr', s') \<Longrightarrow> heap_only s s'"
proof (induction outs arbitrary: ptr s)
  case Nil
  then show ?case by (simp add: heap_only_refl)
next
  case (Cons x outs)
  then obtain ptr1 s1 where 1: "place_output x (ptr, s) = Inr (ptr1, s1)"
    "foldR place_output outs (ptr1, s1) = Inr (ptr', s')" by (auto elim!: bindR_InrE)
  then obtain dc m where "s1 = s\<lparr>l_data_cells := dc, l_mem := m\<rparr>"
    by (auto simp: place_output_def Let_def split: option.splits if_splits)
  then have "s1 = s\<lparr>l_heap_ring := l_heap_ring s, l_outputs := l_outputs s, l_data_cells := dc, l_mem := m\<rparr>" by simp
  then have "heap_only s s1" unfolding heap_only_def by blast
  with Cons.IH [OF 1(2)] show ?case by (rule heap_only_trans [rotated])
qed

lemma alloc_outputs_heap_only:
  assumes "alloc_outputs t outs s = Inr s'"
  shows "heap_only s s'"
proof (cases "0 < total_output_bytes outs")
  case False
  with assms show ?thesis by (simp add: alloc_outputs_def heap_only_refl)
next
  case True
  with assms obtain pos hr where "heap_alloc (total_output_bytes outs) (l_heap_ring s) = Inr (pos, hr)"
    by (auto simp: alloc_outputs_def elim!: bindR_InrE)
  with True assms have "bindR (foldR place_output outs (unat pos, s\<lparr>l_heap_ring := hr\<rparr>)) (\<lambda>(ptr, s).
       Inr (s\<lparr>l_outputs := (l_outputs s)[l_slot s t := outs]\<rparr>)) = Inr s'"
    by (simp add: alloc_outputs_def)
  then obtain x where x: "foldR place_output outs (unat pos, s\<lparr>l_heap_ring := hr\<rparr>) = Inr x"
    "(case x of (ptr, s) \<Rightarrow> Inr (s\<lparr>l_outputs := (l_outputs s)[l_slot s t := outs]\<rparr>)) = (Inr s' :: lrt res)"
    by (rule bindR_InrE)
  obtain ptr s1 where "x = (ptr, s1)" by (cases x)
  with x have fo: "foldR place_output outs (unat pos, s\<lparr>l_heap_ring := hr\<rparr>) = Inr (ptr, s1)"
    and s': "s' = s1\<lparr>l_outputs := (l_outputs s1)[l_slot s1 t := outs]\<rparr>" by auto
  from place_outputs_heap_only [OF fo] obtain hr' os dc m where
    "s1 = s\<lparr>l_heap_ring := hr', l_outputs := os, l_data_cells := dc, l_mem := m\<rparr>" by (auto simp: heap_only_def)
  then have "s' = s\<lparr>l_heap_ring := hr', l_outputs := os[l_slot s1 t := outs], l_data_cells := dc, l_mem := m\<rparr>"
    unfolding s' by simp
  then show ?thesis unfolding heap_only_def by blast
qed

lemma prepared_heap_only:
  assumes "prepared t ps e s0 s" "heap_only s s'"
  shows "prepared t ps e s0 s'" "l_tensor_map s' = l_tensor_map s"
proof -
  obtain hr os dc m where s': "s' = s\<lparr>l_heap_ring := hr, l_outputs := os, l_data_cells := dc, l_mem := m\<rparr>"
    using assms(2) by (auto simp: heap_only_def)
  have g: "l_get s' = l_get s" "l_cur s' = l_cur s" by (simp_all add: s' l_get_def l_cur_def fun_eq_iff)
  have v: "l_deps s' = l_deps s" "l_outs s' = l_outs s" "l_status s' = l_status s" "ext_left s' = ext_left s"
    by (simp_all add: fun_eq_iff l_deps_def l_outs_def l_status_def g ext_left_def) (simp_all add: s')
  have "lr_shape s'" using preparedD(1) [OF assms(1)] g(2) by (simp add: lr_shape_def) (simp add: s')
  then show "prepared t ps e s0 s'" using preparedD [OF assms(1)] v g unfolding prepared_def by (simp add: s')
  show "l_tensor_map s' = l_tensor_map s" by (simp add: s')
qed

lemma register_outputs_prepared:
  assumes "prepared t ps e s0 s" "0 \<le> t" "int (length outs) \<le> tm_room (l_tensor_map s)"
  shows "\<exists>s'. foldR (register_output t) outs s = Inr s' \<and> prepared t ps e s0 s' \<and>
    tm_abs (l_tensor_map s') = (\<lambda>h. if h \<in> t_handle ` set outs then Some t else tm_abs (l_tensor_map s) h) \<and>
    tm_room (l_tensor_map s') = tm_room (l_tensor_map s) - int (length outs)"
  using assms(1,3)
proof (induction outs arbitrary: s)
  case Nil
  then show ?case by simp
next
  case (Cons x outs)
  note p = preparedD [OF Cons.prems(1)]
  have tm: "tm_inv (l_tensor_map s) t" "tm_last_task_alive (l_tensor_map s) \<le> t" "0 < tm_room (l_tensor_map s)"
    using lr_shapeD(7,8) [OF p(1)] p(3) assms(2) Cons.prems(2) by auto
  from tm_index.insert_abs [OF tm(1) order_refl tm(2,3), of "t_handle x"] obtain m where
    m: "tm_insert (t_handle x) t True (l_tensor_map s) = Inr m" "tm_inv m t"
      "tm_abs m = (tm_abs (l_tensor_map s))(t_handle x \<mapsto> t)" "tm_last_task_alive m = tm_last_task_alive (l_tensor_map s)"
      "tm_room m = tm_room (l_tensor_map s) - 1" by blast
  let ?s1 = "s\<lparr>l_tensor_map := m\<rparr>"
  have g: "l_get ?s1 = l_get s" "l_cur ?s1 = l_cur s" by (simp_all add: l_get_def l_cur_def fun_eq_iff)
  have v: "l_deps ?s1 = l_deps s" "l_outs ?s1 = l_outs s" "l_status ?s1 = l_status s" "ext_left ?s1 = ext_left s"
    by (simp_all add: fun_eq_iff l_deps_def l_outs_def l_status_def g ext_left_def)
  have "lr_shape ?s1" using p(1,3) m(2,4) g(2) by (simp add: lr_shape_def)
  then have pr: "prepared t ps e s0 ?s1" using p v g unfolding prepared_def by simp
  have room: "int (length outs) \<le> tm_room (l_tensor_map ?s1)" using Cons.prems(2) m(5) by simp
  obtain s' where
    s': "foldR (register_output t) outs ?s1 = Inr s'" "prepared t ps e s0 s'"
      "tm_abs (l_tensor_map s') = (\<lambda>h. if h \<in> t_handle ` set outs then Some t else tm_abs (l_tensor_map ?s1) h)"
      "tm_room (l_tensor_map s') = tm_room (l_tensor_map ?s1) - int (length outs)"
    using Cons.IH [OF pr room] by blast
  have "(\<lambda>h. if h \<in> t_handle ` set outs then Some t else tm_abs (l_tensor_map ?s1) h) =
      (\<lambda>h. if h \<in> t_handle ` set (x # outs) then Some t else tm_abs (l_tensor_map s) h)"
    using m(3) by (auto simp: fun_eq_iff)
  with s' m(1,5) show ?case by (auto simp: register_output_def [of t x s])
qed

lemma prepared_heap_end:
  assumes "prepared t ps e s0 s" "0 \<le> t"
  shows "prepared t ps e s0 (l_upd t (\<lambda>d. d\<lparr>td_heap_end := v\<rparr>) s)"
proof -
  note p = preparedD [OF assms(1)]
  let ?s1 = "l_upd t (\<lambda>d. d\<lparr>td_heap_end := v\<rparr>) s"
  have lt: "l_live s t" using p(3) assms(2) by (simp add: l_live_def)
  have gt: "l_get ?s1 t = (l_get s t)\<lparr>td_heap_end := v\<rparr>" using l_get_upd [OF p(1) lt lt] by simp
  have gi: "l_get ?s1 i = l_get s i" if "l_live s0 i" for i
    using l_get_upd [OF p(1) lt, of i] that p(2,3) by (auto simp: l_live_def)
  have "lr_shape ?s1" using lr_heads [OF p(1)] by (intro l_upd_shape p(1)) simp_all
  moreover have "l_deps ?s1 t = rev ps" "l_outs ?s1 t = []" "l_status ?s1 t = PENDING"
    using gt p(5,13,14) by (simp_all add: l_deps_def l_outs_def l_status_def)
  moreover have "l_deps ?s1 i = l_deps s0 i \<and> l_outs ?s1 i = l_outs s0 i" if "l_live s0 i" for i
    using gi [OF that] p(20) [OF that] by (auto simp: l_deps_def l_outs_def)
  moreover have "tr_window_size (l_task_ring ?s1) = tr_window_size (l_task_ring s0)" using p(6) by (simp add: l_upd_def)
  ultimately show ?thesis unfolding prepared_def using p(2-4,7-12,15-20) gt gi by simp
qed

text \<open>Preparation as a whole: the producers are those the tensor map names, in the order of the inputs.\<close>

lemma prepare_task_prepared:
  assumes "lr_shape s" "int (length outs) \<le> tm_room (l_tensor_map s)"
    "prepare_task name fn ins outs pid s = Inr ((t, fut, n, ext, ps), s')"
  shows "prepared t ps (length (filter (waits_outside (l_tensor_map s) (l_ready_cells s)) ins)) s s'"
    "n = length ps + length (filter (waits_outside (l_tensor_map s) (l_ready_cells s)) ins)"
    "ps = List.map_filter (producer_of (l_tensor_map s)) ins" "fut = nat t"
    "tm_abs (l_tensor_map s') =
       (\<lambda>h. if h \<in> t_handle ` set outs then Some t else tm_abs (l_tensor_map s) h)"
    "tm_room (l_tensor_map s') = tm_room (l_tensor_map s) - int (length outs)"
proof -
  from assms(3) obtain t1 tr where al1: "task_alloc (l_task_ring s) = Inr (t1, tr)"
    by (auto simp: prepare_task_def elim!: bindR_InrE)
  obtain fut1 s1 where op1: "open_slot t1 name fn outs pid (s\<lparr>l_task_ring := tr\<rparr>) = (fut1, s1)"
    by (cases "open_slot t1 name fn outs pid (s\<lparr>l_task_ring := tr\<rparr>)")
  from assms(3) al1 op1 obtain n1 ext1 ps1 s2 s3 s4 s5 where
    sc1: "foldR (scan_input t1) ins ((0, False, []), s1) = Inr ((n1, ext1, ps1), s2)"
    and ao1: "alloc_outputs t1 outs s2 = Inr s3" and ro1: "foldR (register_output t1) outs s3 = Inr s4"
    and sp: "(if 0 \<le> scope_depth (l_scope_stack s4)
       then bindR (stack_add_task t1 (l_scope_stack s4)) (\<lambda>ss. Inr (s4\<lparr>l_scope_stack := ss\<rparr>)) else Inr s4) = Inr s5"
    and eq: "((t1, fut1, n1, ext1, ps1), l_upd t1 (\<lambda>d. d\<lparr>td_heap_end := hr_top (l_heap_ring s5)\<rparr>) s5) =
      ((t, fut, n, ext, ps), s')"
    unfolding prepare_task_def by (simp add: bindR_Inr_iff) (elim exE conjE prod.exhaust, auto)
  from eq have eqs: "t1 = t" "fut1 = fut" "n1 = n" "ext1 = ext" "ps1 = ps"
    and s': "s' = l_upd t (\<lambda>d. d\<lparr>td_heap_end := hr_top (l_heap_ring s5)\<rparr>) s5" by auto
  note al = al1 [unfolded eqs] and op = op1 [unfolded eqs] and sc = sc1 [unfolded eqs]
    and ao = ao1 [unfolded eqs] and ro = ro1 [unfolded eqs]
  note o1 = open_slot_prepared [OF assms(1) al op]
  have t: "0 \<le> t" "t = l_cur s" using o1(5) lr_shapeD(4) [OF assms(1)] by simp_all
  have "tm_inv (l_tensor_map s1) (t - 1)" "tm_last_task_alive (l_tensor_map s1) = 0"
    using o1(3) lr_shapeD(7,8) [OF assms(1)] t(2) by simp_all
  from scan_inputs_prepared [OF o1(1) t(1) this] sc obtain e where
    e: "prepared t ps e s s2 \<and> n = length ps + e \<and> ps = [] @ List.map_filter (producer_of (l_tensor_map s1)) ins \<and>
      e = 0 + length (filter (waits_outside (l_tensor_map s1) (l_ready_cells s1)) ins) \<and>
      l_tensor_map s2 = l_tensor_map s1" by (metis add_0 list.size(3))
  from e have s2: "prepared t ps e s s2" "n = length ps + e" "ps = List.map_filter (producer_of (l_tensor_map s)) ins"
      "e = length (filter (waits_outside (l_tensor_map s) (l_ready_cells s)) ins)" "l_tensor_map s2 = l_tensor_map s"
    unfolding o1(3,4) append_Nil add_0 by blast+
  note s3 = prepared_heap_only [OF s2(1) alloc_outputs_heap_only [OF ao]]
  have "int (length outs) \<le> tm_room (l_tensor_map s3)" using assms(2) s3(2) s2(5) by simp
  from register_outputs_prepared [OF s3(1) t(1) this] ro s3(2) s2(5) have
    s4: "prepared t ps e s s4" "tm_room (l_tensor_map s4) = tm_room (l_tensor_map s) - int (length outs)"
      "tm_abs (l_tensor_map s4) = (\<lambda>h. if h \<in> t_handle ` set outs then Some t else tm_abs (l_tensor_map s) h)" by auto
  have "s5 = s4" using sp preparedD(1) [OF s4(1)] by (auto simp: lr_shape_def)
  with prepared_heap_end [OF s4(1) t(1)] s' s2(4)
  show "prepared t ps (length (filter (waits_outside (l_tensor_map s) (l_ready_cells s)) ins)) s s'" by simp
  show "n = length ps + length (filter (waits_outside (l_tensor_map s) (l_ready_cells s)) ins)"
    "ps = List.map_filter (producer_of (l_tensor_map s)) ins" "fut = nat t" using s2(2-4) o1(2) by simp_all
  show "tm_abs (l_tensor_map s') = (\<lambda>h. if h \<in> t_handle ` set outs then Some t else tm_abs (l_tensor_map s) h)"
    "tm_room (l_tensor_map s') = tm_room (l_tensor_map s) - int (length outs)"
    using s4(2,3) s' \<open>s5 = s4\<close> by simp_all
qed

section \<open>Submission returns while there is room\<close>

definition outputs_fit :: "linqu_tensor list \<Rightarrow> heap_ring \<Rightarrow> bool" where
  "outputs_fit outs hr \<longleftrightarrow> total_output_bytes outs = 0 \<or>
     (\<forall>x \<in> set outs. t_data_ref x \<noteq> None) \<and>
     (case heap_try_alloc (total_output_bytes outs) hr of
        None \<Rightarrow> False
      | Some (pos, hr') \<Rightarrow> unat pos + 8 * sum_list (map (\<lambda>x. unat (t_count x)) outs) \<le> unat (hr_capacity hr'))"

lemma place_outputs_fit:
  assumes "\<forall>x \<in> set outs. t_data_ref x \<noteq> None"
    "ptr + 8 * sum_list (map (\<lambda>x. unat (t_count x)) outs) \<le> unat (hr_capacity (l_heap_ring s))"
  shows "\<exists>r. foldR place_output outs (ptr, s) = Inr r"
  using assms
proof (induction outs arbitrary: ptr s)
  case Nil
  then show ?case by simp
next
  case (Cons x outs)
  from Cons.prems obtain a where a: "t_data_ref x = Some a" by auto
  have b: "ptr + 8 * unat (t_count x) \<le> unat (hr_capacity (l_heap_ring s))" using Cons.prems(2) by simp
  from a b obtain s1 where 1: "place_output x (ptr, s) = Inr (ptr + 8 * unat (t_count x), s1)"
    "l_heap_ring s1 = l_heap_ring s" by (simp add: place_output_def Let_def)
  have "\<exists>r. foldR place_output outs (ptr + 8 * unat (t_count x), s1) = Inr r"
    using Cons.prems 1(2) by (intro Cons.IH) (simp_all add: algebra_simps)
  with 1(1) show ?case by simp
qed

lemma alloc_outputs_fit:
  assumes "outputs_fit outs (l_heap_ring s)"
  shows "\<exists>s'. alloc_outputs t outs s = Inr s'"
proof (cases "total_output_bytes outs = 0")
  case True
  then show ?thesis by (simp add: alloc_outputs_def)
next
  case False
  with assms obtain pos hr where h: "heap_try_alloc (total_output_bytes outs) (l_heap_ring s) = Some (pos, hr)"
    and d: "\<forall>x \<in> set outs. t_data_ref x \<noteq> None"
      "unat pos + 8 * sum_list (map (\<lambda>x. unat (t_count x)) outs) \<le> unat (hr_capacity hr)"
    by (auto simp: outputs_fit_def split: option.splits)
  from place_outputs_fit [OF d(1), of "unat pos" "s\<lparr>l_heap_ring := hr\<rparr>"] d(2) obtain r where
    "foldR place_output outs (unat pos, s\<lparr>l_heap_ring := hr\<rparr>) = Inr r" by auto
  moreover have "0 < total_output_bytes outs" using False by (simp add: word_neq_0_conv)
  ultimately show ?thesis using h by (cases r) (simp add: alloc_outputs_def heap_alloc_def)
qed

lemma prepend_total:
  assumes "lr_shape s" "0 < dep_available (l_dep_pool s)" "dep_head_ok (l_dep_pool s) h"
  shows "\<exists>h' p. dep_prepend h t (l_dep_pool s) = Inr (h', p) \<and> dep_available p = dep_available (l_dep_pool s) - 1"
  using dep.prepend_room [OF lr_shapeD(3) [OF assms(1)] assms(3,2), of t] by blast

lemma scan_inputs_total:
  assumes "prepared t ps e s0 s" "0 \<le> t" "tm_inv (l_tensor_map s) (t - 1)" "tm_last_task_alive (l_tensor_map s) = 0"
    "int (length ins) \<le> dep_available (l_dep_pool s)"
  shows "\<exists>r s'. foldR (scan_input t) ins ((n, ext, qs), s) = Inr (r, s') \<and> l_heap_ring s' = l_heap_ring s \<and>
    dep_available (l_dep_pool s) - int (length ins) \<le> dep_available (l_dep_pool s') \<and>
    length (snd (snd r)) \<le> length qs + length ins"
  using assms
proof (induction ins arbitrary: ps e n ext qs s)
  case Nil
  then show ?case by simp
next
  case (Cons x ins)
  note p = preparedD [OF Cons.prems(1)]
  note look = tm_index.lookup_abs [OF Cons.prems(3), of "t_handle x"]
  have slot: "l_slot s t = nat t" using l_slot_live [OF p(1), of t] p(3) Cons.prems(2) by (simp add: l_live_def)
  let ?tm = "l_tensor_map s" and ?c = "l_ready_cells s"
  consider (skip) "producer_of ?tm x = None" "\<not> waits_outside ?tm ?c x"
    | (ext) "producer_of ?tm x = None" "waits_outside ?tm ?c x"
    | (prod) q where "producer_of ?tm x = Some q"
    by (cases "producer_of ?tm x") auto
  then show ?case
  proof cases
    case skip
    then have "scan_input t x ((n, ext, qs), s) = Inr ((n, ext, qs), s)"
      using look by (auto simp: scan_input_def producer_of_def waits_outside_def split: if_splits)
    with Cons.IH [OF Cons.prems(1-4), of n ext qs] Cons.prems(5) show ?thesis by fastforce
  next
    case ext
    let ?s1 = "s\<lparr>l_external_inputs := (l_external_inputs s)[nat t := l_external_inputs s ! nat t @ [t_handle x]],
        l_external_ready := (l_external_ready s)[nat t := l_external_ready s ! nat t @ [t_ready x]]\<rparr>"
    have "scan_input t x ((n, ext, qs), s) = Inr ((n + 1, True, qs), ?s1)"
      using look ext slot by (auto simp: scan_input_def waits_outside_def Let_def)
    moreover have "\<exists>r s'. foldR (scan_input t) ins ((n + 1, True, qs), ?s1) = Inr (r, s') \<and> l_heap_ring s' = l_heap_ring ?s1 \<and>
      dep_available (l_dep_pool ?s1) - int (length ins) \<le> dep_available (l_dep_pool s') \<and>
      length (snd (snd r)) \<le> length qs + length ins"
      using Cons.prems(3-5) by (intro Cons.IH [OF prepared_external [OF Cons.prems(1,2)] Cons.prems(2)]) simp_all
    ultimately show ?thesis by fastforce
  next
    case prod
    then have q: "t_is_valid x" "tm_abs ?tm (t_handle x) = Some q" by (auto simp: producer_of_def split: if_splits)
    from prepend_total [OF p(1) _ lr_heads(1) [OF p(1)], of t q] Cons.prems(5) obtain h dp where
      pre: "dep_prepend (td_dep_list_head (l_get s t)) q (l_dep_pool s) = Inr (h, dp)"
        "dep_available dp = dep_available (l_dep_pool s) - 1" by auto
    let ?s1 = "l_upd t (\<lambda>d. d\<lparr>td_dep_list_head := h\<rparr>) (s\<lparr>l_dep_pool := dp\<rparr>)"
    have "scan_input t x ((n, ext, qs), s) = Inr ((n + 1, ext, qs @ [q]), ?s1)"
      using look q pre(1) by (simp add: scan_input_def)
    moreover have "l_live s0 q"
      using tm_abs_range [OF Cons.prems(3) q(2)] Cons.prems(4) p(2) by (simp add: l_live_def)
    moreover from this have "\<exists>r s'. foldR (scan_input t) ins ((n + 1, ext, qs @ [q]), ?s1) = Inr (r, s') \<and>
      l_heap_ring s' = l_heap_ring ?s1 \<and>
      dep_available (l_dep_pool ?s1) - int (length ins) \<le> dep_available (l_dep_pool s') \<and>
      length (snd (snd r)) \<le> length (qs @ [q]) + length ins"
      using Cons.prems(3-5) pre(2)
      by (intro Cons.IH [OF prepared_prepend [OF Cons.prems(1,2) _ pre(1)] Cons.prems(2)]) simp_all
    ultimately show ?thesis using pre(2) by fastforce
  qed
qed

lemma add_consumer_total:
  assumes "lr_shape s" "lr_unlocked s" "l_live s p" "0 < dep_available (l_dep_pool s)"
  shows "\<exists>s'. add_consumer_to_producer p c s = Inr s' \<and>
    dep_available (l_dep_pool s') = dep_available (l_dep_pool s) - 1"
proof -
  let ?s1 = "l_upd p (\<lambda>d. d\<lparr>td_fanout_lock := 1\<rparr>) s"
  have sh: "lr_shape ?s1" by (rule lr_frame_shape [OF lock_frame assms(1)])
  have lk: "fanout_lock p s = Inr ?s1" using assms(2,3) by (simp add: fanout_lock_def lr_unlocked_def)
  from prepend_total [OF sh _ lr_heads(2) [OF sh], of p c] assms(4) obtain h dp where
    pre: "dep_prepend (td_fanout_list_head (l_get ?s1 p)) c (l_dep_pool ?s1) = Inr (h, dp)"
      "dep_available dp = dep_available (l_dep_pool s) - 1" by auto
  then show ?thesis using lk by (auto simp: add_consumer_to_producer_def Let_def fanout_unlock_def)
qed

lemma add_consumers_total:
  assumes "lr_shape s" "lr_unlocked s" "l_live s c" "\<forall>p \<in> set ps. l_live s p \<and> p \<noteq> c"
    "int (length ps) \<le> dep_available (l_dep_pool s)"
  shows "\<exists>s'. foldR (\<lambda>p. add_consumer_to_producer p c) ps s = Inr s'"
  using assms
proof (induction ps arbitrary: s)
  case Nil
  then show ?case by simp
next
  case (Cons p ps)
  from add_consumer_total [OF Cons.prems(1,2), of p c] Cons.prems(4,5) obtain s1 where
    s1: "add_consumer_to_producer p c s = Inr s1" "dep_available (l_dep_pool s1) = dep_available (l_dep_pool s) - 1"
    by auto
  have l: "linked [p] c s s1" using add_consumer_linked [OF Cons.prems(1,2) _ Cons.prems(3) _ s1(1)] Cons.prems(4) by auto
  have "\<exists>s'. foldR (\<lambda>p. add_consumer_to_producer p c) ps s1 = Inr s'"
    using Cons.prems(3-5) s1(2) linkedD(11) [OF l] linked_unlocked [OF l] linkedD(13) [OF l]
    by (intro Cons.IH) auto
  with s1(1) show ?case by simp
qed

lemma publish_total:
  assumes "lr_mid s0 got rel" "prepared t ps e s0 s" "int (length ps) \<le> dep_available (l_dep_pool s)"
  shows "\<exists>s'. publish_task t (length ps + e) ps s = Inr s'"
proof -
  note inv = lr_midD [OF assms(1)] and p = preparedD [OF assms(2)]
  have t: "0 \<le> t" using lr_shapeD(4) [OF inv(1)] p(2) by simp
  note lv = live_Suc [OF p(2) t p(3)]
  have lt: "l_live s t" using lv by simp
  define a where "a = l_upd t (\<lambda>d. d\<lparr>td_fanin_count := length ps + e\<rparr>) s"
  have sha: "lr_shape a" unfolding a_def using lr_heads [OF p(1)] by (intro l_upd_shape p(1)) simp_all
  have ga: "l_get a i = (if t = i then (l_get s i)\<lparr>td_fanin_count := length ps + e\<rparr> else l_get s i)"
    if "l_live s i" for i using l_get_upd [OF p(1) lt that] by (simp add: a_def)
  have la: "l_live a i = l_live s i" for i by (simp add: a_def)
  have una: "lr_unlocked a" using inv(3) ga lv p(19,20) la unfolding lr_unlocked_def by auto
  have st: "td_status (l_get a t) = PENDING" using ga [OF lt] p(5) by (simp add: l_status_def)
  then have idp: "l_set_status PENDING t a = a" unfolding l_set_status_def by (intro l_upd_id sha) simp
  have rdy: "\<exists>s1. ready_once t b = Inr (True, s1)" if "linked ps t a b" for b
  proof -
    note pr = linked_pre_ready [OF assms(1,2) a_def that]
    from ready_once_ok [OF pre_readyD(1) [OF pr] pre_ready_rest(1) [OF assms(1) pr] _ pre_readyD(15) [OF pr]]
    show ?thesis using lt la linkedD(11) [OF that] by auto
  qed
  show ?thesis
  proof (cases "length ps + e = 0")
    case True
    then have "linked ps t a a" using linked_Nil [OF sha una] by simp
    from rdy [OF this] st obtain s1 where "enqueue_ready t (l_set_status READY t a) = Inr s1"
      by (auto simp: ready_once_def try_set_ready_def elim!: bindR_InrE)
    with True show ?thesis unfolding publish_task_def Let_def a_def by simp
  next
    case False
    have "\<forall>q \<in> set ps. l_live a q \<and> q \<noteq> t" using p(2,4) la lv by (auto simp: l_live_def)
    moreover have "int (length ps) \<le> dep_available (l_dep_pool a)" using assms(3) by (simp add: a_def)
    ultimately obtain b where b: "foldR (\<lambda>p. add_consumer_to_producer p t) ps a = Inr b" "linked ps t a b"
      using add_consumers_total [OF sha una, of t ps] add_consumers_linked [OF sha una, of t ps] lt la by blast
    with rdy [OF b(2)] False idp show ?thesis unfolding publish_task_def Let_def a_def [symmetric] by auto
  qed
qed

text \<open>Room for a task: a slot, a dependency cell for every input twice, tensor map entries and heap.\<close>

definition lr_room :: "linqu_tensor list \<Rightarrow> linqu_tensor list \<Rightarrow> lrt \<Rightarrow> bool" where
  "lr_room ins outs s \<longleftrightarrow> has_space (l_task_ring s) \<and> tr_current_index (l_task_ring s) < INT32_MAX \<and>
     2 * int (length ins) \<le> dep_available (l_dep_pool s) \<and> int (length outs) \<le> tm_room (l_tensor_map s) \<and>
     outputs_fit outs (l_heap_ring s)"

lemma submit_worker_total:
  assumes "lr_mid s got rel" "lr_room ins outs s"
  shows "\<exists>s'. submit_worker idle name fn ins outs pid s = Inr (nat (l_cur s), s')"
proof -
  note inv = lr_midD [OF assms(1)]
  note sh = lr_shapeD [OF inv(1)]
  have room: "has_space (l_task_ring s)" "tr_current_index (l_task_ring s) < INT32_MAX"
    "2 * int (length ins) \<le> dep_available (l_dep_pool s)" "int (length outs) \<le> tm_room (l_tensor_map s)"
    "outputs_fit outs (l_heap_ring s)" using assms(2) by (auto simp: lr_room_def)
  from task_alloc_eq [OF sh(1) room(1,2)] obtain t tr where al: "task_alloc (l_task_ring s) = Inr (t, tr)" by blast
  obtain fut s1 where op: "open_slot t name fn outs pid (s\<lparr>l_task_ring := tr\<rparr>) = (fut, s1)"
    by (cases "open_slot t name fn outs pid (s\<lparr>l_task_ring := tr\<rparr>)")
  note o1 = open_slot_prepared [OF inv(1) al op]
  have t: "0 \<le> t" "t = l_cur s" using o1(5) sh(4) by simp_all
  have o2: "l_dep_pool s1 = l_dep_pool s" "l_heap_ring s1 = l_heap_ring s"
    using op by (auto simp: open_slot_def Let_def l_upd_def)
  have tm: "tm_inv (l_tensor_map s1) (t - 1)" "tm_last_task_alive (l_tensor_map s1) = 0"
    using o1(3) sh(7,8) t(2) by simp_all
  have "int (length ins) \<le> dep_available (l_dep_pool s1)" using room(3) o2 by simp
  from scan_inputs_total [OF o1(1) t(1) tm this, of 0 False "[]"] obtain n ext ps s2 where
    sc: "foldR (scan_input t) ins ((0, False, []), s1) = Inr ((n, ext, ps), s2)" "l_heap_ring s2 = l_heap_ring s"
      "dep_available (l_dep_pool s) - int (length ins) \<le> dep_available (l_dep_pool s2)" "length ps \<le> length ins"
    using o2 by auto
  have "foldR (scan_input t) ins ((length ([] :: i32 list) + 0, False, []), s1) = Inr ((n, ext, ps), s2)" using sc(1) by simp
  from scan_inputs_prepared [OF o1(1) t(1) tm this] obtain e where
    s2: "prepared t ps e s s2" "n = length ps + e" "l_tensor_map s2 = l_tensor_map s1" by blast
  from alloc_outputs_fit [of outs s2] room(5) sc(2) obtain s3 where ao: "alloc_outputs t outs s2 = Inr s3" by auto
  note h = alloc_outputs_heap_only [OF ao]
  note s3 = prepared_heap_only [OF s2(1) h]
  have dp3: "l_dep_pool s3 = l_dep_pool s2" using h by (auto simp: heap_only_def)
  have "int (length outs) \<le> tm_room (l_tensor_map s3)" using room(4) s3(2) s2(3) o1(3) by simp
  from register_outputs_prepared [OF s3(1) t(1) this] obtain s4 where
    ro: "foldR (register_output t) outs s3 = Inr s4" "prepared t ps e s s4" by blast
  have dp4: "l_dep_pool s4 = l_dep_pool s3"
    by (rule foldR_invariant [OF ro(1), where P = "\<lambda>u. l_dep_pool u = l_dep_pool s3"])
      (auto simp: register_output_def elim!: bindR_InrE)
  have nos: "\<not> 0 \<le> scope_depth (l_scope_stack s4)" using preparedD(1) [OF ro(2)] by (auto simp: lr_shape_def)
  let ?s5 = "l_upd t (\<lambda>d. d\<lparr>td_heap_end := hr_top (l_heap_ring s4)\<rparr>) s4"
  have prep: "prepare_task name fn ins outs pid s = Inr ((t, fut, n, ext, ps), ?s5)"
    using al op sc(1) ao ro(1) nos by (simp add: prepare_task_def)
  have "int (length ps) \<le> dep_available (l_dep_pool ?s5)" using sc(3,4) room(3) dp3 dp4 by simp
  from publish_total [OF assms(1) prepared_heap_end [OF ro(2) t(1)] this] obtain s' where
    "publish_task t n ps ?s5 = Inr s'" unfolding s2(2) by blast
  with prep room(1) o1(2) t(2) show ?thesis by (simp add: submit_worker_def)
qed

end
