(* ===== verification/Level_Protocol.thy ===== *)
theory Level_Protocol
  imports Level_Submission
begin

text \<open>
  The steps of \<^verbatim>\<open>LevelRuntime\<close>'s threads (submitter, workers, scheduler, other levels) as a step relation,
  and what holds in every state they reach: dependencies are respected, every task is enqueued and
  run once, no wake-up is lost, and no slot of the ring is ever given back.
\<close>

section \<open>Fields the invariant does not see\<close>

definition same_core :: "lrt \<Rightarrow> lrt \<Rightarrow> bool" where
  "same_core s s' \<longleftrightarrow>
     l_task_ring s' = l_task_ring s \<and> l_dep_pool s' = l_dep_pool s \<and> l_tensor_map s' = l_tensor_map s \<and>
     l_scope_stack s' = l_scope_stack s \<and> l_rq_buf s' = l_rq_buf s \<and> l_rq_capacity s' = l_rq_capacity s \<and>
     l_rq_head s' = l_rq_head s \<and> l_rq_tail s' = l_rq_tail s \<and> l_external_ready s' = l_external_ready s \<and>
     length (l_promises s') = length (l_promises s) \<and> length (l_futures s') = length (l_futures s)"

lemma same_core_views:
  assumes "same_core s s'"
  shows "l_get s' = l_get s" "l_cur s' = l_cur s" "l_live s' = l_live s" "l_status s' = l_status s"
    "l_deps s' = l_deps s" "l_outs s' = l_outs s" "ext_left s' = ext_left s" "got_of s' = got_of s"
    "rel_of s' = rel_of s"
  using assms
  by (auto simp: same_core_def fun_eq_iff l_get_def l_cur_def l_live_def l_status_def l_deps_def l_outs_def
      ext_left_def got_of_def rel_of_def)

lemma same_core_inv:
  assumes "same_core s s'"
  shows "lr_shape s' = lr_shape s" "lr_edges s' = lr_edges s" "lr_unlocked s' = lr_unlocked s"
    "lr_queue s' = lr_queue s" "credits s' got rel = credits s got rel"
  using assms same_core_views [OF assms]
  by (simp_all add: same_core_def lr_shape_def lr_edges_def lr_unlocked_def lr_queue_def credits_def)

lemma same_core_promised:
  assumes "same_core s s'" "l_promises s' = l_promises s" "l_futures s' = l_futures s"
  shows "lr_inv s' = lr_inv s"
  using same_core_inv [OF assms(1)] same_core_views [OF assms(1)] assms(2,3)
  by (simp add: lr_inv_def lr_promised_def)

section \<open>Workers\<close>

text \<open>A worker takes the oldest ready task.\<close>

lemma worker_take_inv:
  assumes "lr_inv s" "worker_take s = Inr (W_Run t s')"
  shows "lr_inv s'" "l_live s t" "l_status s t = READY" "t = l_rq_buf s ! nat (l_rq_head s)"
    "l_status s' t = RUNNING" "\<And>i. l_live s i \<Longrightarrow> i \<noteq> t \<Longrightarrow> l_status s' i = l_status s i"
    "lr_frame (s\<lparr>l_rq_head := l_rq_head s + 1\<rparr>) s'"
proof -
  note inv = lr_invD [OF assms(1)]
  let ?s1 = "s\<lparr>l_rq_head := l_rq_head s + 1\<rparr>"
  have q: "rq_ok (l_rq_buf s) (l_rq_capacity s) (l_rq_head s) (l_rq_tail s) (l_cur s) (l_status s)"
    using inv(4) by (simp add: lr_queue_def)
  have h: "l_rq_head s < l_rq_tail s" using assms(2) by (auto simp: worker_take_def split: if_splits)
  note p = rq_pop [OF q h]
  from assms(2) h p(1-2) have t: "t = l_rq_buf s ! nat (l_rq_head s)" and s': "s' = l_set_status RUNNING t ?s1"
    by (auto simp: worker_take_def dequeue_ready_def)
  show "t = l_rq_buf s ! nat (l_rq_head s)" by (fact t)
  show live: "l_live s t" using p(2,3) t by (simp add: l_live_def)
  show ready: "l_status s t = READY" using p(4) t by simp
  have view: "l_get ?s1 = l_get s" "l_cur ?s1 = l_cur s" "l_live ?s1 = l_live s" "l_status ?s1 = l_status s"
    "l_deps ?s1 = l_deps s" "l_outs ?s1 = l_outs s" "ext_left ?s1 = ext_left s"
    by (simp_all add: fun_eq_iff l_get_def l_cur_def l_live_def l_status_def l_deps_def l_outs_def ext_left_def)
  have sh1: "lr_shape ?s1" using inv(1) view(2) by (simp add: lr_shape_def)
  have e1: "lr_edges ?s1" using inv(2) view by (simp add: lr_edges_def)
  show f: "lr_frame ?s1 s'" unfolding s' by (rule status_frame)
  note v = lr_frame_views [OF f sh1]
  have g: "l_get s' i = (if t = i then (l_get s i)\<lparr>td_status := RUNNING\<rparr> else l_get s i)" if "l_live s i" for i
    using l_get_upd [OF sh1, of t i] live that view by (simp add: s' l_set_status_def)
  have st: "l_status s' i = ((l_status s)(t := RUNNING)) i" if "l_live s i" for i
    using g [OF that] by (simp add: l_status_def)
  show "l_status s' t = RUNNING" "\<And>i. l_live s i \<Longrightarrow> i \<noteq> t \<Longrightarrow> l_status s' i = l_status s i"
    using st live by auto
  have comp: "l_status s' j = COMPLETED \<longleftrightarrow> l_status s j = COMPLETED" if "l_live s j" for j
    using st [OF that] ready by auto
  have "lr_queue s'"
    unfolding lr_queue_def using rq_ok_cong [OF p(5), of "l_status s'"] st t lr_frameD(12) [OF f] view(2)
    by (simp add: s' l_set_status_def l_live_def)
  moreover have "lr_unlocked s'" using inv(3) g v(1) view by (auto simp: lr_unlocked_def)
  moreover have "lr_promised s'"
    using inv(5) comp v(1) view lr_frameD(6,7) [OF f] by (auto simp: lr_promised_def)
  moreover have "credits s' (got_of s') (rel_of s')"
  proof (rule credits_cong)
    show "credits s' (got_of s) (rel_of s)"
      using inv(6) g st v(1) view ready live by (auto simp: credits_def)
    fix i
    assume "l_live s' i"
    then have i: "l_live ?s1 i" using v by simp
    have "l_status s' j = COMPLETED \<longleftrightarrow> l_status ?s1 j = COMPLETED" if "l_live ?s1 j" for j
      using comp that view by simp
    from counts_frame [OF f sh1 e1 i this] show "got_of s' i = got_of s i \<and> rel_of s' i = rel_of s i"
      using view by (simp add: got_of_def rel_of_def)
  qed
  ultimately show "lr_inv s'"
    unfolding lr_inv_def using lr_frame_shape [OF f sh1] lr_edges_frame [OF f sh1 e1] by blast
qed

text \<open>A worker runs its task to the end; this always returns.\<close>

lemma worker_run_core:
  assumes "lr_inv s" "l_live s t" "l_status s t = RUNNING"
  shows "\<exists>s'. worker_run exec t0 t1 w t s = Inr s' \<and> same_core s s' \<and>
    l_promises s' = (l_promises s)[nat t := None] \<and> l_futures s' = (l_futures s)[nat t := True] \<and>
    l_outputs s' = l_outputs s \<and> l_ready_cells s' = fold t_mark_ready (l_outputs s ! nat t) (l_ready_cells s)"
proof -
  note inv = lr_invD [OF assms(1)]
  have "l_promises s ! nat t = Some (nat t)" "\<not> l_futures s ! nat t"
    using inv(5) assms(2,3) by (auto simp: lr_promised_def)
  then show ?thesis
    using l_slot_live [OF inv(1) assms(2)]
    by (auto simp: worker_run_def resolve_promise_def same_core_def l_trace_complete_def Let_def
        split: option.splits)
qed

text \<open>The promise of the finished task is resolved, no other.\<close>

lemma promised_after:
  assumes "lr_inv s" "l_live s t" "l_promises s' = (l_promises s)[nat t := None]"
    "l_futures s' = (l_futures s)[nat t := True]" "\<And>i. l_live s' i = l_live s i"
    "\<And>i. l_live s i \<Longrightarrow> l_status s' i = COMPLETED \<longleftrightarrow> l_status s i = COMPLETED \<or> i = t"
  shows "lr_promised s'"
  unfolding lr_promised_def assms(5)
proof (intro allI impI)
  fix i
  assume i: "l_live s i"
  note inv = lr_invD [OF assms(1)]
  have "nat t < length (l_promises s)" "nat t < length (l_futures s)"
    using assms(2) lr_shapeD(5,9,11) [OF inv(1)] by (auto simp: l_live_def)
  then have "l_promises s' ! nat i = (if i = t then None else l_promises s ! nat i)"
    "l_futures s' ! nat i = (i = t \<or> l_futures s ! nat i)"
    using assms(2-4) i by (auto simp: nth_list_update l_live_def nat_eq_iff_pos)
  with assms(6) [OF i] inv(5) i
  show "l_promises s' ! nat i = (if l_status s' i = COMPLETED then None else Some (nat i)) \<and>
    l_futures s' ! nat i = (l_status s' i = COMPLETED)" by (auto simp: lr_promised_def)
qed

lemma worker_finish_inv:
  assumes "lr_inv s" "l_live s t" "l_status s t = RUNNING"
  shows "\<exists>s'. worker_finish exec t0 t1 w t s = Inr s' \<and> lr_inv s' \<and> l_status s' t = COMPLETED \<and>
    l_cur s' = l_cur s \<and> tr_window_size (l_task_ring s') = tr_window_size (l_task_ring s) \<and>
    (\<forall>i. l_live s i \<longrightarrow> i \<noteq> t \<longrightarrow> l_status s' i = l_status s i \<or> l_status s i = PENDING \<and> l_status s' i = READY)"
proof -
  note inv = lr_invD [OF assms(1)]
  from worker_run_core [OF assms] obtain s1 where
    s1: "worker_run exec t0 t1 w t s = Inr s1" "same_core s s1"
      "l_promises s1 = (l_promises s)[nat t := None]" "l_futures s1 = (l_futures s)[nat t := True]" by blast
  note c = same_core_inv [OF s1(2)] and v = same_core_views [OF s1(2)]
  from complete_ok [of s1 t] c v inv assms obtain s' where
    s': "l_on_task_complete t s1 = Inr s'" "lr_queue s'" "lr_unlocked s'" "lr_frame s1 s'"
      "credits s' (got_of s') (rel_of s')" "l_status s' t = COMPLETED"
      "\<forall>i. l_live s i \<longrightarrow> i \<noteq> t \<longrightarrow> l_status s' i = l_status s i \<or> l_status s i = PENDING \<and> l_status s' i = READY"
    by auto
  have sh1: "lr_shape s1" "lr_edges s1" using c inv by simp_all
  note f = lr_frameD [OF s'(4)]
  have comp: "l_status s' i = COMPLETED \<longleftrightarrow> l_status s i = COMPLETED \<or> i = t" if "l_live s i" for i
    using s'(6,7) that by fastforce
  have "lr_promised s'"
    using promised_after [OF assms(1,2), of s'] f(6,7) s1(3,4) comp lr_frame_views(1) [OF s'(4) sh1(1)] v by simp
  then have "lr_inv s'"
    unfolding lr_inv_def using s' lr_frame_shape [OF s'(4) sh1(1)] lr_edges_frame [OF s'(4) sh1] by blast
  moreover have "worker_finish exec t0 t1 w t s = Inr s'" using s1(1) s'(1) by (simp add: worker_finish_def)
  moreover have "tr_window_size (l_task_ring s1) = tr_window_size (l_task_ring s)"
    using s1(2) by (simp add: same_core_def)
  ultimately show ?thesis using s'(6,7) f(10,12) v by auto
qed

section \<open>The scheduler\<close>

lemma sched_check_credit:
  assumes "l_external_ready s ! l_slot s i \<noteq> []" "l_status s i = PENDING"
    "all_ready (l_ready_cells s) (l_external_ready s ! l_slot s i) = Inr True"
  shows "sched_check i (k, s) = bindR (give_credit (length (l_external_ready s ! l_slot s i)) i
    (s\<lparr>l_external_ready := (l_external_ready s)[l_slot s i := []]\<rparr>))
    (\<lambda>(won, s). Inr (if won then k + 1 else k, s))"
proof -
  have u: "l_upd i f (s\<lparr>l_external_ready := x\<rparr>) = (l_upd i f s)\<lparr>l_external_ready := x\<rparr>" for f x
    by (simp add: l_upd_def)
  have g: "l_get (s\<lparr>l_external_ready := x\<rparr>) j = l_get s j" for s x j by (simp add: l_get_def)
  show ?thesis using assms by (simp add: sched_check_def give_credit_def Let_def l_status_def u g)
qed

text \<open>What the scheduler leaves once it has taken the external inputs of task \<open>i\<close>, before it credits them.\<close>

lemma drop_external:
  assumes "lr_inv s" "l_live s i"
  defines "s1 \<equiv> s\<lparr>l_external_ready := (l_external_ready s)[nat i := []]\<rparr>"
  shows "l_get s1 = l_get s" "l_cur s1 = l_cur s" "l_live s1 = l_live s" "l_status s1 = l_status s"
    "lr_shape s1" "lr_edges s1" "lr_queue s1" "lr_unlocked s1" "lr_promised s1" "credits s1 (got_of s) (rel_of s)"
    "rel_of s1 = rel_of s" "l_live s j \<Longrightarrow> got_of s1 j = ((got_of s)(i := got_of s i + length (l_external_ready s ! nat i))) j"
proof -
  note inv = lr_invD [OF assms(1)]
  show view: "l_get s1 = l_get s" "l_cur s1 = l_cur s" "l_live s1 = l_live s" "l_status s1 = l_status s"
    by (simp_all add: s1_def fun_eq_iff l_get_def l_cur_def l_live_def l_status_def)
  have lists: "l_deps s1 = l_deps s" "l_outs s1 = l_outs s"
    by (simp_all add: s1_def fun_eq_iff l_get_def l_deps_def l_outs_def)
  have len: "nat i < length (l_external_ready s)"
    using assms(2) lr_shapeD(5,10) [OF inv(1)] by (simp add: l_live_def)
  have ext: "ext_left s1 j = (if j = i then 0 else ext_left s j)" if "l_live s j" for j
    using that assms(2) len by (auto simp: s1_def ext_left_def nth_list_update l_live_def nat_eq_iff_pos)
  then have le: "ext_left s1 j \<le> ext_left s j" if "l_live s j" for j using that by simp
  show "lr_shape s1" using inv(1) view(2) by (simp add: lr_shape_def s1_def)
  show "lr_edges s1" unfolding lr_edges_def view lists
  proof (intro allI impI)
    fix j
    assume j: "l_live s j"
    with inv(2) le [OF j]
    show "(\<forall>p \<in> set (l_deps s j). 0 \<le> p \<and> p < j) \<and> (\<forall>c \<in> set (l_outs s j). j < c \<and> c < l_cur s) \<and>
      td_fanout_count (l_get s j) = length (l_outs s j) + 1 \<and>
      length (l_deps s j) + ext_left s1 j \<le> td_fanin_count (l_get s j) \<and>
      (\<forall>c. l_live s c \<longrightarrow> count_list (l_outs s j) c = count_list (l_deps s c) j)"
      by (auto simp: lr_edges_def)
  qed
  show "lr_queue s1" using inv(4) view by (simp add: lr_queue_def s1_def)
  show "lr_unlocked s1" "credits s1 (got_of s) (rel_of s)"
    using inv(3,6) view by (simp_all add: lr_unlocked_def credits_def)
  show "lr_promised s1" using inv(5) view by (simp add: lr_promised_def s1_def)
  show "rel_of s1 = rel_of s" using view lists by (simp add: rel_of_def fun_eq_iff)
  assume j: "l_live s j"
  have "length (l_deps s j) + ext_left s j \<le> td_fanin_count (l_get s j)"
    using inv(2) j by (simp add: lr_edges_def)
  then show "got_of s1 j = ((got_of s)(i := got_of s i + length (l_external_ready s ! nat i))) j"
    using ext [OF j] view lists by (auto simp: got_of_def) (simp add: ext_left_def)
qed

lemma sched_check_promotes:
  assumes "lr_inv s" "l_live s i" "l_status s i = PENDING" "l_external_ready s ! nat i \<noteq> []"
    "all_ready (l_ready_cells s) (l_external_ready s ! nat i) = Inr True" "sched_check i (k, s) = Inr (k', s')"
  shows "lr_inv s'" "promotes (s\<lparr>l_external_ready := (l_external_ready s)[nat i := []]\<rparr>) s'"
proof -
  let ?ext = "l_external_ready s ! nat i"
  let ?s1 = "s\<lparr>l_external_ready := (l_external_ready s)[nat i := []]\<rparr>"
  have slot: "l_slot s i = nat i" by (rule l_slot_live [OF lr_invD(1) [OF assms(1)] assms(2)])
  note dr = drop_external [OF assms(1,2)]
  have live1: "l_live ?s1 i" "0 < length ?ext" using dr(3) assms(2,4) by auto
  have "got_of s i + length ?ext \<le> td_fanin_count (l_get ?s1 i)"
    using counts_bound(1) [OF dr(6) live1(1)] dr(12) [OF assms(2)] by simp
  from give_credit_ok [OF dr(5,7,10) live1 this] obtain b s2 where
    s2: "give_credit (length ?ext) i ?s1 = Inr (b, s2)" "lr_queue s2" "promotes ?s1 s2"
      "credits s2 ((got_of s)(i := got_of s i + length ?ext)) (rel_of s)" by blast
  have e: "s' = s2" using sched_check_credit [of s i k] assms slot s2(1) by (auto split: if_splits)
  have f: "lr_frame ?s1 s2" using s2(3) by (simp add: promotes_def)
  note v = lr_frame_views [OF f dr(5)]
  have "credits s2 (got_of s2) (rel_of s2)"
  proof (rule credits_cong [OF s2(4)])
    fix j
    assume "l_live s2 j"
    then have j: "l_live ?s1 j" using v by simp
    from counts_frame [OF f dr(5,6) j promotes_completed [OF s2(3)]] dr(12) [of j] j dr(3,11)
    show "got_of s2 j = ((got_of s)(i := got_of s i + length ?ext)) j \<and> rel_of s2 j = rel_of s j"
      by simp
  qed
  moreover have "lr_promised s2"
    using dr(9) promotes_completed [OF s2(3)] v(1) lr_frameD(6,7) [OF f] by (auto simp: lr_promised_def)
  ultimately show "lr_inv s'"
    unfolding e lr_inv_def using s2(2) promotes_unlocked [OF s2(3) dr(5,8)] lr_frame_shape [OF f dr(5)]
      lr_edges_frame [OF f dr(5,6)] by blast
  show "promotes ?s1 s'" unfolding e by (rule s2(3))
qed

lemma sched_check_inv:
  assumes "lr_inv s" "l_live s i" "sched_check i (k, s) = Inr (k', s')"
  shows "lr_inv s'" "l_cur s' = l_cur s" "tr_window_size (l_task_ring s') = tr_window_size (l_task_ring s)"
    "\<And>j. l_live s j \<Longrightarrow> l_status s' j = l_status s j \<or> l_status s j = PENDING \<and> l_status s' j = READY"
proof -
  let ?ext = "l_external_ready s ! nat i"
  have slot: "l_slot s i = nat i" by (rule l_slot_live [OF lr_invD(1) [OF assms(1)] assms(2)])
  have main: "lr_inv s' \<and> l_cur s' = l_cur s \<and> tr_window_size (l_task_ring s') = tr_window_size (l_task_ring s) \<and>
    (\<forall>j. l_live s j \<longrightarrow> l_status s' j = l_status s j \<or> l_status s j = PENDING \<and> l_status s' j = READY)"
  proof (cases "l_status s i = PENDING \<and> ?ext \<noteq> [] \<and> all_ready (l_ready_cells s) ?ext = Inr True")
    case False
    with assms(3) slot have "s' = s"
      by (auto simp: sched_check_def Let_def l_status_def split: if_splits elim!: bindR_InrE)
    with assms(1) show ?thesis by simp
  next
    case True
    then have "l_status s i = PENDING" "?ext \<noteq> []" "all_ready (l_ready_cells s) ?ext = Inr True" by auto
    note pr = sched_check_promotes [OF assms(1,2) this assms(3)]
    have f: "lr_frame (s\<lparr>l_external_ready := (l_external_ready s)[nat i := []]\<rparr>) s'"
      using pr(2) by (simp add: promotes_def)
    show ?thesis
      using pr lr_frameD(10,12) [OF f] drop_external(2-4) [OF assms(1,2)] by (auto simp: promotes_def)
  qed
  from main show "lr_inv s'" "l_cur s' = l_cur s" "tr_window_size (l_task_ring s') = tr_window_size (l_task_ring s)"
    "\<And>j. l_live s j \<Longrightarrow> l_status s' j = l_status s j \<or> l_status s j = PENDING \<and> l_status s' j = READY" by blast+
qed

section \<open>Submission\<close>

lemma submit_worker_inv:
  assumes "lr_inv s" "has_space (l_task_ring s)" "int (length outs) \<le> tm_room (l_tensor_map s)"
    "submit_worker idle name fn ins outs pid s = Inr (fut, s')"
  shows "lr_inv s'" "fut = nat (l_cur s)" "l_cur s' = l_cur s + 1"
    "tr_window_size (l_task_ring s') = tr_window_size (l_task_ring s)"
    "l_deps s' (l_cur s) = rev (List.map_filter (producer_of (l_tensor_map s)) ins)"
    "ext_left s' (l_cur s) = length (filter (waits_outside (l_tensor_map s) (l_ready_cells s)) ins)"
    "tm_abs (l_tensor_map s') =
       (\<lambda>h. if h \<in> t_handle ` set outs then Some (l_cur s) else tm_abs (l_tensor_map s) h)"
    "\<And>i. l_live s i \<Longrightarrow> l_status s' i = l_status s i"
    "l_status s' (l_cur s) = PENDING \<or> l_status s' (l_cur s) = READY"
    "tm_room (l_tensor_map s') = tm_room (l_tensor_map s) - int (length outs)"
proof -
  from assms(2,4) obtain t n ext ps s1 where
    pr: "prepare_task name fn ins outs pid s = Inr ((t, fut, n, ext, ps), s1)"
    and pu: "publish_task t n ps s1 = Inr s'"
    by (auto simp: submit_worker_def elim!: bindR_InrE)
  note p = prepare_task_prepared [OF lr_invD(1) [OF assms(1)] assms(3) pr]
  have t: "t = l_cur s" using preparedD(2) [OF p(1)] .
  note q = publish_inv [OF assms(1) p(1) pu [unfolded p(2)]]
  from q [unfolded t] p(3-6) [unfolded t] show "lr_inv s'" "fut = nat (l_cur s)" "l_cur s' = l_cur s + 1"
    "tr_window_size (l_task_ring s') = tr_window_size (l_task_ring s)"
    "l_deps s' (l_cur s) = rev (List.map_filter (producer_of (l_tensor_map s)) ins)"
    "ext_left s' (l_cur s) = length (filter (waits_outside (l_tensor_map s) (l_ready_cells s)) ins)"
    "tm_abs (l_tensor_map s') =
       (\<lambda>h. if h \<in> t_handle ` set outs then Some (l_cur s) else tm_abs (l_tensor_map s) h)"
    "\<And>i. l_live s i \<Longrightarrow> l_status s' i = l_status s i"
    "l_status s' (l_cur s) = PENDING \<or> l_status s' (l_cur s) = READY"
    "tm_room (l_tensor_map s') = tm_room (l_tensor_map s) - int (length outs)" by simp_all
qed

text \<open>A task without inputs is ready at once and uses no dependency cell.\<close>

lemma submit_no_inputs:
  assumes "submit_worker idle name fn [] outs pid s = Inr (fut, s')" "has_space (l_task_ring s)"
  shows "l_dep_pool s' = l_dep_pool s"
proof -
  from assms obtain t n ext ps u where pr: "prepare_task name fn [] outs pid s = Inr ((t, fut, n, ext, ps), u)"
    and pu: "publish_task t n ps u = Inr s'" by (auto simp: submit_worker_def elim!: bindR_InrE)
  obtain t1 tr where al: "task_alloc (l_task_ring s) = Inr (t1, tr)"
    using pr by (auto simp: prepare_task_def elim!: bindR_InrE)
  obtain f1 s1 where op: "open_slot t1 name fn outs pid (s\<lparr>l_task_ring := tr\<rparr>) = (f1, s1)"
    by (cases "open_slot t1 name fn outs pid (s\<lparr>l_task_ring := tr\<rparr>)")
  from pr al op obtain s2 s3 s4 where ao: "alloc_outputs t1 outs s1 = Inr s2"
    and ro: "foldR (register_output t1) outs s2 = Inr s3"
    and sc: "(if 0 \<le> scope_depth (l_scope_stack s3)
       then bindR (stack_add_task t1 (l_scope_stack s3)) (\<lambda>ss. Inr (s3\<lparr>l_scope_stack := ss\<rparr>)) else Inr s3) = Inr s4"
    and eq: "t1 = t" "n = 0" "ps = []" "u = l_upd t (\<lambda>d. d\<lparr>td_heap_end := hr_top (l_heap_ring s4)\<rparr>) s4"
    unfolding prepare_task_def by (simp add: bindR_Inr_iff) (elim exE conjE, auto)
  have "l_dep_pool s1 = l_dep_pool s" using op by (auto simp: open_slot_def Let_def l_upd_def)
  moreover have "l_dep_pool s2 = l_dep_pool s1" using alloc_outputs_heap_only [OF ao] by (auto simp: heap_only_def)
  moreover have "l_dep_pool s3 = l_dep_pool s2"
    by (rule foldR_invariant [OF ro, where P = "\<lambda>x. l_dep_pool x = l_dep_pool s2"])
      (auto simp: register_output_def elim!: bindR_InrE)
  moreover have "l_dep_pool s4 = l_dep_pool s3" using sc by (auto split: if_splits elim!: bindR_InrE)
  moreover have "l_dep_pool s' = l_dep_pool u"
    using pu eq(2) by (auto simp: publish_task_def enqueue_ready_def Let_def l_set_status_def elim!: bindR_InrE)
  ultimately show ?thesis using eq(4) by simp
qed

section \<open>The step relation\<close>

text \<open>
  One step is one call of a thread: a submission that finds room (a full ring is waited for, which is
  no step), a worker that takes a task, a worker that finishes one, one iteration of the scheduler's
  scan, a new tensor, another level that marks a tensor ready, start and stop. Between the steps the
  threads interleave freely. A submission counts as long as the tensor map has unused entries.
\<close>

inductive lr_step :: "lrt \<Rightarrow> lrt \<Rightarrow> bool" where
  submit: "has_space (l_task_ring s) \<Longrightarrow> int (length outs) \<le> tm_room (l_tensor_map s) \<Longrightarrow>
    submit_worker idle name fn ins outs pid s = Inr (fut, s') \<Longrightarrow> lr_step s s'"
| take: "worker_take s = Inr (W_Run t s') \<Longrightarrow> lr_step s s'"
| finish: "l_live s t \<Longrightarrow> td_status (l_get s t) = RUNNING \<Longrightarrow> worker_finish exec t0 t1 w t s = Inr s' \<Longrightarrow> lr_step s s'"
| scan: "l_live s i \<Longrightarrow> sched_check i (k, s) = Inr (k', s') \<Longrightarrow> lr_step s s'"
| tensor: "make_tensor n s = (x, s') \<Longrightarrow> lr_step s s'"
| outside: "lr_step s (s\<lparr>l_ready_cells := (l_ready_cells s)[a := True]\<rparr>)"
| start: "lr_step s (lr_start s)"
| stop: "lr_step s (lr_stop_request s)"

inductive_cases lr_stepE: "lr_step s s'"

definition lr_fits :: "lr_config \<Rightarrow> bool" where
  "lr_fits cfg \<longleftrightarrow> lc_task_ring_window cfg \<le> lc_ready_queue_capacity cfg \<and>
     lc_ready_queue_capacity cfg \<le> INT32_MAX \<and> lc_tensormap_buckets cfg \<le> INT32_MAX \<and>
     0 < lc_tensormap_pool cfg \<and> lc_tensormap_pool cfg \<le> INT32_MAX"

lemma lr_new_inv:
  assumes "lr_new level st wt cfg = Inr s" "lr_fits cfg"
  shows "lr_inv s" "l_cur s = 0" "tr_window_size (l_task_ring s) = lc_task_ring_window cfg"
    "tm_room (l_tensor_map s) = lc_tensormap_pool cfg" "tm_abs (l_tensor_map s) = Map.empty"
    "dep_available (l_dep_pool s) = lc_dep_pool_capacity cfg"
proof -
  from assms(1) obtain tr dp tm where
    tr: "task_ring_init (lc_task_ring_window cfg) = Inr tr"
    and dp: "dep_init (lc_dep_pool_capacity cfg) dep_new = Inr dp"
    and tm: "tm_init (lc_tensormap_buckets cfg) (lc_tensormap_pool cfg) tm_new = Inr tm"
    and s: "l_task_ring s = tr" "l_dep_pool s = dp" "l_tensor_map s = tm"
      "l_scope_stack s = scope_init 8 (lc_task_ring_window cfg * 8) scope_new"
      "l_rq_buf s = replicate (nat (lc_ready_queue_capacity cfg)) (- 1)" "l_rq_head s = 0" "l_rq_tail s = 0"
      "l_rq_capacity s = lc_ready_queue_capacity cfg" "l_promises s = replicate (nat (lc_task_ring_window cfg)) None"
      "l_external_ready s = replicate (nat (lc_task_ring_window cfg)) []" "l_futures s = []"
    by (auto simp: lr_new_def Let_def elim!: bindR_InrE)
  note w = task_ring_init_wf [OF tr]
  have descs: "tr_descriptors tr = replicate (nat (lc_task_ring_window cfg)) fresh_descriptor"
    using tr by (auto simp: task_ring_init_def elim!: bindR_InrE)
  have "0 < lc_dep_pool_capacity cfg" using dp by (auto simp: dep_init_def elim!: bindR_InrE)
  with dep_init_wf [of "lc_dep_pool_capacity cfg" dep_new] dp
  have d: "dep_wf dp" "dep_available dp = lc_dep_pool_capacity cfg" by auto
  have m: "tm_inv tm (- 1)" "tm_room tm = lc_tensormap_pool cfg" "tm_last_task_alive tm = 0" "tm_abs tm = Map.empty"
    using tm_init_inv [OF tm, of "- 1"] assms(2) by (auto simp: lr_fits_def)
  show cur: "l_cur s = 0" using w by (simp add: l_cur_def s)
  show "tr_window_size (l_task_ring s) = lc_task_ring_window cfg" "tm_room (l_tensor_map s) = lc_tensormap_pool cfg"
    "tm_abs (l_tensor_map s) = Map.empty" "dep_available (l_dep_pool s) = lc_dep_pool_capacity cfg"
    using w m d(2) by (simp_all add: s)
  have none: "\<not> l_live s i" for i using cur by (auto simp: l_live_def)
  have "lr_shape s"
    unfolding lr_shape_def using w d m dep.nil_chain [OF d(1), of "- 1"] assms(2) cur
    by (auto simp: s descs fresh_descriptor_def scope_depth_def scope_init_def lr_fits_def)
  moreover have "0 \<le> lc_ready_queue_capacity cfg"
    using assms(2) w by (auto simp: lr_fits_def ring_wf_def)
  then have "lr_queue s"
    using assms(2) by (auto simp: lr_queue_def rq_ok_def s cur lr_fits_def)
  ultimately show "lr_inv s"
    using none by (simp add: lr_inv_def lr_edges_def lr_unlocked_def lr_promised_def credits_def)
qed

lemma lr_step_inv:
  assumes "lr_step s s'" "lr_inv s"
  shows "lr_inv s' \<and> l_cur s \<le> l_cur s' \<and> tr_window_size (l_task_ring s') = tr_window_size (l_task_ring s)"
  using assms(1)
proof (cases rule: lr_step.cases)
  case (submit outs idle name fn ins pid fut)
  note q = submit_worker_inv [OF assms(2) submit]
  with q(1,3,4) show ?thesis by simp
next
  case (take t)
  note q = worker_take_inv [OF assms(2) take]
  from lr_frameD(10,12) [OF q(7)] have "l_cur s' = l_cur s" "tr_window_size (l_task_ring s') = tr_window_size (l_task_ring s)"
    by (simp_all add: l_cur_def)
  with q(1) show ?thesis by simp
next
  case (finish t exec t0 t1 w)
  then have "l_status s t = RUNNING" by (simp add: l_status_def)
  from worker_finish_inv [OF assms(2) finish(1) this, of exec t0 t1 w] finish(3) show ?thesis by auto
next
  case (scan i k k')
  from sched_check_inv(1-3) [OF assms(2) scan] show ?thesis by simp
next
  case (tensor n x)
  then have "same_core s s'" "l_promises s' = l_promises s" "l_futures s' = l_futures s"
    "l_task_ring s' = l_task_ring s"
    by (auto simp: make_tensor_def same_core_def alloc_tensor_handle_def)
  with same_core_promised same_core_views(2) assms(2) show ?thesis by simp
next
  case (outside a)
  then have "same_core s s'" "l_promises s' = l_promises s" "l_futures s' = l_futures s"
    "l_task_ring s' = l_task_ring s" by (auto simp: same_core_def)
  with same_core_promised same_core_views(2) assms(2) show ?thesis by simp
next
  case start
  then have "same_core s s'" "l_promises s' = l_promises s" "l_futures s' = l_futures s"
    "l_task_ring s' = l_task_ring s" by (auto simp: same_core_def lr_start_def)
  with same_core_promised same_core_views(2) assms(2) show ?thesis by simp
next
  case stop
  then have "same_core s s'" "l_promises s' = l_promises s" "l_futures s' = l_futures s"
    "l_task_ring s' = l_task_ring s" by (auto simp: same_core_def lr_stop_request_def)
  with same_core_promised same_core_views(2) assms(2) show ?thesis by simp
qed

lemma lr_steps_inv:
  assumes "lr_step\<^sup>*\<^sup>* s s'" "lr_inv s"
  shows "lr_inv s' \<and> l_cur s \<le> l_cur s' \<and> tr_window_size (l_task_ring s') = tr_window_size (l_task_ring s)"
  using assms(1)
proof (induction rule: rtranclp_induct)
  case base
  with assms(2) show ?case by simp
next
  case (step u v)
  with lr_step_inv [OF step.hyps(2)] show ?case by auto
qed

lemma rq_ready:
  assumes "rq_ok buf cap h t n st" "0 \<le> i" "i < n" "st i = READY"
  shows "h < t"
proof -
  have "i \<in> set (take (nat t) buf)" using assms by (auto simp: rq_ok_def)
  then obtain k where k: "k < nat t" "buf ! k = i" by (auto simp: in_set_conv_nth)
  with assms have "nat h \<le> k" by (auto simp: rq_ok_def)
  with k(1) show ?thesis by linarith
qed

lemma worker_take_ready:
  assumes "lr_inv s" "l_live s i" "l_status s i = READY"
  shows "\<exists>t s'. worker_take s = Inr (W_Run t s')"
proof -
  have q: "rq_ok (l_rq_buf s) (l_rq_capacity s) (l_rq_head s) (l_rq_tail s) (l_cur s) (l_status s)"
    using lr_invD(4) [OF assms(1)] by (simp add: lr_queue_def)
  have h: "l_rq_head s < l_rq_tail s" using rq_ready [OF q, of i] assms(2,3) by (simp add: l_live_def)
  from rq_pop [OF q h] h show ?thesis by (simp add: worker_take_def dequeue_ready_def)
qed

text \<open>A pending task that waits for nothing outside has a producer that is not completed.\<close>

lemma pending_waits:
  assumes "lr_inv s" "l_live s i" "l_status s i = PENDING" "ext_left s i = 0"
  shows "\<exists>p \<in> set (l_deps s i). l_status s p \<noteq> COMPLETED"
proof (rule ccontr)
  note inv = lr_invD [OF assms(1)]
  assume "\<not> ?thesis"
  then have "filter (\<lambda>p. l_status s p = COMPLETED) (l_deps s i) = l_deps s i" by (simp add: filter_id_conv)
  moreover have "length (l_deps s i) + ext_left s i \<le> td_fanin_count (l_get s i)"
    using inv(2) assms(2) by (simp add: lr_edges_def)
  ultimately have "got_of s i = td_fanin_count (l_get s i)" using assms(4) by (simp add: got_of_def)
  with inv(6) assms(2,3) show False by (auto simp: credits_def)
qed

lemma started_has_all:
  assumes "lr_inv s" "l_live s i" "l_status s i \<noteq> PENDING"
  shows "ext_left s i = 0" "\<forall>p \<in> set (l_deps s i). l_status s p = COMPLETED"
proof -
  note inv = lr_invD [OF assms(1)]
  let ?f = "filter (\<lambda>p. l_status s p = COMPLETED) (l_deps s i)"
  have "got_of s i = td_fanin_count (l_get s i)"
    using inv(6) assms(2,3) unfolding credits_def by (metis le_neq_implies_less)
  moreover have "length (l_deps s i) + ext_left s i \<le> td_fanin_count (l_get s i)"
    using inv(2) assms(2) by (simp add: lr_edges_def)
  moreover have "length ?f \<le> length (l_deps s i)" by simp
  ultimately have e: "ext_left s i = 0" and l: "length ?f = length (l_deps s i)" unfolding got_of_def by linarith+
  show "ext_left s i = 0" by (fact e)
  show "\<forall>p \<in> set (l_deps s i). l_status s p = COMPLETED" using l by (metis (mono_tags, lifting) filter_True length_filter_less less_irrefl)
qed

lemma all_complete_or_busy:
  assumes "lr_inv s" "\<And>i. l_live s i \<Longrightarrow> l_status s i \<noteq> READY \<and> l_status s i \<noteq> RUNNING"
    "\<And>i. l_live s i \<Longrightarrow> l_status s i = PENDING \<Longrightarrow> ext_left s i = 0" "l_live s i"
  shows "l_status s i = COMPLETED"
  using assms(4)
proof (induction "nat i" arbitrary: i rule: less_induct)
  case less
  note inv = lr_invD [OF assms(1)]
  have "l_status s p = COMPLETED" if "p \<in> set (l_deps s i)" for p
  proof -
    have "0 \<le> p \<and> p < i" using inv(2) less.prems that unfolding lr_edges_def by blast
    with less lr_edges_live(1) [OF inv(2) less.prems] that show ?thesis by auto
  qed
  then have "l_status s i \<noteq> PENDING" using pending_waits [OF assms(1) less.prems] assms(3) [OF less.prems] by metis
  moreover have "l_status s i \<noteq> CONSUMED" using inv(6) less.prems by (simp add: credits_def)
  ultimately show ?case using assms(2) [OF less.prems] by (cases "l_status s i") auto
qed

section \<open>A completion that is interrupted\<close>

text \<open>\<^verbatim>\<open>on_task_complete\<close> after its first line, for a task that ran to its end.\<close>

lemma marked_mid:
  assumes "lr_inv s" "l_live s t" "l_status s t = RUNNING" "worker_run exec t0 t1 w t s = Inr s1"
    and s2: "s2 = l_set_status COMPLETED t s1"
  shows "lr_mid s2 (got_of s) (rel_of s)" "l_cur s2 = l_cur s" "l_tensor_map s2 = l_tensor_map s"
    "l_outs s2 = l_outs s" "l_deps s2 = l_deps s"
    "\<And>i. l_live s i \<Longrightarrow> l_status s2 i = ((l_status s)(t := COMPLETED)) i"
    "\<And>i. l_live s i \<Longrightarrow> got_of s2 i = got_of s i + count_list (l_outs s t) i \<and>
       rel_of s2 i = rel_of s i + count_list (l_deps s t) i"
proof -
  note inv = lr_invD [OF assms(1)]
  from worker_run_core [OF assms(1-3), of exec t0 t1 w] assms(4) have
    s1: "same_core s s1" "l_promises s1 = (l_promises s)[nat t := None]" "l_futures s1 = (l_futures s)[nat t := True]"
    by auto
  note c = same_core_inv [OF s1(1)] and v = same_core_views [OF s1(1)]
  have m: "lr_shape s1" "lr_edges s1" "lr_unlocked s1" "lr_queue s1" "credits s1 (got_of s) (rel_of s)"
    "l_live s1 t" "l_status s1 t = RUNNING" using c v inv assms(2,3) by simp_all
  note k = mark_completed [OF m s2]
  note f = lr_frame_views [OF k(1) m(1)]
  show st: "l_status s2 i = ((l_status s)(t := COMPLETED)) i" if "l_live s i" for i
    using k(7) that v by simp
  have "lr_promised s2"
    using promised_after [OF assms(1,2), of s2] lr_frameD(6,7) [OF k(1)] s1(2,3) st f(1) v by auto
  with k(2-6) show "lr_mid s2 (got_of s) (rel_of s)" by (simp add: lr_mid_def)
  show "l_cur s2 = l_cur s" using lr_frameD(12) [OF k(1)] v by simp
  show "l_tensor_map s2 = l_tensor_map s" using lr_frameD(2) [OF k(1)] s1(1) by (simp add: same_core_def)
  show "l_outs s2 = l_outs s" "l_deps s2 = l_deps s" using f(2,3) v by (auto simp: fun_eq_iff)
  show "got_of s2 i = got_of s i + count_list (l_outs s t) i \<and> rel_of s2 i = rel_of s i + count_list (l_deps s t) i"
    if "l_live s i" for i
    using counts_complete [OF k(1) m(1,2) _ m(6), of i] that m(7) k(7) v by auto
qed

lemma race_submit:
  assumes "lr_inv s" "l_live s p" "l_live s q" "p \<noteq> q" "l_status s p = RUNNING" "l_status s q \<noteq> COMPLETED"
    "worker_run exec t0 t1 w p s = Inr s1" and s2: "s2 = l_set_status COMPLETED p s1"
    and x: "producer_of (l_tensor_map s) x = Some p" and y: "producer_of (l_tensor_map s) y = Some q"
    and room: "has_space (l_task_ring s2)" "int (length outs) \<le> tm_room (l_tensor_map s2)"
    and sub: "submit_worker idle name fn [x, y] outs pid s2 = Inr (fut, s3)"
  shows "lr_mid s3 ((got_of s)(l_cur s := 1)) ((rel_of s)(l_cur s := 0))" "l_cur s3 = l_cur s + 1"
    "td_fanin_count (l_get s3 (l_cur s)) = 2" "l_deps s3 (l_cur s) = [q, p]"
    "l_outs s3 p = l_cur s # l_outs s p" "l_deps s3 p = l_deps s p"
    "\<And>i. l_live s i \<Longrightarrow> l_status s3 i = ((l_status s)(p := COMPLETED)) i \<and>
       td_fanin_count (l_get s3 i) = td_fanin_count (l_get s2 i) \<and>
       td_fanout_count (l_get s2 i) \<le> td_fanout_count (l_get s3 i)"
    "td_fanout_count (l_get s3 (l_cur s)) = 1"
    "l_status s3 (l_cur s) = PENDING \<or> l_status s3 (l_cur s) = READY"
proof -
  note k = marked_mid [OF assms(1,2,5,7) s2]
  note mid = lr_midD [OF k(1)]
  from room sub obtain t n ext ps u where pr: "prepare_task name fn [x, y] outs pid s2 = Inr ((t, fut, n, ext, ps), u)"
    and pu: "publish_task t n ps u = Inr s3" by (auto simp: submit_worker_def elim!: bindR_InrE)
  note a = prepare_task_prepared [OF mid(1) room(2) pr]
  have t: "t = l_cur s" using preparedD(2) [OF a(1)] k(2) by simp
  have ps: "ps = [p, q]" using a(3) x y k(3) by (simp add: map_filter_simps)
  have "\<not> waits_outside (l_tensor_map s2) (l_ready_cells s2) x" "\<not> waits_outside (l_tensor_map s2) (l_ready_cells s2) y"
    using x y k(3) by (auto simp: waits_outside_def producer_of_def split: if_splits)
  then have e: "length (filter (waits_outside (l_tensor_map s2) (l_ready_cells s2)) [x, y]) = 0" by simp
  note a1 = a(1) [unfolded e ps] and n = a(2) [unfolded e ps]
  from publish_mid [OF k(1) a1] pu n ps obtain b where b: "pre_ready t [p, q] 0 s2 b" "lr_frame b s3"
    and m: "lr_mid s3 ((got_of s)(t := length (filter (\<lambda>p. l_status s2 p = COMPLETED) [p, q]))) ((rel_of s)(t := 0))"
    and st: "\<forall>i. l_live s2 i \<longrightarrow> l_status s3 i = l_status s2 i" and stt: "l_status s3 t = PENDING \<or> l_status s3 t = READY"
    by auto
  note r = pre_readyD [OF b(1)]
  note v = lr_frame_views [OF b(2) r(1)]
  have lv: "l_live s2 i = l_live s i" for i using k(2) by (simp add: l_live_def)
  have "l_status s2 p = COMPLETED" "l_status s2 q \<noteq> COMPLETED" using k(6) assms(2-4,6) by auto
  then have "length (filter (\<lambda>p. l_status s2 p = COMPLETED) [p, q]) = 1" by simp
  with m t show "lr_mid s3 ((got_of s)(l_cur s := 1)) ((rel_of s)(l_cur s := 0))" by simp
  show "l_cur s3 = l_cur s + 1" using lr_frameD(12) [OF b(2)] r(4) t by simp
  show "td_fanin_count (l_get s3 (l_cur s)) = 2" "l_deps s3 (l_cur s) = [q, p]" "td_fanout_count (l_get s3 (l_cur s)) = 1"
    using r(12,16,17) v(2,5,6) t by simp_all
  show "l_outs s3 p = l_cur s # l_outs s p" "l_deps s3 p = l_deps s p"
    using r(21,22) [of p] v(2,3) assms(2,4) lv k(4,5) t by simp_all
  show "l_status s3 i = ((l_status s)(p := COMPLETED)) i \<and> td_fanin_count (l_get s3 i) = td_fanin_count (l_get s2 i) \<and>
       td_fanout_count (l_get s2 i) \<le> td_fanout_count (l_get s3 i)" if "l_live s i" for i
    using st k(6) [OF that] r(24,25) [of i] v(5,6) that lv by simp
  show "l_status s3 (l_cur s) = PENDING \<or> l_status s3 (l_cur s) = READY" using stt t by simp
qed

lemma race_propagate:
  assumes "lr_inv s" "l_live s p" "l_live s q" "p \<noteq> q" "l_status s p = RUNNING" "l_status s q \<noteq> COMPLETED"
    "worker_run exec t0 t1 w p s = Inr s1" and s2: "s2 = l_set_status COMPLETED p s1"
    and x: "producer_of (l_tensor_map s) x = Some p" and y: "producer_of (l_tensor_map s) y = Some q"
    and room: "has_space (l_task_ring s2)" "int (length outs) \<le> tm_room (l_tensor_map s2)"
    and sub: "submit_worker idle name fn [x, y] outs pid s2 = Inr (fut, s3)"
  shows "\<exists>s4. l_propagate p s3 = Inr s4 \<and> l_status s4 (l_cur s) = READY \<and> l_status s4 q \<noteq> COMPLETED \<and>
    q \<in> set (l_deps s4 (l_cur s))"
proof -
  note k = marked_mid [OF assms(1,2,5,7) s2]
  note r = race_submit [OF assms]
  note mid = lr_midD [OF r(1)]
  let ?c = "l_cur s"
  have c0: "0 \<le> ?c" by (rule lr_shapeD(4) [OF lr_invD(1) [OF assms(1)]])
  note lv = live_Suc [OF refl c0 r(2)]
  have cp: "l_live s3 p" using lv assms(2) by simp
  have no: "count_list (l_outs s p) ?c = 0" "count_list (l_deps s p) ?c = 0"
    using lr_edges_live [OF lr_invD(2) [OF assms(1)] assms(2)] by (auto simp: count_list_0_iff l_live_def)
  have lv2: "l_live s2 i = l_live s i" for i using k(2) by (simp add: l_live_def)
  have bound: "got_of s i + count_list (l_outs s p) i \<le> td_fanin_count (l_get s2 i)"
    "rel_of s i + count_list (l_deps s p) i < td_fanout_count (l_get s2 i)" if "l_live s i" for i
    using counts_bound [OF lr_midD(2) [OF k(1)], of i] k(7) [OF that] lv2 that by auto
  have c_not: "\<not> l_live s ?c" by (simp add: l_live_def)
  have "((got_of s)(?c := 1)) i + count_list (l_outs s3 p) i \<le> td_fanin_count (l_get s3 i)" if "l_live s3 i" for i
    using that lv [of i] r(3,5) r(7) [of i] bound(1) [of i] no(1) c_not by auto
  moreover have "((rel_of s)(?c := 0)) i + count_list (l_deps s3 p) i < td_fanout_count (l_get s3 i)" if "l_live s3 i" for i
    using that lv [of i] r(6,8) r(7) [of i] bound(2) [of i] no(2) c_not by fastforce
  ultimately obtain s4 where s4: "l_propagate p s3 = Inr s4" "promotes s3 s4"
    "credits s4 (\<lambda>i. ((got_of s)(?c := 1)) i + count_list (l_outs s3 p) i)
       (\<lambda>i. ((rel_of s)(?c := 0)) i + count_list (l_deps s3 p) i)"
    using propagate_credits [OF mid(1-4) cp mid(6)] by blast
  have f: "lr_frame s3 s4" using s4(2) by (simp add: promotes_def)
  note v = lr_frame_views [OF f mid(1)]
  have lc: "l_live s3 ?c" using lv by simp
  have "l_status s4 ?c \<noteq> PENDING"
    using s4(3) lc v(1,5) r(3,5) by (auto simp: credits_def)
  moreover have "l_status s4 ?c = l_status s3 ?c \<or> l_status s4 ?c = READY" using s4(2) lc by (auto simp: promotes_def)
  ultimately have "l_status s4 ?c = READY" using r(9) by auto
  moreover have "l_status s4 q \<noteq> COMPLETED"
    using promotes_completed [OF s4(2), of q] lv [of q] assms(3,4,6) r(7) [OF assms(3)] by auto
  moreover have "q \<in> set (l_deps s4 ?c)" using v(2) r(4) by simp
  ultimately show ?thesis using s4(1) by blast
qed

section \<open>A small run\<close>

lemma lr_has_space: "lr_shape s \<Longrightarrow> has_space (l_task_ring s) \<longleftrightarrow> l_cur s < tr_window_size (l_task_ring s)"
  by (simp add: has_space_def active_count_def l_cur_def lr_shapeD)

lemma default_fits: "lr_fits lr_config_default"
  by (simp add: lr_fits_def lr_config_default_def)

lemma default_level: "\<exists>s. lr_new 3 1 2 lr_config_default = Inr s"
  by (simp add: lr_new_def lr_config_default_def task_ring_init_def dep_init_def tm_init_def)

definition tensor0 :: "u64 \<Rightarrow> linqu_tensor" where
  "tensor0 h = \<lparr>t_handle = h, t_count = 0, t_data_ref = Some 0, t_ready = Some 0\<rparr>"

text \<open>One more task without inputs that produces an empty tensor, taken by a worker at once.\<close>

lemma one_more:
  assumes "lr_inv s" "l_cur s < tr_window_size (l_task_ring s)" "tr_window_size (l_task_ring s) \<le> INT32_MAX"
    "0 \<le> dep_available (l_dep_pool s)" "0 < tm_room (l_tensor_map s)"
  shows "\<exists>s'. lr_step s s' \<and> lr_inv s' \<and> l_cur s' = l_cur s + 1 \<and>
    tr_window_size (l_task_ring s') = tr_window_size (l_task_ring s) \<and> l_dep_pool s' = l_dep_pool s \<and>
    tm_room (l_tensor_map s') = tm_room (l_tensor_map s) - 1 \<and>
    tm_abs (l_tensor_map s') = (tm_abs (l_tensor_map s))(h \<mapsto> l_cur s) \<and>
    (\<forall>i. l_live s i \<longrightarrow> l_status s' i = l_status s i) \<and> l_status s' (l_cur s) = READY"
proof -
  note inv = lr_invD [OF assms(1)]
  have sp: "has_space (l_task_ring s)" using lr_has_space [OF inv(1)] assms(2) by simp
  have "lr_room [] [tensor0 h] s"
    using assms sp by (simp add: lr_room_def outputs_fit_def total_output_bytes_def tensor0_def l_cur_def)
  from submit_worker_total [OF _ this, of "got_of s" "rel_of s" "\<lambda>_. Inr" "''A''" 0 "- 1"] assms(1) obtain s' where
    s': "submit_worker (\<lambda>_. Inr) ''A'' 0 [] [tensor0 h] (- 1) s = Inr (nat (l_cur s), s')" by (auto simp: lr_mid_inv)
  have room: "int (length [tensor0 h]) \<le> tm_room (l_tensor_map s)" using assms(5) by simp
  note q = submit_worker_inv [OF assms(1) sp room s']
  have "l_live s' (l_cur s)" using q(3) lr_shapeD(4) [OF inv(1)] by (simp add: l_live_def)
  moreover have "l_deps s' (l_cur s) = []" "ext_left s' (l_cur s) = 0" using q(5,6) by (simp_all add: map_filter_simps)
  ultimately have "l_status s' (l_cur s) \<noteq> PENDING" using pending_waits [OF q(1)] by force
  moreover have "tm_abs (l_tensor_map s') = (tm_abs (l_tensor_map s))(h \<mapsto> l_cur s)"
    using q(7) by (auto simp: tensor0_def fun_eq_iff)
  moreover have "lr_step s s'" by (rule lr_step.submit [OF sp room s'])
  ultimately show ?thesis using q submit_no_inputs [OF s' sp] by auto
qed

lemma take_oldest:
  assumes "lr_inv s" "l_live s i" "l_status s i = READY" "\<And>j. l_live s j \<Longrightarrow> l_status s j = READY \<Longrightarrow> j = i"
  shows "\<exists>s'. lr_step s s' \<and> lr_inv s' \<and> l_cur s' = l_cur s \<and>
    tr_window_size (l_task_ring s') = tr_window_size (l_task_ring s) \<and> l_dep_pool s' = l_dep_pool s \<and>
    l_tensor_map s' = l_tensor_map s \<and> l_status s' i = RUNNING \<and>
    (\<forall>j. l_live s j \<longrightarrow> j \<noteq> i \<longrightarrow> l_status s' j = l_status s j)"
proof -
  from worker_take_ready [OF assms(1-3)] obtain t s' where t: "worker_take s = Inr (W_Run t s')" by blast
  note q = worker_take_inv [OF assms(1) t]
  have ti: "t = i" using assms(4) q(2,3) by blast
  from lr_frameD(1,2,10,12) [OF q(7)] have "l_cur s' = l_cur s" "l_dep_pool s' = l_dep_pool s"
    "l_tensor_map s' = l_tensor_map s" "tr_window_size (l_task_ring s') = tr_window_size (l_task_ring s)"
    by (simp_all add: l_cur_def)
  with lr_step.take [OF t] q(1,5,6) ti show ?thesis by auto
qed

lemma two_running:
  "\<exists>s0 s. lr_new 3 1 2 lr_config_default = Inr s0 \<and> lr_step\<^sup>*\<^sup>* s0 s \<and> lr_inv s \<and> l_cur s = 2 \<and>
     tr_window_size (l_task_ring s) = 4096 \<and> dep_available (l_dep_pool s) = 8192 \<and> tm_room (l_tensor_map s) = 8190 \<and>
     tm_abs (l_tensor_map s) = [1 \<mapsto> 0, 2 \<mapsto> 1] \<and> l_status s 0 = RUNNING \<and> l_status s 1 = RUNNING"
proof -
  obtain s0 where n: "lr_new 3 1 2 lr_config_default = Inr s0" using default_level by blast
  note i = lr_new_inv [OF n default_fits, unfolded lr_config_default_def, simplified]
  from one_more [OF i(1), of 1] i obtain s1 where s1: "lr_step s0 s1" "lr_inv s1" "l_cur s1 = 1"
    "tr_window_size (l_task_ring s1) = 4096" "l_dep_pool s1 = l_dep_pool s0" "tm_room (l_tensor_map s1) = 8191"
    "tm_abs (l_tensor_map s1) = [1 \<mapsto> 0]" "l_status s1 0 = READY" by auto
  have "j = 0" if "l_live s1 j" for j using that s1(3) by (simp add: l_live_def)
  with take_oldest [OF s1(2) _ s1(8)] s1(3) obtain s2 where s2: "lr_step s1 s2" "lr_inv s2" "l_cur s2 = 1"
    "tr_window_size (l_task_ring s2) = 4096" "l_dep_pool s2 = l_dep_pool s0" "l_tensor_map s2 = l_tensor_map s1"
    "l_status s2 0 = RUNNING" using s1(4,5) by (auto simp: l_live_def)
  from one_more [OF s2(2), of 2] s2 s1(6,7) i obtain s3 where s3: "lr_step s2 s3" "lr_inv s3" "l_cur s3 = 2"
    "tr_window_size (l_task_ring s3) = 4096" "l_dep_pool s3 = l_dep_pool s0" "tm_room (l_tensor_map s3) = 8190"
    "tm_abs (l_tensor_map s3) = [1 \<mapsto> 0, 2 \<mapsto> 1]" "l_status s3 0 = RUNNING" "l_status s3 1 = READY"
    by (auto simp: l_live_def)
  have "j = 1" if "l_live s3 j" "l_status s3 j = READY" for j
  proof -
    have "j = 0 \<or> j = 1" using that(1) s3(3) by (auto simp: l_live_def)
    with that(2) s3(8) show ?thesis by auto
  qed
  with take_oldest [OF s3(2) _ s3(9)] s3 obtain s4 where s4: "lr_step s3 s4" "lr_inv s4" "l_cur s4 = 2"
    "tr_window_size (l_task_ring s4) = 4096" "l_dep_pool s4 = l_dep_pool s0" "l_tensor_map s4 = l_tensor_map s3"
    "l_status s4 1 = RUNNING" "l_status s4 0 = RUNNING" by (auto simp: l_live_def)
  have "lr_step\<^sup>*\<^sup>* s0 s4"
    using s1(1) s2(1) s3(1) s4(1) by (meson converse_rtranclp_into_rtranclp rtranclp.rtrancl_refl)
  with n s4 s3(6,7) i show ?thesis by (intro exI [of _ s0] exI [of _ s4]) simp
qed

section \<open>Properties\<close>







text \<open>C35. The task ring is never given back: nothing releases the reference that stands for a scope, so no task is
  ever consumed and no slot retired; once as many tasks have been submitted as the window has slots, whatever
  the other threads do while the submitter sleeps, the next \<^verbatim>\<open>submit_worker\<close> fails its \<^verbatim>\<open>assert\<close>.\<close>

theorem level_ring_never_freed:
  assumes "lr_new level st wt cfg = Inr s0" "lr_fits cfg" "lr_step\<^sup>*\<^sup>* s0 s"
    "tr_current_index (l_task_ring s) = tr_window_size (l_task_ring s)"
    "\<And>n u. lr_step\<^sup>*\<^sup>* s u \<Longrightarrow> \<exists>u'. idle n u = Inr u' \<and> lr_step\<^sup>*\<^sup>* u u'"
  shows "submit_worker idle name fn ins outs pid s = Inl AssertFail"
proof -
  have inv: "lr_inv s" using lr_steps_inv [OF assms(3) lr_new_inv(1) [OF assms(1,2)]] by simp
  have full: "\<not> has_space (l_task_ring u) \<and> l_try_advance u = u" if "lr_step\<^sup>*\<^sup>* s u" for u
  proof -
    have u: "lr_inv u" "l_cur s \<le> l_cur u" "tr_window_size (l_task_ring u) = tr_window_size (l_task_ring s)"
      using lr_steps_inv [OF that inv] by auto
    note sh = lr_shapeD [OF lr_invD(1) [OF u(1)]]
    have cur: "0 < l_cur u" using u(2) assms(4) lr_shapeD(1) [OF lr_invD(1) [OF inv]] by (simp add: l_cur_def ring_wf_def)
    then have "td_status (l_get u 0) \<noteq> CONSUMED"
      using lr_invD(6) [OF u(1)] by (auto simp: credits_def l_live_def l_status_def)
    then have "l_advance_cursor (l_task_ring u) n 0 = 0" for n by (cases n) (simp_all add: l_get_def)
    then have "l_try_advance u = u" using sh(2) by (simp add: l_try_advance_def)
    moreover have "\<not> has_space (l_task_ring u)" using lr_has_space [OF lr_invD(1) [OF u(1)]] u(2,3) assms(4) by (simp add: l_cur_def)
    ultimately show ?thesis by blast
  qed
  have "l_wait_space n idle u = Inl AssertFail" if "lr_step\<^sup>*\<^sup>* s u" for n u
    using that
  proof (induction n arbitrary: u)
    case 0
    with full show ?case by simp
  next
    case (Suc n)
    from assms(5) [OF Suc.prems] obtain u' where "idle n u = Inr u'" "lr_step\<^sup>*\<^sup>* u u'" by blast
    with Suc.IH [OF rtranclp_trans [OF Suc.prems, of u']] full [OF Suc.prems] show ?case by simp
  qed
  from this [OF rtranclp.rtrancl_refl] full [OF rtranclp.rtrancl_refl] show ?thesis by (simp add: submit_worker_def)
qed

theorem level_ring_never_freed_witness:
  "\<exists>s0 s. lr_new 3 1 2 (lr_config_default\<lparr>lc_task_ring_window := 1\<rparr>) = Inr s0 \<and> lr_step s0 s \<and>
     submit_worker (\<lambda>_. Inr) ''B'' 1 [] [] (- 1) s = Inl AssertFail"
proof -
  let ?cfg = "lr_config_default\<lparr>lc_task_ring_window := 1\<rparr>"
  obtain s0 where n: "lr_new 3 1 2 ?cfg = Inr s0"
    by (simp add: lr_new_def lr_config_default_def task_ring_init_def dep_init_def tm_init_def)
  have fits: "lr_fits ?cfg" by (simp add: lr_fits_def lr_config_default_def)
  note i = lr_new_inv [OF n fits, unfolded lr_config_default_def, simplified]
  from one_more [OF i(1), of 1] i obtain s where s: "lr_step s0 s" "l_cur s = 1" "tr_window_size (l_task_ring s) = 1"
    by auto
  have "submit_worker (\<lambda>_. Inr) ''B'' 1 [] [] (- 1) s = Inl AssertFail"
    by (rule level_ring_never_freed [OF n fits r_into_rtranclp [of lr_step, OF s(1)]])
      (use s(2,3) in \<open>auto simp: l_cur_def\<close>)
  with n s(1) show ?thesis by blast
qed

text \<open>C10. What \<^verbatim>\<open>submit_worker\<close> builds: in every reachable state with room for the task it returns; the new task has
  the next id, its fan-in chain holds the latest producers of its inputs, it waits for exactly the inputs
  without a producer that are not ready, it becomes the producer of its outputs, and no other task
  changes its status.\<close>

theorem level_submit_dataflow:
  assumes "lr_new level st wt cfg = Inr s0" "lr_fits cfg" "lr_step\<^sup>*\<^sup>* s0 s" "lr_room ins outs s"
  shows "\<exists>s'. submit_worker idle name fn ins outs pid s = Inr (nat (l_cur s), s') \<and> l_cur s' = l_cur s + 1 \<and>
    l_deps s' (l_cur s) = rev (List.map_filter (producer_of (l_tensor_map s)) ins) \<and>
    ext_left s' (l_cur s) = length (filter (waits_outside (l_tensor_map s) (l_ready_cells s)) ins) \<and>
    tm_abs (l_tensor_map s') =
      (\<lambda>h. if h \<in> t_handle ` set outs then Some (l_cur s) else tm_abs (l_tensor_map s) h) \<and>
    (\<forall>t. l_live s t \<longrightarrow> td_status (l_get s' t) = td_status (l_get s t)) \<and>
    (td_status (l_get s' (l_cur s)) = READY \<longleftrightarrow>
      (\<forall>p \<in> set (l_deps s' (l_cur s)). td_status (l_get s p) = COMPLETED) \<and> ext_left s' (l_cur s) = 0)"
proof -
  have inv: "lr_inv s" using lr_steps_inv [OF assms(3) lr_new_inv(1) [OF assms(1,2)]] by simp
  then have mid: "lr_mid s (got_of s) (rel_of s)" by (simp add: lr_mid_inv)
  from submit_worker_total [OF mid assms(4)] obtain s' where
    s': "submit_worker idle name fn ins outs pid s = Inr (nat (l_cur s), s')" by blast
  have sp: "has_space (l_task_ring s)" "int (length outs) \<le> tm_room (l_tensor_map s)"
    using assms(4) by (auto simp: lr_room_def)
  note q = submit_worker_inv [OF inv sp s']
  have lc: "l_live s' (l_cur s)" using q(3) lr_shapeD(4) [OF lr_invD(1) [OF inv]] by (simp add: l_live_def)
  have st: "l_status s' p = l_status s p" if "p \<in> set (l_deps s' (l_cur s))" for p
  proof -
    have "0 \<le> p \<and> p < l_cur s" using lr_invD(2) [OF q(1)] lc that unfolding lr_edges_def by blast
    then show ?thesis using q(8) by (simp add: l_live_def)
  qed
  have "l_status s' (l_cur s) = READY \<longleftrightarrow>
      (\<forall>p \<in> set (l_deps s' (l_cur s)). l_status s p = COMPLETED) \<and> ext_left s' (l_cur s) = 0"
    using started_has_all [OF q(1) lc] pending_waits [OF q(1) lc] q(9) st by (metis task_status.distinct(1))
  with q s' show ?thesis unfolding l_status_def by blast
qed

theorem level_submit_dataflow_witness:
  "\<exists>s s'. submit_worker (\<lambda>_. Inr) ''C'' 2 [tensor0 1, tensor0 2] [tensor0 3] (- 1) s = Inr (2, s') \<and>
     l_deps s' 2 = [1, 0] \<and> tm_abs (l_tensor_map s') 3 = Some 2"
proof -
  obtain s0 s where s: "lr_new 3 1 2 lr_config_default = Inr s0" "lr_step\<^sup>*\<^sup>* s0 s" "lr_inv s" "l_cur s = 2"
    "tr_window_size (l_task_ring s) = 4096" "dep_available (l_dep_pool s) = 8192" "tm_room (l_tensor_map s) = 8190"
    "tm_abs (l_tensor_map s) = [1 \<mapsto> 0, 2 \<mapsto> 1]" using two_running by blast
  have room: "lr_room [tensor0 1, tensor0 2] [tensor0 3] s"
    using s lr_has_space [OF lr_invD(1) [OF s(3)]]
    by (simp add: lr_room_def outputs_fit_def total_output_bytes_def tensor0_def l_cur_def)
  have "producer_of (l_tensor_map s) (tensor0 1) = Some 0" "producer_of (l_tensor_map s) (tensor0 2) = Some 1"
    using s(8) by (simp_all add: producer_of_def t_is_valid_def tensor0_def INVALID_HANDLE_def)
  then have "List.map_filter (producer_of (l_tensor_map s)) [tensor0 1, tensor0 2] = [0, 1]"
    by (simp add: map_filter_simps)
  moreover obtain s' where
    "submit_worker (\<lambda>_. Inr) ''C'' 2 [tensor0 1, tensor0 2] [tensor0 3] (- 1) s = Inr (nat (l_cur s), s')"
    "l_deps s' (l_cur s) = rev (List.map_filter (producer_of (l_tensor_map s)) [tensor0 1, tensor0 2])"
    "tm_abs (l_tensor_map s') =
      (\<lambda>h. if h \<in> t_handle ` set [tensor0 3] then Some (l_cur s) else tm_abs (l_tensor_map s) h)"
    using level_submit_dataflow [OF s(1) default_fits s(2) room, of "\<lambda>_. Inr" "''C''" 2 "- 1"] by blast
  moreover have "t_handle (tensor0 3) = 3" by (simp add: tensor0_def)
  ultimately show ?thesis using s(4) by (intro exI [of _ s] exI [of _ s']) simp
qed

text \<open>C36. \<^verbatim>\<open>on_task_complete\<close> stores \<^verbatim>\<open>COMPLETED\<close> before \<^verbatim>\<open>propagate_completion\<close> takes the fan-out lock. When a submission
  falls between the two and its task depends on that producer and on another one that is still at work, the
  new task is credited twice for the first producer: it becomes ready although the second has not completed.\<close>

theorem level_completion_race:
  assumes "lr_new level st wt cfg = Inr s0" "lr_fits cfg" "lr_step\<^sup>*\<^sup>* s0 s"
    "l_live s p" "l_live s q" "p \<noteq> q" "td_status (l_get s p) = RUNNING" "td_status (l_get s q) \<noteq> COMPLETED"
    "producer_of (l_tensor_map s) x = Some p" "producer_of (l_tensor_map s) y = Some q" "lr_room [x, y] outs s"
  shows "\<exists>s1 s2 s3. worker_run exec t0 t1 w p s = Inr s1 \<and>
    submit_worker idle name fn [x, y] outs pid (l_set_status COMPLETED p s1) = Inr (nat (l_cur s), s2) \<and>
    l_propagate p s2 = Inr s3 \<and> td_status (l_get s3 (l_cur s)) = READY \<and>
    q \<in> set (l_deps s3 (l_cur s)) \<and> td_status (l_get s3 q) \<noteq> COMPLETED"
proof -
  have inv: "lr_inv s" using lr_steps_inv [OF assms(3) lr_new_inv(1) [OF assms(1,2)]] by simp
  have st: "l_status s p = RUNNING" "l_status s q \<noteq> COMPLETED" using assms(7,8) by (simp_all add: l_status_def)
  from worker_run_core [OF inv assms(4) st(1)] obtain s1 where s1: "worker_run exec t0 t1 w p s = Inr s1" by blast
  let ?s2 = "l_set_status COMPLETED p s1"
  note k = marked_mid [OF inv assms(4) st(1) s1 refl]
  have same: "l_dep_pool ?s2 = l_dep_pool s" "l_heap_ring ?s2 = l_heap_ring s" "tr_window_size (l_task_ring ?s2) = tr_window_size (l_task_ring s)"
    "tr_last_task_alive (l_task_ring ?s2) = tr_last_task_alive (l_task_ring s)"
    using s1 by (auto simp: worker_run_def resolve_promise_def Let_def l_trace_complete_def l_set_status_def l_upd_def
        split: option.splits if_splits)
  have room: "lr_room [x, y] outs ?s2"
    using assms(11) same k(2,3) by (simp add: lr_room_def has_space_def active_count_def l_cur_def)
  from submit_worker_total [OF k(1) room, of idle name fn pid] k(2) obtain s2 where
    s2: "submit_worker idle name fn [x, y] outs pid ?s2 = Inr (nat (l_cur s), s2)" by auto
  have "has_space (l_task_ring ?s2)" "int (length outs) \<le> tm_room (l_tensor_map ?s2)"
    using room by (auto simp: lr_room_def)
  from race_propagate [OF inv assms(4-6) st s1 refl assms(9,10) this s2] s1 s2 show ?thesis
    unfolding l_status_def by blast
qed

theorem level_completion_race_witness:
  "\<exists>s s1 s2 s3. td_status (l_get s 1) = RUNNING \<and> worker_run (\<lambda>_ _ m. m) 0 0 0 0 s = Inr s1 \<and>
    submit_worker (\<lambda>_. Inr) ''C'' 2 [tensor0 1, tensor0 2] [] (- 1) (l_set_status COMPLETED 0 s1) = Inr (2, s2) \<and>
    l_propagate 0 s2 = Inr s3 \<and> td_status (l_get s3 2) = READY \<and> td_status (l_get s3 1) \<noteq> COMPLETED"
proof -
  obtain s0 s where s: "lr_new 3 1 2 lr_config_default = Inr s0" "lr_step\<^sup>*\<^sup>* s0 s" "lr_inv s" "l_cur s = 2"
    "tr_window_size (l_task_ring s) = 4096" "dep_available (l_dep_pool s) = 8192" "tm_room (l_tensor_map s) = 8190"
    "tm_abs (l_tensor_map s) = [1 \<mapsto> 0, 2 \<mapsto> 1]" "td_status (l_get s 0) = RUNNING" "td_status (l_get s 1) = RUNNING"
    using two_running unfolding l_status_def by blast
  have room: "lr_room [tensor0 1, tensor0 2] [] s"
    using s lr_has_space [OF lr_invD(1) [OF s(3)]]
    by (simp add: lr_room_def outputs_fit_def total_output_bytes_def l_cur_def)
  have l: "l_live s 0" "l_live s 1" "(0 :: i32) \<noteq> 1" "td_status (l_get s 1) \<noteq> COMPLETED"
    using s(4,10) by (simp_all add: l_live_def)
  have "producer_of (l_tensor_map s) (tensor0 1) = Some 0" "producer_of (l_tensor_map s) (tensor0 2) = Some 1"
    using s(8) by (simp_all add: producer_of_def t_is_valid_def tensor0_def INVALID_HANDLE_def)
  from level_completion_race [OF s(1) default_fits s(2) l(1-3) s(9) l(4) this room,
      of "\<lambda>_ _ m. m" 0 0 0 "\<lambda>_. Inr" "''C''" 2 "- 1"] s(4,10)
  show ?thesis by auto
qed

end
