(* ===== verification/Tree_Reduce.thy ===== *)
theory Tree_Reduce
  imports Level_Protocol
begin

text \<open>
  \<^verbatim>\<open>tree_reduce\<close> (src/src/runtime/tree_reduce.h): the builder of a binary reduction tree over
  \<^verbatim>\<open>LevelRuntime\<close>. It submits one task per pair of neighbours, round by round, without waiting between
  rounds; the tensor map links the rounds. The closure of a pair is named by \<open>clo a b out\<close>. Beside
  what the function returns the model returns the pairs it submitted, in order.
\<close>

section \<open>The builder\<close>

type_synonym pair_task = "linqu_tensor \<times> linqu_tensor \<times> linqu_tensor"

record reduce_env =
  re_idle :: "nat \<Rightarrow> lrt \<Rightarrow> lrt res"
  re_clo :: "linqu_tensor \<Rightarrow> linqu_tensor \<Rightarrow> linqu_tensor \<Rightarrow> nat"
  re_name :: string
  re_trace_pid :: i32

text \<open>The inner loop: one round over the current tensors.\<close>

fun pair_round ::
  "reduce_env \<Rightarrow> linqu_tensor list \<Rightarrow> nat option \<Rightarrow> lrt \<Rightarrow> (pair_task list \<times> linqu_tensor list \<times> nat option \<times> lrt) res" where
  "pair_round e (a # b # rest) root_fut s =
     (let (out, s) = make_tensor (t_count a) s in
      bindR (submit_worker (re_idle e) (re_name e) (re_clo e a b out) [a, b] [out] (re_trace_pid e) s) (\<lambda>(fut, s).
      bindR (pair_round e rest (Some fut) s) (\<lambda>(tasks, nxt, root_fut, s).
        Inr ((a, b, out) # tasks, out # nxt, root_fut, s))))"
| "pair_round e [a] root_fut s = Inr ([], [a], root_fut, s)"
| "pair_round e [] root_fut s = Inr ([], [], root_fut, s)"

primrec reduce_rounds ::
  "nat \<Rightarrow> reduce_env \<Rightarrow> linqu_tensor list \<Rightarrow> nat option \<Rightarrow> lrt \<Rightarrow> (pair_task list \<times> linqu_tensor \<times> nat option \<times> lrt) res" where
  "reduce_rounds 0 e cur root_fut s =
     (if 1 < length cur then Inl Diverges else Inr ([], hd cur, root_fut, s))"
| "reduce_rounds (Suc n) e cur root_fut s =
     (if 1 < length cur then
        bindR (pair_round e cur root_fut s) (\<lambda>(tasks, nxt, root_fut, s).
        bindR (reduce_rounds n e nxt root_fut s) (\<lambda>(tasks', root, root_fut, s).
          Inr (tasks @ tasks', root, root_fut, s)))
      else Inr ([], hd cur, root_fut, s))"

text \<open>The future of the result is the one the caller waits for (\<^verbatim>\<open>root_fut.get()\<close>); with one leaf there is none.\<close>

definition tree_reduce ::
  "reduce_env \<Rightarrow> linqu_tensor list \<Rightarrow> lrt \<Rightarrow> (pair_task list \<times> linqu_tensor \<times> nat option \<times> lrt) res" where
  "tree_reduce e leaves s =
     bindR (assertR (leaves \<noteq> [])) (\<lambda>_.
       if length leaves = 1 then Inr ([], hd leaves, None, s)
       else reduce_rounds (length leaves) e leaves None s)"

section \<open>What the pairs compute\<close>

text \<open>The values of the tensors, by handle, after the pairs have run in the order of their submission.\<close>

definition run_pairs :: "('v \<Rightarrow> 'v \<Rightarrow> 'v) \<Rightarrow> pair_task list \<Rightarrow> (u64 \<Rightarrow> 'v) \<Rightarrow> u64 \<Rightarrow> 'v" where
  "run_pairs f tasks env =
     foldl (\<lambda>env (a, b, out). env(t_handle out := f (env (t_handle a)) (env (t_handle b)))) env tasks"

text \<open>The reduction of a list from the left.\<close>

fun reduce1 :: "('v \<Rightarrow> 'v \<Rightarrow> 'v) \<Rightarrow> 'v list \<Rightarrow> 'v" where
  "reduce1 f (x # y # xs) = reduce1 f (f x y # xs)"
| "reduce1 f [x] = x"
| "reduce1 f [] = undefined"

lemma reduce1_assoc:
  assumes "\<And>x y z. f (f x y) z = f x (f y z)" "xs \<noteq> []"
  shows "reduce1 f (x # xs) = f x (reduce1 f xs)"
  using assms(2)
proof (induction xs arbitrary: x)
  case (Cons y ys)
  show ?case
  proof (cases ys)
    case Nil
    then show ?thesis by simp
  next
    case (Cons z zs)
    then show ?thesis using Cons.IH [of "f x y"] Cons.IH [of y] assms(1) by simp
  qed
qed simp

lemma run_pairs_simps [simp]:
  "run_pairs f [] env = env"
  "run_pairs f ((a, b, out) # tasks) env =
     run_pairs f tasks (env(t_handle out := f (env (t_handle a)) (env (t_handle b))))"
  "run_pairs f (ts @ ts') env = run_pairs f ts' (run_pairs f ts env)"
  by (simp_all add: run_pairs_def)

section \<open>Submission makes no handles\<close>

lemma l_upd_handle [simp]: "l_next_handle (l_upd i f s) = l_next_handle s" "l_next_handle (l_set_status st i s) = l_next_handle s"
  by (simp_all add: l_upd_def l_set_status_def)

lemma enqueue_handle: "enqueue_ready t s = Inr s' \<Longrightarrow> l_next_handle s' = l_next_handle s"
  by (auto simp: enqueue_ready_def Let_def elim!: bindR_InrE)

lemma ready_once_handle: "ready_once t s = Inr (b, s') \<Longrightarrow> l_next_handle s' = l_next_handle s"
  by (auto simp: ready_once_def try_set_ready_def split: if_splits elim!: bindR_InrE dest!: enqueue_handle)

lemma add_consumer_handle: "add_consumer_to_producer p c s = Inr s' \<Longrightarrow> l_next_handle s' = l_next_handle s"
  by (auto simp: add_consumer_to_producer_def fanout_lock_def fanout_unlock_def Let_def
      split: if_splits elim!: bindR_InrE)

lemma publish_handle: "publish_task t n ps s = Inr s' \<Longrightarrow> l_next_handle s' = l_next_handle s"
proof -
  assume p: "publish_task t n ps s = Inr s'"
  have "l_next_handle u = l_next_handle v" if "foldR (\<lambda>p. add_consumer_to_producer p t) ps v = Inr u" for u v
    by (rule foldR_invariant [OF that, where P = "\<lambda>u. l_next_handle u = l_next_handle v"])
      (auto dest: add_consumer_handle)
  with p show ?thesis
    by (auto simp: publish_task_def Let_def split: if_splits elim!: bindR_InrE
        dest!: enqueue_handle ready_once_handle)
qed

lemma scan_input_handle: "scan_input t x (r, s) = Inr (r', s') \<Longrightarrow> l_next_handle s' = l_next_handle s"
  by (auto simp: scan_input_def Let_def split: if_splits option.splits prod.splits elim!: bindR_InrE)

lemma prepare_handle:
  assumes "prepare_task name fn ins outs pid s = Inr (r, s')"
  shows "l_next_handle s' = l_next_handle s"
proof -
  obtain t1 tr where al: "task_alloc (l_task_ring s) = Inr (t1, tr)"
    using assms by (auto simp: prepare_task_def elim!: bindR_InrE)
  obtain f1 s1 where op: "open_slot t1 name fn outs pid (s\<lparr>l_task_ring := tr\<rparr>) = (f1, s1)"
    by (cases "open_slot t1 name fn outs pid (s\<lparr>l_task_ring := tr\<rparr>)")
  from assms al op obtain q s2 s3 s4 s5 where
    sc: "foldR (scan_input t1) ins ((0, False, []), s1) = Inr (q, s2)"
    and ao: "alloc_outputs t1 outs s2 = Inr s3" and ro: "foldR (register_output t1) outs s3 = Inr s4"
    and sp: "(if 0 \<le> scope_depth (l_scope_stack s4)
       then bindR (stack_add_task t1 (l_scope_stack s4)) (\<lambda>ss. Inr (s4\<lparr>l_scope_stack := ss\<rparr>)) else Inr s4) = Inr s5"
    and s': "s' = l_upd t1 (\<lambda>d. d\<lparr>td_heap_end := hr_top (l_heap_ring s5)\<rparr>) s5"
    unfolding prepare_task_def by (simp add: bindR_Inr_iff) (elim exE conjE prod.exhaust, auto)
  have "l_next_handle s1 = l_next_handle s" using op by (auto simp: open_slot_def Let_def)
  moreover have "l_next_handle (snd (q, s2)) = l_next_handle s1"
    by (rule foldR_invariant [OF sc, where P = "\<lambda>u. l_next_handle (snd u) = l_next_handle s1"])
      (auto dest: scan_input_handle)
  moreover have "l_next_handle s3 = l_next_handle s2" using alloc_outputs_heap_only [OF ao] by (auto simp: heap_only_def)
  moreover have "l_next_handle s4 = l_next_handle s3"
    by (rule foldR_invariant [OF ro, where P = "\<lambda>x. l_next_handle x = l_next_handle s3"])
      (auto simp: register_output_def elim!: bindR_InrE)
  moreover have "l_next_handle s5 = l_next_handle s4" using sp by (auto split: if_splits elim!: bindR_InrE)
  ultimately show ?thesis using s' by simp
qed

lemma wait_handle:
  assumes "\<And>n u u'. idle n u = Inr u' \<Longrightarrow> l_next_handle u' = l_next_handle u"
  shows "l_wait_space n idle s = Inr s' \<Longrightarrow> l_next_handle s' = l_next_handle s"
proof (induction n arbitrary: s)
  case 0
  then show ?case by (auto simp: Let_def l_try_advance_def split: if_splits)
next
  case (Suc n)
  have "l_next_handle (l_try_advance s) = l_next_handle s" by (simp add: l_try_advance_def Let_def)
  with Suc assms show ?case by (auto simp: Let_def split: if_splits elim!: bindR_InrE)
qed

lemma submit_handle:
  assumes "\<And>n u u'. idle n u = Inr u' \<Longrightarrow> l_next_handle u' = l_next_handle u"
    "submit_worker idle name fn ins outs pid s = Inr (fut, s')"
  shows "l_next_handle s' = l_next_handle s"
proof -
  from assms(2) obtain s1 r s2 where 1: "(if \<not> has_space (l_task_ring s) then l_wait_space 100000 idle s else Inr s) = Inr s1"
    and 2: "prepare_task name fn ins outs pid s1 = Inr (r, s2)" and 3: "\<exists>t n ps. publish_task t n ps s2 = Inr s'"
    unfolding submit_worker_def by (elim bindR_InrE) (auto elim!: bindR_InrE, blast)
  have "l_next_handle s1 = l_next_handle s"
    using 1 wait_handle [of idle 100000 s s1, OF assms(1)] by (auto split: if_splits)
  with prepare_handle [OF 2] 3 publish_handle show ?thesis by auto
qed

section \<open>A round keeps the value\<close>

text \<open>The handles in use are below the counter of the next one.\<close>

definition issued :: "lrt \<Rightarrow> linqu_tensor list \<Rightarrow> bool" where
  "issued s ts \<longleftrightarrow> (\<forall>t \<in> set ts. unat (t_handle t) < unat (l_next_handle s))"

definition quiet_idle :: "reduce_env \<Rightarrow> bool" where
  "quiet_idle e \<longleftrightarrow> (\<forall>n u u'. re_idle e n u = Inr u' \<longrightarrow> l_next_handle u' = l_next_handle u)"

lemma unat_Suc_small: "unat (h :: u64) + 1 < 2 ^ 64 \<Longrightarrow> unat (h + 1) = unat h + 1"
  by (simp add: unat_word_ariths)

lemma run_pairs_other:
  "\<forall>(a, b, out) \<in> set tasks. t_handle out \<noteq> h \<Longrightarrow> run_pairs f tasks env h = env h"
  by (induction tasks arbitrary: env) auto

lemma pair_roundE:
  assumes "pair_round e (a # b # rest) fut s = Inr (tasks, nxt, fut', s')"
  obtains out s1 f1 s2 ts ns where "make_tensor (t_count a) s = (out, s1)"
    "submit_worker (re_idle e) (re_name e) (re_clo e a b out) [a, b] [out] (re_trace_pid e) s1 = Inr (f1, s2)"
    "pair_round e rest (Some f1) s2 = Inr (ts, ns, fut', s')" "tasks = (a, b, out) # ts" "nxt = out # ns"
proof -
  obtain out s1 where m: "make_tensor (t_count a) s = (out, s1)" by (cases "make_tensor (t_count a) s")
  with assms obtain f1 s2 where
    w: "submit_worker (re_idle e) (re_name e) (re_clo e a b out) [a, b] [out] (re_trace_pid e) s1 = Inr (f1, s2)"
    by (auto elim!: bindR_InrE)
  with assms m obtain ts ns g u where r: "pair_round e rest (Some f1) s2 = Inr (ts, ns, g, u)"
    by (auto elim!: bindR_InrE)
  show ?thesis using that [OF m w] r assms m w by simp
qed

lemma step_handles:
  assumes "quiet_idle e" "make_tensor n s = (out, s1)"
    "submit_worker (re_idle e) name fn ins outs pid s1 = Inr (f1, s2)" "unat (l_next_handle s) + 1 < 2 ^ 64"
  shows "t_handle out = l_next_handle s" "unat (l_next_handle s2) = unat (l_next_handle s) + 1"
proof -
  have m: "t_handle out = l_next_handle s" "l_next_handle s1 = l_next_handle s + 1"
    using assms(2) by (auto simp: make_tensor_def alloc_tensor_handle_def)
  have "l_next_handle s2 = l_next_handle s1"
    by (rule submit_handle [OF _ assms(3)]) (use assms(1) in \<open>auto simp: quiet_idle_def\<close>)
  with m unat_Suc_small [OF assms(4)] show "t_handle out = l_next_handle s"
    "unat (l_next_handle s2) = unat (l_next_handle s) + 1" by simp_all
qed

lemma pair_round_facts:
  assumes "quiet_idle e" "pair_round e cur fut s = Inr (tasks, nxt, fut', s')"
    "unat (l_next_handle s) + length cur < 2 ^ 64" "issued s cur"
  shows "length tasks = length cur div 2 \<and> length nxt = (length cur + 1) div 2 \<and>
    unat (l_next_handle s') = unat (l_next_handle s) + length tasks \<and> issued s' nxt \<and>
    (\<forall>(a, b, out) \<in> set tasks. unat (l_next_handle s) \<le> unat (t_handle out)) \<and>
    (fut' = None \<longleftrightarrow> fut = None \<and> tasks = [])"
  using assms(2-4)
proof (induction cur arbitrary: fut s tasks nxt rule: induct_list012)
  case (3 a b rest)
  from "3.prems"(1) obtain out s1 f1 s2 ts ns where m: "make_tensor (t_count a) s = (out, s1)"
    and w: "submit_worker (re_idle e) (re_name e) (re_clo e a b out) [a, b] [out] (re_trace_pid e) s1 = Inr (f1, s2)"
    and r: "pair_round e rest (Some f1) s2 = Inr (ts, ns, fut', s')" and eq: "tasks = (a, b, out) # ts" "nxt = out # ns"
    by (rule pair_roundE)
  have "unat (l_next_handle s) + 1 < 2 ^ 64" using "3.prems"(2) by simp
  note h = step_handles [OF assms(1) m w this]
  have "unat (l_next_handle s2) + length rest < 2 ^ 64" "issued s2 rest"
    using h(2) "3.prems"(2,3) by (auto simp: issued_def)
  note ih = "3.IH"(1) [OF r this]
  have "issued s' nxt" using ih eq(2) h by (auto simp: issued_def)
  moreover have "\<forall>(a, b, out) \<in> set tasks. unat (l_next_handle s) \<le> unat (t_handle out)"
    using ih eq(1) h by fastforce
  ultimately show ?case using ih eq h(2) by simp
qed (auto simp: issued_def)

lemma pair_round_value:
  assumes assoc: "\<And>x y z. f (f x y) z = f x (f y z)" and "quiet_idle e"
    "pair_round e cur fut s = Inr (tasks, nxt, fut', s')"
    "unat (l_next_handle s) + length cur < 2 ^ 64" "issued s cur" "cur \<noteq> []"
  shows "reduce1 f (map (\<lambda>t. run_pairs f tasks env (t_handle t)) nxt) = reduce1 f (map (\<lambda>t. env (t_handle t)) cur)"
  using assms(3-6)
proof (induction cur arbitrary: fut s tasks nxt env rule: induct_list012)
  case (3 a b rest)
  from "3.prems"(1) obtain out s1 f1 s2 ts ns where m: "make_tensor (t_count a) s = (out, s1)"
    and w: "submit_worker (re_idle e) (re_name e) (re_clo e a b out) [a, b] [out] (re_trace_pid e) s1 = Inr (f1, s2)"
    and r: "pair_round e rest (Some f1) s2 = Inr (ts, ns, fut', s')" and eq: "tasks = (a, b, out) # ts" "nxt = out # ns"
    by (rule pair_roundE)
  have "unat (l_next_handle s) + 1 < 2 ^ 64" using "3.prems"(2) by simp
  note h = step_handles [OF assms(2) m w this]
  have iss: "unat (l_next_handle s2) + length rest < 2 ^ 64" "issued s2 rest"
    using h(2) "3.prems"(2,3) by (auto simp: issued_def)
  note facts = pair_round_facts [OF assms(2) r iss]
  let ?env = "env(t_handle out := f (env (t_handle a)) (env (t_handle b)))"
  have "\<forall>(a, b, o') \<in> set ts. t_handle o' \<noteq> t_handle out" using facts h by fastforce
  then have v: "run_pairs f ts ?env (t_handle out) = f (env (t_handle a)) (env (t_handle b))"
    by (simp add: run_pairs_other)
  have old: "map (\<lambda>t. ?env (t_handle t)) rest = map (\<lambda>t. env (t_handle t)) rest"
    using "3.prems"(3) h(1) by (auto simp: issued_def)
  show ?case
  proof (cases "rest = []")
    case True
    with r eq v show ?thesis by simp
  next
    case False
    then have "ns \<noteq> []" using facts by (cases rest) auto
    define env1 where "env1 = ?env"
    have "reduce1 f (map (\<lambda>t. run_pairs f ts env1 (t_handle t)) ns) = reduce1 f (map (\<lambda>t. env (t_handle t)) rest)"
      using "3.IH"(1) [OF r iss False, of env1] old [folded env1_def] by (simp only:)
    with False \<open>ns \<noteq> []\<close> v [folded env1_def] show ?thesis
      by (simp add: eq reduce1_assoc [OF assoc] env1_def [symmetric])
  qed
qed auto

section \<open>All rounds\<close>

lemma reduce_rounds_facts:
  assumes assoc: "\<And>x y z. f (f x y) z = f x (f y z)" and "quiet_idle e"
    "reduce_rounds n e cur fut s = Inr (tasks, root, fut', s')"
    "unat (l_next_handle s) + length cur < 2 ^ 64" "issued s cur" "cur \<noteq> []"
  shows "run_pairs f tasks env (t_handle root) = reduce1 f (map (\<lambda>t. env (t_handle t)) cur) \<and>
    length tasks = length cur - 1 \<and> (fut' = None \<longleftrightarrow> fut = None \<and> tasks = [])"
  using assms(3-6)
proof (induction n arbitrary: cur fut s tasks env)
  case 0
  then show ?case by (cases cur) (auto split: if_splits)
next
  case (Suc n)
  show ?case
  proof (cases "1 < length cur")
    case False
    with Suc.prems show ?thesis by (cases cur) auto
  next
    case True
    with Suc.prems(1) obtain ts nxt fut1 s1 ts' where
      p: "pair_round e cur fut s = Inr (ts, nxt, fut1, s1)"
      and r: "reduce_rounds n e nxt fut1 s1 = Inr (ts', root, fut', s')" and eq: "tasks = ts @ ts'"
      by (auto elim!: bindR_InrE)
    note facts = pair_round_facts [OF assms(2) p Suc.prems(2,3)]
    have len: "length ts + length nxt = length cur" "0 < length ts" "nxt \<noteq> []" using facts True by auto
    have "unat (l_next_handle s1) + length nxt < 2 ^ 64" "issued s1 nxt" using facts Suc.prems(2) len(1) by auto
    from Suc.IH [OF r this len(3), of "run_pairs f ts env"] facts len eq
      pair_round_value [OF assoc assms(2) p Suc.prems(2-4), of env]
    show ?thesis by auto
  qed
qed

text \<open>The rounds end: the length of the list bounds their number, more fuel changes nothing.\<close>

lemma pair_round_shrinks:
  "pair_round e cur fut s = Inr (tasks, nxt, fut', s') \<Longrightarrow> length nxt = (length cur + 1) div 2"
proof (induction cur arbitrary: fut s tasks nxt rule: induct_list012)
  case (3 a b rest)
  from "3.prems" obtain f1 s2 ts ns out where "pair_round e rest (Some f1) s2 = Inr (ts, ns, fut', s')" "nxt = out # ns"
    by (rule pair_roundE)
  with "3.IH"(1) show ?case by auto
qed auto

lemma reduce_rounds_fuel:
  "length cur \<le> n \<Longrightarrow> reduce_rounds (n + k) e cur fut s = reduce_rounds n e cur fut s"
proof (induction n arbitrary: cur fut s)
  case 0
  then show ?case by (cases k) auto
next
  case (Suc n)
  show ?case
  proof (cases "1 < length cur")
    case True
    have "bindR (pair_round e cur fut s) (\<lambda>(tasks, nxt, fut, s). bindR (reduce_rounds (n + k) e nxt fut s) (g tasks)) =
        bindR (pair_round e cur fut s) (\<lambda>(tasks, nxt, fut, s). bindR (reduce_rounds n e nxt fut s) (g tasks))"
      for g :: "pair_task list \<Rightarrow> pair_task list \<times> linqu_tensor \<times> nat option \<times> lrt \<Rightarrow>
        (pair_task list \<times> linqu_tensor \<times> nat option \<times> lrt) res"
    proof (cases "pair_round e cur fut s")
      case (Inr r)
      obtain tasks nxt fut1 s1 where r: "r = (tasks, nxt, fut1, s1)" by (cases r) auto
      have "length nxt \<le> n" using pair_round_shrinks [of e cur fut s] Inr r True Suc.prems by fastforce
      from Suc.IH [OF this] Inr r show ?thesis by simp
    qed simp
    then show ?thesis using True by simp
  qed simp
qed

lemma pair_round_fails:
  "pair_round e cur fut s = Inl err \<Longrightarrow>
   \<exists>a b out u. submit_worker (re_idle e) (re_name e) (re_clo e a b out) [a, b] [out] (re_trace_pid e) u = Inl err"
proof (induction cur arbitrary: fut s rule: induct_list012)
  case (3 a b rest)
  obtain out s1 where m: "make_tensor (t_count a) s = (out, s1)" by (cases "make_tensor (t_count a) s")
  let ?r = "submit_worker (re_idle e) (re_name e) (re_clo e a b out) [a, b] [out] (re_trace_pid e) s1"
  show ?case
  proof (cases ?r)
    case (Inl err')
    then have "?r = Inl err" using "3.prems" m by simp
    then show ?thesis by blast
  next
    case (Inr r)
    obtain f1 s2 where r: "r = (f1, s2)" by (cases r)
    with Inr m "3.prems" have "pair_round e rest (Some f1) s2 = Inl err"
      by (cases "pair_round e rest (Some f1) s2") auto
    then show ?thesis by (rule "3.IH"(1))
  qed
qed auto

lemma reduce_rounds_fails:
  "length cur \<le> n \<Longrightarrow> reduce_rounds n e cur fut s = Inl err \<Longrightarrow>
   \<exists>a b out u. submit_worker (re_idle e) (re_name e) (re_clo e a b out) [a, b] [out] (re_trace_pid e) u = Inl err"
proof (induction n arbitrary: cur fut s)
  case (Suc n)
  then have len: "1 < length cur" by (auto split: if_splits)
  show ?case
  proof (cases "pair_round e cur fut s")
    case (Inl err')
    then have "pair_round e cur fut s = Inl err" using Suc.prems(2) len by simp
    then show ?thesis by (rule pair_round_fails)
  next
    case (Inr r)
    obtain ts nxt f1 s1 where r: "r = (ts, nxt, f1, s1)" by (cases r) auto
    have "length nxt \<le> n" using pair_round_shrinks [of e cur fut s] Inr r len Suc.prems(1) by fastforce
    moreover have "reduce_rounds n e nxt f1 s1 = Inl err"
      using Suc.prems(2) len Inr r by (cases "reduce_rounds n e nxt f1 s1") auto
    ultimately show ?thesis by (rule Suc.IH)
  qed
qed (auto split: if_splits)

text \<open>A run with two leaves.\<close>

definition reduce_env0 :: reduce_env where
  "reduce_env0 = \<lparr>re_idle = \<lambda>_. Inr, re_clo = \<lambda>_ _ _. 0, re_name = ''pair_reduce'', re_trace_pid = - 1\<rparr>"

lemma two_leaves:
  "\<exists>s a b tasks root fut s'. t_handle a = 1 \<and> t_handle b = 2 \<and> l_next_handle s = 3 \<and> issued s [a, b] \<and>
     tree_reduce reduce_env0 [a, b] s = Inr (tasks, root, Some fut, s')"
proof -
  obtain s0 where n: "lr_new 3 1 2 lr_config_default = Inr s0" using default_level by blast
  have h0: "l_next_handle s0 = 1" using n by (auto simp: lr_new_def Let_def elim!: bindR_InrE)
  note i = lr_new_inv [OF n default_fits, unfolded lr_config_default_def, simplified]
  obtain a s1 where a: "make_tensor 0 s0 = (a, s1)" by (cases "make_tensor 0 s0")
  obtain b s2 where b: "make_tensor 0 s1 = (b, s2)" by (cases "make_tensor 0 s1")
  obtain out s3 where out: "make_tensor (t_count a) s2 = (out, s3)" by (cases "make_tensor (t_count a) s2")
  have h: "t_handle a = 1" "t_handle b = 2" "l_next_handle s2 = 3" "t_count out = 0" "l_task_ring s3 = l_task_ring s0"
    "l_dep_pool s3 = l_dep_pool s0" "l_tensor_map s3 = l_tensor_map s0"
    using a b out h0 by (auto simp: make_tensor_def alloc_tensor_handle_def)
  have "lr_step\<^sup>*\<^sup>* s0 s3"
    using lr_step.tensor [OF a] lr_step.tensor [OF b] lr_step.tensor [OF out]
    by (meson converse_rtranclp_into_rtranclp rtranclp.rtrancl_refl)
  then have inv: "lr_inv s3" "l_cur s0 \<le> l_cur s3" using lr_steps_inv [OF _ i(1)] by blast+
  have "lr_room [a, b] [out] s3"
    using i h lr_has_space [OF lr_invD(1) [OF i(1)]]
    by (simp add: lr_room_def outputs_fit_def total_output_bytes_def l_cur_def)
  from submit_worker_total [OF _ this, of "got_of s3" "rel_of s3" "\<lambda>_. Inr" "''pair_reduce''" 0 "- 1"] inv(1) obtain s4 where
    s4: "submit_worker (\<lambda>_. Inr) ''pair_reduce'' 0 [a, b] [out] (- 1) s3 = Inr (nat (l_cur s3), s4)"
    by (auto simp: lr_mid_inv)
  have "issued s2 [a, b]" using h by (simp add: issued_def)
  moreover have "tree_reduce reduce_env0 [a, b] s2 = Inr ([(a, b, out)], out, Some (nat (l_cur s3)), s4)"
    using out s4 by (simp add: tree_reduce_def reduce_env0_def numeral_2_eq_2)
  ultimately show ?thesis using h by blast
qed

section \<open>Properties\<close>

text \<open>C37. The reduction tree computes the reduction: when the pair function stands for an associative operation, running
  the submitted pairs in order gives the root tensor the value of reducing the leaves from left to right, for
  any number of leaves; one task is submitted for each leaf but one, and there is a future to wait for
  unless there is a single leaf.\<close>

theorem tree_reduce_value:
  assumes "\<And>x y z. f (f x y) z = f x (f y z)" "quiet_idle e" "issued s leaves"
    "unat (l_next_handle s) + length leaves < 2 ^ 64" "tree_reduce e leaves s = Inr (tasks, root, fut, s')"
  shows "run_pairs f tasks env (t_handle root) = reduce1 f (map (\<lambda>t. env (t_handle t)) leaves) \<and>
    length tasks = length leaves - 1 \<and> (fut = None \<longleftrightarrow> length leaves = 1)"
proof -
  have ne: "leaves \<noteq> []" using assms(5) by (auto simp: tree_reduce_def elim!: bindR_InrE)
  show ?thesis
  proof (cases "length leaves = 1")
    case True
    then obtain x where "leaves = [x]" by (cases leaves) auto
    with assms(5) show ?thesis by (auto simp: tree_reduce_def)
  next
    case False
    with assms(5) ne have "reduce_rounds (length leaves) e leaves None s = Inr (tasks, root, fut, s')"
      by (simp add: tree_reduce_def)
    from reduce_rounds_facts [OF assms(1,2) this assms(4,3) ne, of env] False ne show ?thesis
      by (cases leaves) auto
  qed
qed

theorem tree_reduce_value_witness:
  "\<exists>s a b tasks root fut s'. tree_reduce reduce_env0 [a, b] s = Inr (tasks, root, Some fut, s') \<and>
     run_pairs (+) tasks (\<lambda>h. unat h) (t_handle root) = 3 \<and> length tasks = 1"
proof -
  obtain s a b tasks root fut s' where r: "t_handle a = 1" "t_handle b = 2" "l_next_handle s = 3" "issued s [a, b]"
    "tree_reduce reduce_env0 [a, b] s = Inr (tasks, root, Some fut, s')" using two_leaves by blast
  have q: "quiet_idle reduce_env0" by (simp add: quiet_idle_def reduce_env0_def)
  have "unat (l_next_handle s) + length [a, b] < 2 ^ 64" using r(3) by simp
  from tree_reduce_value [of "(+)", OF add.assoc q r(4) this r(5), of "\<lambda>h. unat h"] r(1,2)
  have "run_pairs (+) tasks (\<lambda>h. unat h) (t_handle root) = 3" "length tasks = 1" by simp_all
  with r(5) show ?thesis by blast
qed



end
