(* ===== verification/Text_Scan.thy ===== *)
theory Text_Scan
  imports Linqu_Prelude
begin

text \<open>
  Reading decimal numbers: \<^verbatim>\<open>std::atoi\<close> as the environment variables and socket paths use it, the
  \<^verbatim>\<open>\d+\<close> of the regular expressions in src/src/discovery, and the \<^verbatim>\<open>%u\<close> of \<^verbatim>\<open>sscanf\<close>. The lemmas relate them
  to the decimal printing of \<open>Linqu_Prelude\<close>.
\<close>

section \<open>Digits\<close>

definition is_digit :: "char \<Rightarrow> bool" where
  "is_digit c = (48 \<le> (of_char c :: nat) \<and> (of_char c :: nat) \<le> 57)"

definition digit_value :: "char \<Rightarrow> nat" where
  "digit_value c = of_char c - 48"

definition dec_value :: "string \<Rightarrow> nat" where
  "dec_value s = foldl (\<lambda>n c. 10 * n + digit_value c) 0 s"

text \<open>The longest prefix of digits and what follows it.\<close>

definition take_digits :: "string \<Rightarrow> string \<times> string" where
  "take_digits s = (takeWhile is_digit s, dropWhile is_digit s)"

text \<open>
  \<^verbatim>\<open>atoi\<close>: white space, a sign, digits; what follows is ignored and no digits give 0. The C library
  computes it with \<^verbatim>\<open>strtol\<close>, which stops at the largest \<^verbatim>\<open>long\<close>, and cuts the result to 32 bits.
\<close>

definition is_space :: "char \<Rightarrow> bool" where
  "is_space c = (c = CHR '' '' \<or> (9 \<le> (of_char c :: nat) \<and> (of_char c :: nat) \<le> 13))"

definition read_sign :: "string \<Rightarrow> bool \<times> string" where
  "read_sign s = (case s of
      [] \<Rightarrow> (False, [])
    | c # s' \<Rightarrow> if c = CHR ''-'' then (True, s') else if c = CHR ''+'' then (False, s') else (False, s))"

definition atoi :: "string \<Rightarrow> i32" where
  "atoi s =
     (let (neg, s) = read_sign (dropWhile is_space s);
          v = int (dec_value (fst (take_digits s)));
          v = (if neg then max (- v) (- (2 ^ 63)) else min v (2 ^ 63 - 1))
      in sint (word_of_int v :: u32))"

section \<open>Printing and reading\<close>

lemma digit_char [simp]:
  "n < 10 \<Longrightarrow> is_digit (char_of (48 + n))"
  "n < 10 \<Longrightarrow> digit_value (char_of (48 + n)) = n"
  by (simp_all add: is_digit_def digit_value_def)

lemma dec_digits_ne [simp]: "dec_digits n \<noteq> []"
  by (subst dec_digits.simps) simp

lemma dec_digits_digits: "\<forall>c \<in> set (dec_digits n). is_digit c"
proof (induction n rule: dec_digits.induct)
  case (1 n)
  then show ?case by (subst dec_digits.simps) auto
qed

lemma dec_value_snoc: "dec_value (s @ [c]) = 10 * dec_value s + digit_value c"
  by (simp add: dec_value_def)

lemma dec_value_dec_digits [simp]: "dec_value (dec_digits n) = n"
proof (induction n rule: dec_digits.induct)
  case (1 n)
  show ?case
  proof (cases "n < 10")
    case True
    then show ?thesis by (subst dec_digits.simps) (simp add: dec_value_def)
  next
    case False
    with 1 show ?thesis by (subst dec_digits.simps) (simp add: dec_value_snoc)
  qed
qed

text \<open>What a non-digit ends is read back.\<close>

lemma take_digits_dec:
  assumes "rest = [] \<or> \<not> is_digit (hd rest)"
  shows "take_digits (dec_digits n @ rest) = (dec_digits n, rest)"
  using assms dec_digits_digits [of n] unfolding take_digits_def
  by (cases rest) (auto simp: takeWhile_append dropWhile_append)

lemma take_digits_dec_here [simp]: "take_digits (dec_digits n) = (dec_digits n, [])"
  using take_digits_dec [of "[]" n] by simp

lemma digit_not_space: "is_digit c \<Longrightarrow> \<not> is_space c \<and> c \<noteq> CHR ''-'' \<and> c \<noteq> CHR ''+''"
  by (auto simp: is_digit_def is_space_def)

lemma dec_digits_unsigned: "read_sign (dropWhile is_space (dec_digits n @ rest)) = (False, dec_digits n @ rest)"
proof -
  obtain c s where c: "dec_digits n = c # s" by (meson dec_digits_ne neq_Nil_conv)
  with dec_digits_digits [of n] have "is_digit c" by simp
  with digit_not_space [OF this] c show ?thesis by (simp add: read_sign_def)
qed

lemma atoi_dec_digits:
  assumes "n < 2 ^ 31" "rest = [] \<or> \<not> is_digit (hd rest)"
  shows "atoi (dec_digits n @ rest) = int n"
proof -
  have "sint (word_of_int (int n) :: u32) = int n"
    using assms(1) by (simp add: signed_of_nat signed_take_bit_int_eq_self)
  then show ?thesis
    using assms by (simp add: atoi_def dec_digits_unsigned take_digits_dec Let_def)
qed

lemmas atoi_dec = atoi_dec_digits [where rest = "[]", simplified]

end
