(* ===== verification/Socket_Transport.thy ===== *)
theory Socket_Transport
  imports Wire_Format Text_Scan
begin

text \<open>
  \<^verbatim>\<open>UnixSocketTransport\<close> (src/src/transport/transport.h, unix_socket_transport.h and .cpp): socket paths, listening, sending
  and receiving one framed message per connection.

  The machine the processes run on is a record: the listening sockets by path, each with the byte
  streams of the connections nobody has accepted yet, the directories made, the files written. What the kernel
  answers to a \<^verbatim>\<open>read\<close> or \<^verbatim>\<open>write\<close> is an argument: a list of events, one per call. A call for which no event is left never returns,
  which is \<open>Diverges\<close>. The outcomes of \<^verbatim>\<open>socket\<close>, \<^verbatim>\<open>bind\<close> and \<^verbatim>\<open>listen\<close> are arguments too; an \<^verbatim>\<open>accept\<close> succeeds when a connection waits.
\<close>

section \<open>The machine\<close>

record machine =
  mc_listeners :: "string \<Rightarrow> byte list list option"
  mc_dirs :: "string list"
  mc_files :: "string \<Rightarrow> byte list option"

definition machine_empty :: machine where
  "machine_empty = \<lparr>mc_listeners = Map.empty, mc_dirs = [], mc_files = Map.empty\<rparr>"

text \<open>The connections that wait at a listening socket.\<close>

definition set_backlog :: "string \<Rightarrow> byte list list \<Rightarrow> machine \<Rightarrow> machine" where
  "set_backlog path conns m = m\<lparr>mc_listeners := (mc_listeners m)(path \<mapsto> conns)\<rparr>"

lemma set_backlog_simps [simp]:
  "mc_listeners (set_backlog p q m) = (mc_listeners m)(p \<mapsto> q)"
  "mc_dirs (set_backlog p q m) = mc_dirs m"
  "mc_files (set_backlog p q m) = mc_files m"
  "set_backlog p q (set_backlog p q' m) = set_backlog p q m"
  by (simp_all add: set_backlog_def)

lemma set_backlog_idem: "mc_listeners m p = Some q \<Longrightarrow> set_backlog p q m = m"
  by (simp add: set_backlog_def fun_upd_idem)

text \<open>The directories \<^verbatim>\<open>mkdir_p\<close> makes, in order: every prefix that ends in a slash, and the whole path.\<close>

primrec mkdir_p_from :: "string \<Rightarrow> string \<Rightarrow> string list" where
  "mkdir_p_from cur [] = []"
| "mkdir_p_from cur (c # cs) =
     (if c = CHR ''/'' \<or> cs = [] then [cur @ [c]] else []) @ mkdir_p_from (cur @ [c]) cs"

definition mkdir_p :: "string \<Rightarrow> machine \<Rightarrow> machine" where
  "mkdir_p path m = m\<lparr>mc_dirs := mc_dirs m @ mkdir_p_from [] path\<rparr>"

definition unlink :: "string \<Rightarrow> machine \<Rightarrow> machine" where
  "unlink path m = m\<lparr>mc_listeners := (mc_listeners m)(path := None)\<rparr>"

text \<open>
  One call of \<^verbatim>\<open>read\<close> or \<^verbatim>\<open>write\<close>: the kernel is ready to move up to \<open>Suc k\<close> bytes, or the call is interrupted
  (\<^verbatim>\<open>EINTR\<close>), or it fails. Neither moves more than was asked for; a read at the end of the stream moves nothing.
\<close>

datatype io_event = Ready nat | Interrupted | Failed

fun sys_write :: "io_event \<Rightarrow> nat \<Rightarrow> int" where
  "sys_write (Ready k) len = int (min (Suc k) len)"
| "sys_write _ len = - 1"

fun sys_read :: "io_event \<Rightarrow> nat \<Rightarrow> nat \<Rightarrow> int" where
  "sys_read (Ready k) len avail = int (min (Suc k) (min len avail))"
| "sys_read _ len avail = - 1"

section \<open>Socket paths\<close>

definition dirname :: "string \<Rightarrow> string" where
  "dirname p = rev (drop 1 (dropWhile (\<lambda>c. c \<noteq> CHR ''/'') (rev p)))"

definition make_socket_path :: "string \<Rightarrow> linqu_coordinate \<Rightarrow> u8 \<Rightarrow> string" where
  "make_socket_path base_path coord level =
     (let p = base_path;
          p = (if p = [] then ''/tmp/linqu'' else p);
          p = (if last p \<noteq> CHR ''/'' then p @ ''/'' else p);
          p = p @ ''L6_'' @ to_string_u (l6_idx coord) @ ''/'';
          p = (if level \<le> 5 then p @ ''L5_'' @ to_string_u (l5_idx coord) @ ''/'' else p);
          p = (if level \<le> 4 then p @ ''L4_'' @ to_string_u (l4_idx coord) @ ''/'' else p);
          p = (if level \<le> 3 then p @ ''L3_'' @ to_string_u (l3_idx coord) @ ''/'' else p)
      in p @ ''daemon_L'' @ to_string_u level @ ''.sock'')"

text \<open>\<^verbatim>\<open>sun_path\<close> of \<^verbatim>\<open>sockaddr_un\<close> has 108 bytes; \<^verbatim>\<open>strncpy\<close> keeps the first 107.\<close>

definition SUN_PATH_SIZE :: nat where
  "SUN_PATH_SIZE = 108"

definition sun_path :: "string \<Rightarrow> string" where
  "sun_path p = take (SUN_PATH_SIZE - 1) p"

section \<open>Listening\<close>

record transport =
  ut_base_path :: string
  ut_self_coord :: linqu_coordinate
  ut_self_level :: u8
  ut_socket_path :: string
  ut_listening :: bool
  ut_stopped :: bool

definition transport_new :: "string \<Rightarrow> linqu_coordinate \<Rightarrow> u8 \<Rightarrow> transport" where
  "transport_new base_path self_coord self_level =
     \<lparr>ut_base_path = base_path, ut_self_coord = self_coord, ut_self_level = self_level,
      ut_socket_path = make_socket_path base_path self_coord self_level,
      ut_listening = False, ut_stopped = False\<rparr>"

record listen_outcome =
  lo_socket :: bool
  lo_bind :: bool
  lo_listen :: bool

definition start_listening :: "listen_outcome \<Rightarrow> transport \<Rightarrow> machine \<Rightarrow> bool \<times> transport \<times> machine" where
  "start_listening os t m =
     (if ut_listening t then (True, t, m)
      else
        let path = ut_socket_path t;
            m = unlink path (mkdir_p (dirname path) m) in
        if \<not> lo_socket os then (False, t, m)
        else if SUN_PATH_SIZE \<le> length path then (False, t, m)
        else if \<not> lo_bind os then (False, t, m)
        else if \<not> lo_listen os then (False, t, m)
        else (True, t\<lparr>ut_listening := True, ut_stopped := False\<rparr>,
              set_backlog path [] m))"

definition transport_stop :: "transport \<Rightarrow> machine \<Rightarrow> transport \<times> machine" where
  "transport_stop t m =
     (t\<lparr>ut_stopped := True, ut_listening := False\<rparr>, unlink (ut_socket_path t) m)"

section \<open>Sending and receiving\<close>

text \<open>The loops over \<^verbatim>\<open>write\<close> and \<^verbatim>\<open>read\<close>. The result is the return value, the bytes moved and the events left.\<close>

fun send_all :: "io_event list \<Rightarrow> byte list \<Rightarrow> (bool \<times> byte list \<times> io_event list) res" where
  "send_all evs [] = Inr (True, [], evs)"
| "send_all [] data = Inl Diverges"
| "send_all (ev # evs) data =
     (let n = sys_write ev (length data) in
      if n \<le> 0 then (if ev = Interrupted then send_all evs data else Inr (False, [], evs))
      else bindR (send_all evs (drop (nat n) data)) (\<lambda>(ok, out, evs).
        Inr (ok, take (nat n) data @ out, evs)))"

fun recv_all :: "io_event list \<Rightarrow> nat \<Rightarrow> byte list \<Rightarrow> (bool \<times> byte list \<times> byte list \<times> io_event list) res" where
  "recv_all evs 0 stream = Inr (True, [], stream, evs)"
| "recv_all [] len stream = Inl Diverges"
| "recv_all (ev # evs) len stream =
     (let n = sys_read ev len (length stream) in
      if n \<le> 0 then
        (if n < 0 \<and> ev = Interrupted then recv_all evs len stream else Inr (False, [], stream, evs))
      else bindR (recv_all evs (len - nat n) (drop (nat n) stream)) (\<lambda>(ok, got, stream', evs).
        Inr (ok, take (nat n) stream @ got, stream', evs)))"

text \<open>\<open>sock_ok\<close>: \<^verbatim>\<open>socket\<close> gave a descriptor. Connecting succeeds exactly when somebody listens at the path. A null
  payload is the empty list.\<close>

definition target_level :: "linqu_header \<Rightarrow> u8" where
  "target_level hdr =
     (if hdr_msg_type hdr = TASK_COMPLETE then sender_level hdr else sender_level hdr - 1)"

definition transport_send ::
  "bool \<Rightarrow> io_event list \<Rightarrow> linqu_coordinate \<Rightarrow> linqu_header \<Rightarrow> byte list \<Rightarrow> transport \<Rightarrow> machine \<Rightarrow>
   (bool \<times> machine) res" where
  "transport_send sock_ok evs target hdr payload t m =
     (let path = sun_path (make_socket_path (ut_base_path t) target (target_level hdr)) in
      if \<not> sock_ok then Inr (False, m)
      else case mc_listeners m path of
        None \<Rightarrow> Inr (False, m)
      | Some backlog \<Rightarrow>
          bindR (send_all evs (header_serialize hdr)) (\<lambda>(ok, out1, evs).
          bindR (if ok \<and> payload \<noteq> [] then send_all evs payload else Inr (ok, [], evs)) (\<lambda>(ok, out2, evs).
            Inr (ok, set_backlog path (backlog @ [out1 @ out2]) m))))"

text \<open>\<^verbatim>\<open>poll\<close> times out when no connection waits. The result is the message, if \<^verbatim>\<open>recv\<close> returns true.\<close>

definition transport_recv ::
  "io_event list \<Rightarrow> transport \<Rightarrow> machine \<Rightarrow> ((linqu_header \<times> byte list) option \<times> machine) res" where
  "transport_recv evs t m =
     (if \<not> ut_listening t \<or> ut_stopped t then Inr (None, m)
      else case mc_listeners m (ut_socket_path t) of
        Some (conn # backlog) \<Rightarrow>
          let m = set_backlog (ut_socket_path t) backlog m in
          bindR (recv_all evs WIRE_SIZE conn) (\<lambda>(ok, wire, conn, evs).
          if \<not> ok then Inr (None, m)
          else bindR (header_deserialize wire) (\<lambda>hdr.
            if magic hdr \<noteq> LINQU_MAGIC then Inr (None, m)
            else if payload_size hdr > 0 then
              bindR (recv_all evs (unat (payload_size hdr)) conn) (\<lambda>(ok, payload, conn, evs).
                Inr (if ok then Some (hdr, payload) else None, m))
            else Inr (Some (hdr, []), m)))
      | _ \<Rightarrow> Inr (None, m))"

section \<open>The loops move every byte\<close>

text \<open>A run of the kernel that gets \<open>n\<close> bytes through: no call fails and enough of them move something.\<close>

definition smooth :: "nat \<Rightarrow> io_event list \<Rightarrow> bool" where
  "smooth n evs = (Failed \<notin> set evs \<and> n \<le> length (filter (\<lambda>ev. ev \<noteq> Interrupted) evs))"

lemma smooth_Cons:
  "smooth n (ev # evs) \<longleftrightarrow> ev \<noteq> Failed \<and> (if ev = Interrupted then smooth n evs else smooth (n - 1) evs)"
  by (auto simp: smooth_def)

lemma smooth_mono: "smooth n evs \<Longrightarrow> k \<le> n \<Longrightarrow> smooth k evs"
  by (simp add: smooth_def)

lemma send_all_smooth:
  assumes "smooth (length data + n) evs"
  shows "\<exists>evs'. send_all evs data = Inr (True, data, evs') \<and> smooth n evs'"
  using assms
proof (induction evs data rule: send_all.induct)
  case (1 evs)
  then show ?case by simp
next
  case (2 d ds)
  then show ?case by (simp add: smooth_def)
next
  case (3 ev evs d ds)
  show ?case
  proof (cases ev)
    case (Ready k)
    from 3(3) Ready have sm: "smooth (length ds + n) evs" by (simp add: smooth_Cons)
    obtain j where j: "sys_write ev (length (d # ds)) = int j" "0 < j"
      using that [of "min (Suc k) (length (d # ds))"] by (simp add: Ready)
    from sm have "smooth (length (drop j (d # ds)) + n) evs"
      by (rule smooth_mono) (use j(2) in simp)
    with 3(2) j have "\<exists>evs'. send_all evs (drop j (d # ds)) = Inr (True, drop j (d # ds), evs') \<and> smooth n evs'"
      by simp
    then show ?thesis using j by (auto simp: Let_def simp del: drop_Cons take_Cons)
  qed (use 3 in \<open>auto simp: smooth_Cons\<close>)
qed

lemma recv_all_smooth:
  assumes "smooth (len + n) evs" "len \<le> length stream"
  shows "\<exists>evs'. recv_all evs len stream = Inr (True, take len stream, drop len stream, evs') \<and> smooth n evs'"
  using assms
proof (induction evs len stream rule: recv_all.induct)
  case (1 evs stream)
  then show ?case by simp
next
  case (2 k stream)
  then show ?case by (simp add: smooth_def)
next
  case (3 ev evs l stream)
  show ?case
  proof (cases ev)
    case (Ready k)
    from 3(3) Ready have sm: "smooth (l + n) evs" by (simp add: smooth_Cons)
    obtain j where j: "sys_read ev (Suc l) (length stream) = int j" "0 < j" "j \<le> Suc l"
      using 3(4) by (auto simp: Ready min_def split: if_splits)
    from sm j(2,3) have "smooth (Suc l - j + n) evs" by (elim smooth_mono) simp
    with 3(2,4) j have "\<exists>evs'. recv_all evs (Suc l - j) (drop j stream) =
        Inr (True, take (Suc l - j) (drop j stream), drop (Suc l - j) (drop j stream), evs') \<and> smooth n evs'"
      by simp
    moreover have "take j stream @ take (Suc l - j) (drop j stream) = take (Suc l) stream"
      using j(3) by (metis le_add_diff_inverse take_add)
    ultimately show ?thesis using j by (auto simp: Let_def)
  qed (use 3 in \<open>auto simp: smooth_Cons\<close>)
qed

text \<open>A stream that ends before the bytes asked for makes the read fail, at the latest when it has ended.\<close>

lemma recv_all_short:
  assumes "smooth (Suc (length stream)) evs" "length stream < len"
  shows "\<exists>got rest evs'. recv_all evs len stream = Inr (False, got, rest, evs')"
  using assms
proof (induction evs len stream rule: recv_all.induct)
  case (1 evs stream)
  then show ?case by simp
next
  case (2 k stream)
  then show ?case by (simp add: smooth_def)
next
  case (3 ev evs l stream)
  show ?case
  proof (cases ev)
    case (Ready k)
    from 3(3) Ready have sm: "smooth (length stream) evs" by (simp add: smooth_Cons)
    show ?thesis
    proof (cases "stream = []")
      case False
      then obtain j where j: "sys_read ev (Suc l) (length stream) = int j" "0 < j" "j \<le> length stream"
        using 3(4) by (cases stream) (auto simp: Ready min_def)
      from sm j(2,3) have "smooth (Suc (length (drop j stream))) evs" by (elim smooth_mono) simp
      with 3(2,4) j have "\<exists>got rest evs'. recv_all evs (Suc l - j) (drop j stream) = Inr (False, got, rest, evs')"
        by simp
      with j show ?thesis by (auto simp: Let_def)
    qed (simp add: Ready)
  qed (use 3 in \<open>auto simp: smooth_Cons\<close>)
qed

section \<open>What a connection carries\<close>

text \<open>The reference reader of a whole connection, without any loop.\<close>

definition parse_frame :: "byte list \<Rightarrow> (linqu_header \<times> byte list) option" where
  "parse_frame conn =
     (if length conn < WIRE_SIZE then None
      else case header_deserialize (take WIRE_SIZE conn) of
        Inl e \<Rightarrow> None
      | Inr hdr \<Rightarrow>
          if magic hdr = LINQU_MAGIC \<and> WIRE_SIZE + unat (payload_size hdr) \<le> length conn
          then Some (hdr, take (unat (payload_size hdr)) (drop WIRE_SIZE conn)) else None)"

lemma header_deserialize_total:
  assumes "length buf = WIRE_SIZE"
  shows "\<exists>h. header_deserialize buf = Inr h"
proof -
  have rd: "\<exists>v. read_u8 buf off = Inr v" if "off < 24" for off
    using assms that by (intro read_in_range) (simp add: WIRE_SIZE_def)
  have rw: "\<exists>v. read_u32 buf off = Inr v" if "off \<le> 20" for off
    using assms that by (intro read_in_range) (simp add: WIRE_SIZE_def)
  define b where "b off = projr (read_u8 buf off)" for off
  define w where "w off = projr (read_u32 buf off)" for off
  have "read_u8 buf off = Inr (b off)" if "off < 24" for off
    using rd [OF that] by (auto simp: b_def)
  moreover have "read_u32 buf off = Inr (w off)" if "off \<le> 20" for off
    using rw [OF that] by (auto simp: w_def)
  ultimately show ?thesis by (simp add: header_deserialize_def)
qed

lemma recv_frame:
  assumes "mc_listeners m (ut_socket_path t) = Some (conn # backlog)" "ut_listening t" "\<not> ut_stopped t"
    and "smooth (Suc (length conn)) evs"
  shows "transport_recv evs t m =
    Inr (parse_frame conn, set_backlog (ut_socket_path t) backlog m)"
proof (cases "length conn < WIRE_SIZE")
  case True
  then obtain got rest evs' where "recv_all evs WIRE_SIZE conn = Inr (False, got, rest, evs')"
    using recv_all_short assms(4) by blast
  with True assms(1-3) show ?thesis by (simp add: transport_recv_def parse_frame_def)
next
  case False
  then have "smooth (WIRE_SIZE + Suc (length (drop WIRE_SIZE conn))) evs" using assms(4) by simp
  with False obtain evs' where
    e: "recv_all evs WIRE_SIZE conn = Inr (True, take WIRE_SIZE conn, drop WIRE_SIZE conn, evs')"
       "smooth (Suc (length (drop WIRE_SIZE conn))) evs'"
    using recv_all_smooth [of WIRE_SIZE "Suc (length (drop WIRE_SIZE conn))" evs conn] by (auto simp: not_less)
  from False obtain hdr where h: "header_deserialize (take WIRE_SIZE conn) = Inr hdr"
    using header_deserialize_total [of "take WIRE_SIZE conn"] by auto
  let ?n = "unat (payload_size hdr)"
  have "\<exists>got rest evs''. recv_all evs' ?n (drop WIRE_SIZE conn) =
      Inr (?n \<le> length (drop WIRE_SIZE conn), got, rest, evs'') \<and>
      (?n \<le> length (drop WIRE_SIZE conn) \<longrightarrow> got = take ?n (drop WIRE_SIZE conn))"
  proof (cases "?n \<le> length (drop WIRE_SIZE conn)")
    case True
    then show ?thesis
      using recv_all_smooth [of ?n 0 evs' "drop WIRE_SIZE conn"] smooth_mono [OF e(2), of ?n] by auto
  next
    case False
    then show ?thesis using recv_all_short [OF e(2), of ?n] by auto
  qed
  then show ?thesis
    using False assms(1-3) e(1) h
    by (auto simp: transport_recv_def parse_frame_def Let_def unat_gt_0 word_gt_0 le_diff_conv2)
qed

section \<open>Messages between two processes\<close>

text \<open>A header that frames a payload; several messages sent, or received, one after the other.\<close>

definition frames :: "linqu_header \<Rightarrow> byte list \<Rightarrow> bool" where
  "frames hdr payload = (magic hdr = LINQU_MAGIC \<and> unat (payload_size hdr) = length payload)"

primrec send_msgs ::
  "(io_event list \<times> linqu_header \<times> byte list) list \<Rightarrow> linqu_coordinate \<Rightarrow> transport \<Rightarrow> machine \<Rightarrow>
   (bool list \<times> machine) res" where
  "send_msgs [] target t m = Inr ([], m)"
| "send_msgs (x # xs) target t m = (case x of (evs, hdr, payload) \<Rightarrow>
     bindR (transport_send True evs target hdr payload t m) (\<lambda>(ok, m).
     bindR (send_msgs xs target t m) (\<lambda>(oks, m). Inr (ok # oks, m))))"

primrec recv_msgs ::
  "io_event list list \<Rightarrow> transport \<Rightarrow> machine \<Rightarrow> ((linqu_header \<times> byte list) option list \<times> machine) res" where
  "recv_msgs [] t m = Inr ([], m)"
| "recv_msgs (evs # evss) t m =
     bindR (transport_recv evs t m) (\<lambda>(msg, m).
     bindR (recv_msgs evss t m) (\<lambda>(msgs, m). Inr (msg # msgs, m)))"

lemma parse_frame_serialize:
  "frames hdr payload \<Longrightarrow> parse_frame (header_serialize hdr @ payload) = Some (hdr, payload)"
  by (simp add: parse_frame_def frames_def header_read_back)

lemma send_frame:
  assumes "mc_listeners m path = Some backlog" "path = make_socket_path (ut_base_path t) target (target_level hdr)"
    and "length path < SUN_PATH_SIZE" "smooth (WIRE_SIZE + length payload) evs"
  shows "transport_send True evs target hdr payload t m =
    Inr (True, set_backlog path (backlog @ [header_serialize hdr @ payload]) m)"
proof -
  from assms(4) obtain evs' where e: "send_all evs (header_serialize hdr) = Inr (True, header_serialize hdr, evs')"
      "smooth (length payload) evs'"
    using send_all_smooth [of "header_serialize hdr" "length payload" evs] by auto
  obtain evs'' where "send_all evs' payload = Inr (True, payload, evs'')"
    using send_all_smooth [of payload 0 evs'] e(2) by auto
  moreover have "sun_path path = path"
    using assms(3) by (simp add: sun_path_def SUN_PATH_SIZE_def)
  ultimately show ?thesis using assms(1,2) e(1) by (simp add: transport_send_def Let_def)
qed

lemma send_frames:
  assumes "mc_listeners m path = Some backlog" "path = make_socket_path (ut_base_path t) target lv"
    and "length path < SUN_PATH_SIZE"
    and "\<forall>(evs, hdr, payload) \<in> set msgs. target_level hdr = lv \<and> smooth (WIRE_SIZE + length payload) evs"
  shows "send_msgs msgs target t m = Inr (replicate (length msgs) True,
    set_backlog path (backlog @ map (\<lambda>(evs, hdr, payload). header_serialize hdr @ payload) msgs) m)"
  using assms
proof (induction msgs arbitrary: m backlog)
  case Nil
  then show ?case by (simp add: set_backlog_idem)
next
  case (Cons x msgs)
  obtain evs hdr payload where x: "x = (evs, hdr, payload)" by (cases x)
  let ?m = "set_backlog path (backlog @ [header_serialize hdr @ payload]) m"
  have "transport_send True evs target hdr payload t m = Inr (True, ?m)"
    using Cons.prems x by (intro send_frame) auto
  with Cons.IH [of ?m "backlog @ [header_serialize hdr @ payload]"] Cons.prems x show ?case by simp
qed

lemma recv_frames:
  assumes "mc_listeners m (ut_socket_path t) = Some (conns @ backlog)" "ut_listening t" "\<not> ut_stopped t"
    and "list_all2 (\<lambda>evs conn. smooth (Suc (length conn)) evs) evss conns"
  shows "recv_msgs evss t m = Inr (map parse_frame conns,
    set_backlog (ut_socket_path t) backlog m)"
  using assms(4,1-3)
proof (induction evss conns arbitrary: m rule: list_all2_induct)
  case Nil
  then show ?case by (simp add: set_backlog_idem)
next
  case (Cons evs evss conn conns)
  then show ?case by (simp add: recv_frame)
qed

text \<open>A host at rest that listens at its socket, for the concrete instances below.\<close>

definition ex_host :: transport where
  "ex_host = (transport_new ''/t'' coord_zero 3)\<lparr>ut_listening := True\<rparr>"

definition ex_header :: "nat \<Rightarrow> linqu_header" where
  "ex_header n = header_make HEARTBEAT 4 coord_zero coord_zero (of_nat n)"

lemma ex_host_simps [simp]:
  "ut_listening ex_host" "\<not> ut_stopped ex_host"
  "ut_socket_path ex_host = make_socket_path ''/t'' coord_zero 3" "ut_base_path ex_host = ''/t''"
  by (simp_all add: ex_host_def transport_new_def)

lemma ex_header_simps [simp]:
  "target_level (ex_header n) = 3" "magic (ex_header n) = LINQU_MAGIC" "payload_size (ex_header n) = of_nat n"
  by (simp_all add: ex_header_def target_level_def header_make_def set_target_def set_sender_def)

lemma ex_path: "length (make_socket_path ''/t'' coord_zero 3) < SUN_PATH_SIZE"
  by (simp add: make_socket_path_def to_string_u_def coord_zero_def dec_digits.simps SUN_PATH_SIZE_def)

section \<open>Properties\<close>

text \<open>C39.
  \<^verbatim>\<open>recv\<close> reads a connection exactly as the reference reader does, however the kernel cuts the stream into
  reads: as long as no read fails and one read more than the connection has bytes gets through, it
  returns, and returns a message exactly when the connection holds a whole header with the magic
  number and as many payload bytes as the header announces; a truncated connection is refused, not
  waited for; bytes after the announced payload are dropped.\<close>

theorem recv_exact:
  assumes "mc_listeners m (ut_socket_path t) = Some (conn # backlog)"
    and "ut_listening t" "\<not> ut_stopped t"
    and "smooth (length conn + 1) evs"
  shows "transport_recv evs t m =
    Inr (parse_frame conn, set_backlog (ut_socket_path t) backlog m)"
  using assms by (intro recv_frame) simp_all

theorem recv_exact_witness:
  "transport_recv (Interrupted # replicate 28 (Ready 6)) ex_host
     (set_backlog (ut_socket_path ex_host) [header_serialize (ex_header 2) @ [7, 9, 1]] machine_empty) =
   Inr (Some (ex_header 2, [7, 9]), set_backlog (ut_socket_path ex_host) [] machine_empty)"
proof -
  let ?c = "header_serialize (ex_header 2) @ [7, 9, 1]"
  have "smooth (length ?c + 1) (Interrupted # replicate 28 (Ready 6))"
    by (simp add: smooth_def WIRE_SIZE_def)
  moreover have "parse_frame ?c = Some (ex_header 2, [7, 9])"
    by (simp add: parse_frame_def header_read_back)
  ultimately show ?thesis
    using recv_exact [of "set_backlog (ut_socket_path ex_host) [?c] machine_empty" ex_host ?c "[]"] by simp
qed

text \<open>C12.
  Messages arrive: whatever the sizes of the single writes and reads, and however often they are interrupted, messages sent to
  a listening process are received by it complete, unchanged and in the order they were sent, when
  their headers announce their sizes and the socket path fits its address structure.\<close>

theorem messages_arrive_in_order:
  assumes "mc_listeners m (ut_socket_path r) = Some []"
    and "ut_listening r" "\<not> ut_stopped r"
    and "ut_socket_path r = make_socket_path (ut_base_path t) target lv"
    and "length (ut_socket_path r) < SUN_PATH_SIZE"
    and "\<forall>(evs, hdr, payload) \<in> set msgs.
           target_level hdr = lv \<and> frames hdr payload \<and> smooth (WIRE_SIZE + length payload) evs"
    and "list_all2 (\<lambda>evs (_, hdr, payload). smooth (WIRE_SIZE + length payload + 1) evs) evss msgs"
  shows "\<exists>m'. send_msgs msgs target t m = Inr (replicate (length msgs) True, m') \<and>
    recv_msgs evss r m' = Inr (map (\<lambda>(_, hdr, payload). Some (hdr, payload)) msgs, m)"
proof -
  let ?frame = "\<lambda>(evs, hdr, payload). header_serialize hdr @ payload"
  let ?m = "set_backlog (ut_socket_path r) (map ?frame msgs) m"
  have "send_msgs msgs target t m = Inr (replicate (length msgs) True, ?m)"
    using send_frames [OF assms(1,4,5), of msgs] assms(6) by (auto split: prod.splits)
  moreover have "list_all2 (\<lambda>evs conn. smooth (Suc (length conn)) evs) evss (map ?frame msgs)"
    using assms(7) by (auto simp: list_all2_conv_all_nth split: prod.splits)
  then have "recv_msgs evss r ?m = Inr (map parse_frame (map ?frame msgs), m)"
    using recv_frames [of ?m r "map ?frame msgs" "[]" evss] assms(1-3) by (simp add: set_backlog_idem)
  moreover have "map parse_frame (map ?frame msgs) = map (\<lambda>(_, hdr, payload). Some (hdr, payload)) msgs"
    using assms(6) by (auto simp: parse_frame_serialize)
  ultimately show ?thesis by auto
qed

theorem messages_arrive_in_order_witness:
  "\<exists>m'. send_msgs [(replicate 26 (Ready 0), ex_header 2, [7, 9]), (replicate 24 (Ready 99), ex_header 0, [])]
      coord_zero ex_host (set_backlog (ut_socket_path ex_host) [] machine_empty) = Inr ([True, True], m') \<and>
    recv_msgs [replicate 27 (Ready 3), Interrupted # replicate 25 (Ready 1)] ex_host m' =
      Inr ([Some (ex_header 2, [7, 9]), Some (ex_header 0, [])],
           set_backlog (ut_socket_path ex_host) [] machine_empty)"
  using messages_arrive_in_order [of "set_backlog (ut_socket_path ex_host) [] machine_empty" ex_host ex_host
      coord_zero 3 "[(replicate 26 (Ready 0), ex_header 2, [7, 9]), (replicate 24 (Ready 99), ex_header 0, [])]"
      "[replicate 27 (Ready 3), Interrupted # replicate 25 (Ready 1)]"] ex_path
  by (simp add: smooth_def frames_def WIRE_SIZE_def)

end
