(* ===== verification/Dispatchers.thy ===== *)
theory Dispatchers
  imports Orchestrator Socket_Transport
begin

text \<open>
  The three dispatchers of src/src/runtime: \<^verbatim>\<open>LocalDispatcher\<close>, \<^verbatim>\<open>MockDispatcher\<close> and \<^verbatim>\<open>RemoteDispatcher\<close>, over the
  interface of linqu_dispatcher.h. A dispatcher runs beside a client, whose state is a type parameter: the completion callback is a
  function on the dispatcher and the client together, so it may dispatch again. The remote
  dispatcher also acts on the machine of \<open>Socket_Transport\<close>. Its mutex is a flag: the callback
  of a failed send runs while it is held.
\<close>

section \<open>Results and callbacks\<close>

record dispatch_result =
  dr_task_id :: i32
  dr_status :: dispatch_status
  dr_error_code :: i32

type_synonym 'w completion_fn = "(dispatch_result \<Rightarrow> 'w \<Rightarrow> 'w res) option"

definition notify_completion :: "'w completion_fn \<Rightarrow> dispatch_result \<Rightarrow> 'w \<Rightarrow> 'w res" where
  "notify_completion fn r w = (case fn of None \<Rightarrow> Inr w | Some f \<Rightarrow> f r w)"

definition completed :: "i32 \<Rightarrow> dispatch_result" where
  "completed tid = \<lparr>dr_task_id = tid, dr_status = D_COMPLETED, dr_error_code = 0\<rparr>"

section \<open>The local and the mock dispatcher\<close>

text \<open>\<^verbatim>\<open>dlopen\<close> and \<^verbatim>\<open>dlclose\<close> of the kernel leave no trace; the latency only sleeps.\<close>

record local_dispatcher =
  ld_dispatched_count :: int
  ld_outstanding :: int

definition local_dispatch ::
  "(local_dispatcher \<times> 's) completion_fn \<Rightarrow> i32 \<Rightarrow> linqu_coordinate \<Rightarrow> string \<Rightarrow> linqu_param list \<Rightarrow>
   local_dispatcher \<times> 's \<Rightarrow> (bool \<times> local_dispatcher \<times> 's) res" where
  "local_dispatch fn task_id target kernel_so params w =
     (case w of (d, s) \<Rightarrow>
        let d = d\<lparr>ld_dispatched_count := ld_dispatched_count d + 1, ld_outstanding := ld_outstanding d + 1\<rparr>;
            d = d\<lparr>ld_outstanding := ld_outstanding d - 1\<rparr> in
        bindR (notify_completion fn (completed task_id) (d, s)) (\<lambda>w. Inr (True, w)))"

definition local_wait_all_returns :: "local_dispatcher \<Rightarrow> bool" where
  "local_wait_all_returns d = (\<not> 0 < ld_outstanding d)"

record mock_record =
  mr_task_id :: i32
  mr_target :: linqu_coordinate
  mr_kernel_so :: string
  mr_num_params :: nat

definition mock_dispatch ::
  "(mock_record list \<times> 's) completion_fn \<Rightarrow> i32 \<Rightarrow> linqu_coordinate \<Rightarrow> string \<Rightarrow> linqu_param list \<Rightarrow>
   mock_record list \<times> 's \<Rightarrow> (bool \<times> mock_record list \<times> 's) res" where
  "mock_dispatch fn task_id target kernel_so params w =
     (case w of (records, s) \<Rightarrow>
        let records = records @ [\<lparr>mr_task_id = task_id, mr_target = target, mr_kernel_so = kernel_so,
                                  mr_num_params = length params\<rparr>] in
        bindR (notify_completion fn (completed task_id) (records, s)) (\<lambda>w. Inr (True, w)))"

definition mock_reset :: "mock_record list \<Rightarrow> mock_record list" where
  "mock_reset records = []"

section \<open>The remote dispatcher\<close>

record remote_dispatcher =
  rd_transport :: transport
  rd_self_coord :: linqu_coordinate
  rd_self_level :: u8
  rd_running :: bool
  rd_mu :: bool
  rd_pending :: "i32 \<Rightarrow> dispatch_status option"
  rd_outstanding :: i32

definition remote_new :: "transport \<Rightarrow> linqu_coordinate \<Rightarrow> u8 \<Rightarrow> remote_dispatcher" where
  "remote_new t self_coord self_level =
     \<lparr>rd_transport = t, rd_self_coord = self_coord, rd_self_level = self_level, rd_running = False,
      rd_mu = False, rd_pending = Map.empty, rd_outstanding = 0\<rparr>"

fun param_code :: "param_type \<Rightarrow> u8" where
  "param_code PARAM_INPUT = 0"
| "param_code PARAM_OUTPUT = 1"
| "param_code PARAM_INOUT = 2"
| "param_code PARAM_SCALAR = 3"

definition param_entry_of :: "linqu_param \<Rightarrow> param_entry" where
  "param_entry_of p =
     \<lparr>pe_type = param_code (p_type p), pe_handle = p_handle p, pe_scalar_value = p_scalar_value p\<rparr>"

definition call_payload :: "i32 \<Rightarrow> string \<Rightarrow> linqu_param list \<Rightarrow> call_task_payload" where
  "call_payload task_id kernel_so params =
     \<lparr>ct_kernel_so_name = kernel_so, ct_task_id = word_of_int task_id, ct_scope_depth = 0,
      ct_num_params = of_nat (length params), ct_params = map param_entry_of params\<rparr>"

text \<open>\<^verbatim>\<open>std::lock_guard\<close> on \<^verbatim>\<open>mu_\<close>: locking it while it is held never returns.\<close>

definition rd_lock :: "remote_dispatcher \<Rightarrow> remote_dispatcher res" where
  "rd_lock d = (if rd_mu d then Inl SelfDeadlock else Inr (d\<lparr>rd_mu := True\<rparr>))"

definition rd_unlock :: "remote_dispatcher \<Rightarrow> remote_dispatcher" where
  "rd_unlock d = d\<lparr>rd_mu := False\<rparr>"

text \<open>\<open>sock_ok\<close> and \<open>evs\<close> are what the operating system answers to the send.\<close>

definition remote_dispatch ::
  "(remote_dispatcher \<times> machine \<times> 's) completion_fn \<Rightarrow> bool \<Rightarrow> io_event list \<Rightarrow>
   i32 \<Rightarrow> linqu_coordinate \<Rightarrow> string \<Rightarrow> linqu_param list \<Rightarrow>
   remote_dispatcher \<times> machine \<times> 's \<Rightarrow> (bool \<times> remote_dispatcher \<times> machine \<times> 's) res" where
  "remote_dispatch fn sock_ok evs task_id target kernel_so params w =
     (case w of (d, m, s) \<Rightarrow>
        bindR (call_task_serialize (call_payload task_id kernel_so params)) (\<lambda>buf.
        let hdr = header_make CALL_TASK (rd_self_level d) (rd_self_coord d) target (of_nat (length buf)) in
        bindR (rd_lock d) (\<lambda>d.
        bindR (inc_i32 (rd_outstanding d)) (\<lambda>n.
        let d = rd_unlock (d\<lparr>rd_pending := (rd_pending d)(task_id \<mapsto> D_PENDING), rd_outstanding := n\<rparr>) in
        bindR (transport_send sock_ok evs target hdr buf (rd_transport d) m) (\<lambda>(ok, m).
        if ok then Inr (True, d, m, s)
        else
          bindR (rd_lock d) (\<lambda>d.
          let d = d\<lparr>rd_pending := (rd_pending d)(task_id \<mapsto> D_FAILED), rd_outstanding := rd_outstanding d - 1\<rparr> in
          bindR (notify_completion fn \<lparr>dr_task_id = task_id, dr_status = D_FAILED, dr_error_code = - 1\<rparr> (d, m, s))
            (\<lambda>(d, m, s). Inr (False, rd_unlock d, m, s))))))))"

text \<open>\<^verbatim>\<open>wait_all\<close> sleeps on \<^verbatim>\<open>cv_\<close> until this holds.\<close>

definition remote_wait_all_returns :: "remote_dispatcher \<Rightarrow> bool" where
  "remote_wait_all_returns d = (rd_outstanding d \<le> 0)"

text \<open>\<^verbatim>\<open>LinquOrchestratorState::wait_all\<close>, with the dispatcher the state was given.\<close>

definition orch_wait_all_returns :: "local_dispatcher \<Rightarrow> remote_dispatcher \<Rightarrow> orch \<Rightarrow> bool" where
  "orch_wait_all_returns l r s =
     (case o_dispatcher s of
        NoDispatcher \<Rightarrow> True | SyncDispatcher \<Rightarrow> local_wait_all_returns l | AsyncDispatcher \<Rightarrow> remote_wait_all_returns r)"

definition start_recv_loop :: "remote_dispatcher \<Rightarrow> remote_dispatcher" where
  "start_recv_loop d = (if rd_running d then d else d\<lparr>rd_running := True\<rparr>)"

definition stop_recv_loop :: "remote_dispatcher \<Rightarrow> remote_dispatcher" where
  "stop_recv_loop d = d\<lparr>rd_running := False\<rparr>"

text \<open>One iteration of the loop of \<^verbatim>\<open>recv_thread_fn\<close>.\<close>

definition remote_recv_turn ::
  "(remote_dispatcher \<times> machine \<times> 's) completion_fn \<Rightarrow> io_event list \<Rightarrow>
   remote_dispatcher \<times> machine \<times> 's \<Rightarrow> (remote_dispatcher \<times> machine \<times> 's) res" where
  "remote_recv_turn fn evs w =
     (case w of (d, m, s) \<Rightarrow>
        if \<not> rd_running d then Inr (d, m, s)
        else bindR (transport_recv evs (rd_transport d) m) (\<lambda>(msg, m).
          case msg of
            None \<Rightarrow> Inr (d, m, s)
          | Some (hdr, payload) \<Rightarrow>
              if hdr_msg_type hdr = TASK_COMPLETE then
                bindR (task_complete_deserialize payload) (\<lambda>comp.
                let tid = sint (tc_task_id comp);
                    st = (if tc_status comp = 0 then D_COMPLETED else D_FAILED) in
                bindR (notify_completion fn
                    \<lparr>dr_task_id = tid, dr_status = st, dr_error_code = tc_status comp\<rparr> (d, m, s)) (\<lambda>(d, m, s).
                bindR (rd_lock d) (\<lambda>d.
                  Inr (rd_unlock (d\<lparr>rd_pending := (rd_pending d)(tid \<mapsto> st),
                                    rd_outstanding := rd_outstanding d - 1\<rparr>), m, s))))
              else Inr (d, m, s)))"

section \<open>A client that records what it is told\<close>

definition record_fn :: "(remote_dispatcher \<times> machine \<times> dispatch_result list) completion_fn" where
  "record_fn = Some (\<lambda>r (d, m, log). Inr (d, m, log @ [r]))"

datatype rd_event =
    E_Call i32 linqu_coordinate string "linqu_param list" bool "io_event list"
  | E_Turn "io_event list"

fun rd_apply ::
  "rd_event \<Rightarrow> remote_dispatcher \<times> machine \<times> dispatch_result list \<Rightarrow>
   (remote_dispatcher \<times> machine \<times> dispatch_result list) res" where
  "rd_apply (E_Call tid target k params sock_ok evs) w =
     bindR (remote_dispatch record_fn sock_ok evs tid target k params w) (\<lambda>(ok, w). Inr w)"
| "rd_apply (E_Turn evs) w = remote_recv_turn record_fn evs w"

fun calls :: "rd_event list \<Rightarrow> i32 list" where
  "calls [] = []"
| "calls (E_Call tid _ _ _ _ _ # es) = tid # calls es"
| "calls (E_Turn _ # es) = calls es"

text \<open>Tasks called and not yet reported on, as a count.\<close>

lemma notify_record [simp]: "notify_completion record_fn r (d, m, log) = Inr (d, m, log @ [r])"
  by (simp add: notify_completion_def record_fn_def)

lemma inc_i32_Inr: "inc_i32 x = Inr y \<Longrightarrow> y = x + 1"
  by (auto simp: inc_i32_def split: if_splits)

lemma remote_dispatch_counts:
  assumes "remote_dispatch record_fn sock_ok evs tid target k params (d, m, log) = Inr (ok, d', m', log')"
    and "\<not> rd_mu d"
  shows "\<not> rd_mu d' \<and> rd_outstanding d' + int (length log') = rd_outstanding d + int (length log) + 1 \<and>
    (\<exists>new. log' = log @ new)"
  using assms
  by (auto simp: remote_dispatch_def rd_lock_def rd_unlock_def Let_def bindR_Inr_iff dest!: inc_i32_Inr
      split: if_splits)

lemma remote_turn_counts:
  assumes "remote_recv_turn record_fn evs (d, m, log) = Inr (d', m', log')" and "\<not> rd_mu d"
  shows "\<not> rd_mu d' \<and> rd_outstanding d' + int (length log') = rd_outstanding d + int (length log) \<and>
    (\<exists>new. log' = log @ new)"
proof (cases "rd_running d")
  case True
  with assms(1) obtain msg m1 where r: "transport_recv evs (rd_transport d) m = Inr (msg, m1)"
    by (cases "transport_recv evs (rd_transport d) m") (auto simp: remote_recv_turn_def)
  show ?thesis
  proof (cases msg)
    case (Some x)
    obtain hdr payload where "x = (hdr, payload)" by (cases x)
    with Some r True assms show ?thesis
      by (auto simp: remote_recv_turn_def rd_lock_def rd_unlock_def Let_def bindR_Inr_iff split: if_splits)
  qed (use r True assms in \<open>simp add: remote_recv_turn_def\<close>)
qed (use assms in \<open>simp add: remote_recv_turn_def\<close>)

lemma rd_run_counts:
  assumes "foldR rd_apply es (d, m, log) = Inr (d', m', log')" "\<not> rd_mu d"
  shows "\<not> rd_mu d' \<and> rd_outstanding d' + int (length log') = rd_outstanding d + int (length log) + int (length (calls es))"
  using assms
proof (induction es arbitrary: d m log)
  case Nil
  then show ?case by simp
next
  case (Cons e es)
  from Cons.prems obtain w where "rd_apply e (d, m, log) = Inr w" "foldR rd_apply es w = Inr (d', m', log')"
    by (auto simp: bindR_Inr_iff)
  then obtain d1 m1 log1 where w: "rd_apply e (d, m, log) = Inr (d1, m1, log1)"
      "foldR rd_apply es (d1, m1, log1) = Inr (d', m', log')"
    by (cases w) auto
  show ?case
  proof (cases e)
    case (E_Call tid target k params sock_ok evs)
    with w(1) obtain ok where "remote_dispatch record_fn sock_ok evs tid target k params (d, m, log) = Inr (ok, d1, m1, log1)"
      by (auto simp: bindR_Inr_iff)
    from remote_dispatch_counts [OF this Cons.prems(2)] Cons.IH [OF w(2)] E_Call show ?thesis by simp
  next
    case (E_Turn evs)
    with w(1) remote_turn_counts [of evs d m log] Cons.prems(2) Cons.IH [OF w(2)] show ?thesis by simp
  qed
qed

section \<open>Properties\<close>


definition ex_events :: "rd_event list" where
  "ex_events = [E_Call 5 coord_zero ''k'' [] False [], E_Turn []]"

definition ex_rd :: remote_dispatcher where
  "ex_rd = start_recv_loop (remote_new (transport_new '''' coord_zero 4) coord_zero 4)"


text \<open>
  The callback of a failed send runs while the mutex is held: a callback that dispatches again, as one that retries on another
  node would, locks it a second time.
\<close>

lemma failed_send_callback_deadlocks:
  assumes "call_task_serialize (call_payload tid k params) = Inr buf" "\<not> rd_mu d" "rd_outstanding d < INT32_MAX"
    and "fn = Some (\<lambda>r w. bindR (remote_dispatch None True evs tid other k params w) (\<lambda>(ok, w). Inr w))"
  shows "remote_dispatch fn False evs tid target k params (d, m, s) = Inl SelfDeadlock"
  using assms
  by (simp add: remote_dispatch_def rd_lock_def rd_unlock_def inc_i32_def transport_send_def notify_completion_def Let_def)

text \<open>A completion message of fewer than eight bytes is taken for the completion of task 0.\<close>

lemma short_reply_completes_task_zero:
  assumes "transport_recv evs (rd_transport d) m = Inr (Some (hdr, payload), m')" "hdr_msg_type hdr = TASK_COMPLETE"
    and "length payload < 8" "rd_running d" "\<not> rd_mu d"
  shows "\<exists>d'. remote_recv_turn record_fn evs (d, m, log) = Inr (d', m', log @ [completed 0]) \<and>
    rd_pending d' 0 = Some D_COMPLETED \<and> rd_outstanding d' = rd_outstanding d - 1"
  using assms
  by (simp add: remote_recv_turn_def task_complete_deserialize_def rd_lock_def rd_unlock_def completed_def)

end
