(* ===== verification/Ordered_Map.thy ===== *)
theory Ordered_Map
  imports Main
begin

text \<open>
  \<^verbatim>\<open>std::map\<close> as the peer registry uses it: an association list whose keys increase. \<open>dictionary\<close> states what a
  client relies on: assignment, erasure and lookup against the partial map they stand for; an iteration meets every entry once.
\<close>

section \<open>The interface\<close>

locale dictionary =
  fixes put :: "'k \<Rightarrow> 'v \<Rightarrow> 'd \<Rightarrow> 'd"
    and erase :: "'k \<Rightarrow> 'd \<Rightarrow> 'd"
    and entries :: "'d \<Rightarrow> ('k \<times> 'v) list"
    and inv :: "'d \<Rightarrow> bool"
  assumes inv_put: "inv d \<Longrightarrow> inv (put k v d)"
    and inv_erase: "inv d \<Longrightarrow> inv (erase k d)"
    and distinct_entries: "inv d \<Longrightarrow> distinct (map fst (entries d))"
    and lookup_put: "inv d \<Longrightarrow> map_of (entries (put k v d)) = (map_of (entries d))(k \<mapsto> v)"
    and lookup_erase: "inv d \<Longrightarrow> map_of (entries (erase k d)) = (map_of (entries d))(k := None)"
begin

lemma entries_iff: "inv d \<Longrightarrow> (k, v) \<in> set (entries d) \<longleftrightarrow> map_of (entries d) k = Some v"
  by (simp add: distinct_entries map_of_eq_Some_iff)

lemma entries_put:
  assumes "inv d"
  shows "set (entries (put k v d)) = insert (k, v) {(k', v') \<in> set (entries d). k' \<noteq> k}"
  using assms inv_put [OF assms] by (auto simp: entries_iff lookup_put split: if_splits)

lemma entries_erase:
  assumes "inv d"
  shows "set (entries (erase k d)) = {(k', v') \<in> set (entries d). k' \<noteq> k}"
  using assms inv_erase [OF assms] by (auto simp: entries_iff lookup_erase split: if_splits)

lemma inv_put_all: "inv d \<Longrightarrow> inv (fold (\<lambda>x. put (key x) x) xs d)"
  by (induction xs arbitrary: d) (simp_all add: inv_put)

text \<open>After a run of assignments every key has the last value assigned to it.\<close>

lemma lookup_put_all:
  "inv d \<Longrightarrow> map_of (entries (fold (\<lambda>x. put (key x) x) xs d)) k =
    (case filter (\<lambda>x. key x = k) (rev xs) of [] \<Rightarrow> map_of (entries d) k | x # _ \<Rightarrow> Some x)"
proof (induction xs rule: rev_induct)
  case Nil
  then show ?case by simp
next
  case (snoc x xs)
  then show ?case by (simp add: lookup_put inv_put_all)
qed

lemma keys_put_all:
  "inv d \<Longrightarrow> fst ` set (entries (fold (\<lambda>x. put (key x) x) xs d)) = key ` set xs \<union> fst ` set (entries d)"
proof (induction xs arbitrary: d)
  case Nil
  then show ?case by simp
next
  case (Cons x xs)
  have "fst ` set (entries (put (key x) x d)) = insert (key x) (fst ` set (entries d))"
    using Cons.prems by (force simp: entries_put)
  with Cons show ?case by (simp add: inv_put)
qed

end

section \<open>Sorted association lists\<close>

primrec map_put :: "'k::linorder \<Rightarrow> 'v \<Rightarrow> ('k \<times> 'v) list \<Rightarrow> ('k \<times> 'v) list" where
  "map_put k v [] = [(k, v)]"
| "map_put k v (e # es) =
     (if fst e < k then e # map_put k v es
      else if fst e = k then (k, v) # es else (k, v) # e # es)"

definition map_erase :: "'k::linorder \<Rightarrow> ('k \<times> 'v) list \<Rightarrow> ('k \<times> 'v) list" where
  "map_erase k es = filter (\<lambda>e. fst e \<noteq> k) es"

definition keys_increase :: "('k::linorder \<times> 'v) list \<Rightarrow> bool" where
  "keys_increase es = sorted_wrt (\<lambda>a b. fst a < fst b) es"

lemma keys_increase_simps [simp]:
  "keys_increase []"
  "keys_increase (e # es) \<longleftrightarrow> (\<forall>x \<in> set es. fst e < fst x) \<and> keys_increase es"
  by (simp_all add: keys_increase_def)

lemma set_map_put: "set (map_put k v es) \<subseteq> insert (k, v) (set es)"
  by (induction es) auto

lemma keys_increase_put: "keys_increase es \<Longrightarrow> keys_increase (map_put k v es)"
proof (induction es)
  case (Cons e es)
  then show ?case using set_map_put [of k v es] by (auto 4 3 dest: less_trans)
qed simp

lemma keys_increase_erase: "keys_increase es \<Longrightarrow> keys_increase (map_erase k es)"
  unfolding keys_increase_def map_erase_def by (rule sorted_wrt_filter)

lemma keys_increase_distinct: "keys_increase es \<Longrightarrow> distinct (map fst es)"
  by (induction es) auto

lemma map_of_map_put: "keys_increase es \<Longrightarrow> map_of (map_put k v es) = (map_of es)(k \<mapsto> v)"
  by (induction es) (auto simp: fun_eq_iff)

lemma map_of_map_erase: "map_of (map_erase k es) = (map_of es)(k := None)"
  unfolding map_erase_def by (induction es) (auto simp: fun_eq_iff)

interpretation omap: dictionary map_put map_erase "\<lambda>es. es" keys_increase
  by unfold_locales
    (simp_all add: keys_increase_put keys_increase_erase keys_increase_distinct map_of_map_put map_of_map_erase)

end
