(* ===== verification/Peer_Discovery.thy ===== *)
theory Peer_Discovery
  imports Socket_Transport Ordered_Map
begin

text \<open>
  \<^verbatim>\<open>PeerRegistry\<close> and \<^verbatim>\<open>FilesystemDiscovery\<close> (src/src/discovery), and \<^verbatim>\<open>op_query_peers\<close> of the orchestrator, which
  combines them. The registry is a \<^verbatim>\<open>std::map\<close> ordered by level and coordinate. The directory tree a
  discovery walks is a value: the entries in the order \<^verbatim>\<open>readdir\<close> gives them, an entry that cannot
  be examined any more (\<^verbatim>\<open>lstat\<close> fails) marked as gone, a directory that cannot be opened empty.
\<close>

section \<open>The registry\<close>

record peer_info =
  pi_coord :: linqu_coordinate
  pi_level :: u8
  pi_socket_path :: string
  pi_alive :: bool

datatype peer_key = CoordLevelKey (ck_coord: linqu_coordinate) (ck_level: u8)

definition peer_key_less :: "peer_key \<Rightarrow> peer_key \<Rightarrow> bool" where
  "peer_key_less a b =
     (if ck_level a \<noteq> ck_level b then ck_level a < ck_level b else ck_coord a < ck_coord b)"

instantiation peer_key :: linorder
begin

definition less_peer_key :: "peer_key \<Rightarrow> peer_key \<Rightarrow> bool" where
  "less_peer_key a b = peer_key_less a b"

definition less_eq_peer_key :: "peer_key \<Rightarrow> peer_key \<Rightarrow> bool" where
  "less_eq_peer_key a b = (a = b \<or> peer_key_less a b)"

instance
  by standard
    (auto simp: less_peer_key_def less_eq_peer_key_def peer_key_less_def peer_key.expand split: if_splits)

end

type_synonym peer_registry = "(peer_key \<times> peer_info) list"

definition peer_key_of :: "peer_info \<Rightarrow> peer_key" where
  "peer_key_of p = CoordLevelKey (pi_coord p) (pi_level p)"

definition registry_add :: "peer_info \<Rightarrow> peer_registry \<Rightarrow> peer_registry" where
  "registry_add peer reg = map_put (peer_key_of peer) peer reg"

definition registry_remove :: "linqu_coordinate \<Rightarrow> u8 \<Rightarrow> peer_registry \<Rightarrow> peer_registry" where
  "registry_remove coord level reg = map_erase (CoordLevelKey coord level) reg"

definition registry_set_alive :: "linqu_coordinate \<Rightarrow> u8 \<Rightarrow> bool \<Rightarrow> peer_registry \<Rightarrow> peer_registry" where
  "registry_set_alive coord level alive reg =
     (case map_of reg (CoordLevelKey coord level) of
        None \<Rightarrow> reg
      | Some info \<Rightarrow> map_put (CoordLevelKey coord level) (info\<lparr>pi_alive := alive\<rparr>) reg)"

definition peers_at_level :: "u8 \<Rightarrow> peer_registry \<Rightarrow> peer_info list" where
  "peers_at_level level reg = map snd (filter (\<lambda>(key, info). ck_level key = level \<and> pi_alive info) reg)"

text \<open>The loop from level 6 down to the one above the child's.\<close>

definition same_parent :: "linqu_coordinate \<Rightarrow> u8 \<Rightarrow> linqu_coordinate \<Rightarrow> bool" where
  "same_parent self child_level c =
     list_all (\<lambda>lv. index_at c lv = index_at self lv) (filter (\<lambda>lv. child_level < lv) [6, 5, 4, 3, 2, 1])"

definition peers_same_parent :: "linqu_coordinate \<Rightarrow> u8 \<Rightarrow> peer_registry \<Rightarrow> peer_info list" where
  "peers_same_parent self child_level reg =
     map snd (filter (\<lambda>(key, info). ck_level key = child_level \<and> pi_alive info \<and>
                        same_parent self child_level (pi_coord info)) reg)"

definition all_peers :: "peer_registry \<Rightarrow> peer_info list" where
  "all_peers reg = map snd reg"

definition registry_count :: "peer_registry \<Rightarrow> nat" where
  "registry_count reg = length reg"

definition registry_clear :: "peer_registry \<Rightarrow> peer_registry" where
  "registry_clear reg = []"

section \<open>Parsing socket paths\<close>

text \<open>\<^verbatim>\<open>daemon_L(\d+)\.sock\<close>, matched against a whole file name: the digits.\<close>

definition strip_prefix :: "string \<Rightarrow> string \<Rightarrow> string option" where
  "strip_prefix pre s = (if take (length pre) s = pre then Some (drop (length pre) s) else None)"

definition match_sock_name :: "string \<Rightarrow> string option" where
  "match_sock_name fname =
     (case strip_prefix ''daemon_L'' fname of
        None \<Rightarrow> None
      | Some s \<Rightarrow> (case take_digits s of (ds, rest) \<Rightarrow>
          if ds \<noteq> [] \<and> rest = ''.sock'' then Some ds else None))"

text \<open>\<^verbatim>\<open>L(\d+)_(\d+)\<close> at the start of a string: both numbers and what follows; then every match in a string, from the left, without overlap.\<close>

definition match_coord :: "string \<Rightarrow> (string \<times> string \<times> string) option" where
  "match_coord s =
     (case strip_prefix ''L'' s of
        None \<Rightarrow> None
      | Some s1 \<Rightarrow> (case take_digits s1 of (d1, s2) \<Rightarrow>
          if d1 = [] then None
          else case strip_prefix ''_'' s2 of
            None \<Rightarrow> None
          | Some s3 \<Rightarrow> (case take_digits s3 of (d2, s4) \<Rightarrow>
              if d2 = [] then None else Some (d1, d2, s4))))"

lemma strip_prefix_Some: "strip_prefix pre s = Some t \<longleftrightarrow> s = pre @ t"
  unfolding strip_prefix_def by (metis append_eq_conv_conj append_take_drop_id option.inject option.distinct(1))

lemma take_digits_split: "take_digits s = (ds, rest) \<Longrightarrow> s = ds @ rest"
  by (auto simp: take_digits_def)

lemma match_coord_split: "match_coord s = Some (d1, d2, rest) \<Longrightarrow> s = ''L'' @ d1 @ ''_'' @ d2 @ rest"
  by (auto simp: match_coord_def strip_prefix_Some split: option.splits prod.splits if_splits
      dest!: take_digits_split)

function scan_coords :: "string \<Rightarrow> (string \<times> string) list" where
  "scan_coords [] = []"
| "scan_coords (c # cs) =
     (case match_coord (c # cs) of
        Some (d1, d2, rest) \<Rightarrow> (d1, d2) # scan_coords rest
      | None \<Rightarrow> scan_coords cs)"
  by pat_completeness auto
termination
  by (relation "measure length") (auto dest!: match_coord_split)

text \<open>The \<^verbatim>\<open>switch\<close> on the level number.\<close>

definition set_index :: "linqu_coordinate \<Rightarrow> i32 \<Rightarrow> i32 \<Rightarrow> linqu_coordinate" where
  "set_index c lv idx =
     (let i8 = word_of_int idx; i16 = word_of_int idx in
      case c of LinquCoordinate l6 l5 l4 l3 l2 l1 l0 \<Rightarrow>
        if lv = 6 then LinquCoordinate i8 l5 l4 l3 l2 l1 l0
        else if lv = 5 then LinquCoordinate l6 i8 l4 l3 l2 l1 l0
        else if lv = 4 then LinquCoordinate l6 l5 i8 l3 l2 l1 l0
        else if lv = 3 then LinquCoordinate l6 l5 l4 i16 l2 l1 l0
        else if lv = 2 then LinquCoordinate l6 l5 l4 l3 i16 l1 l0
        else if lv = 1 then LinquCoordinate l6 l5 l4 l3 l2 i8 l0
        else if lv = 0 then LinquCoordinate l6 l5 l4 l3 l2 l1 i16
        else c)"

definition basename :: "string \<Rightarrow> string" where
  "basename p = rev (takeWhile (\<lambda>c. c \<noteq> CHR ''/'') (rev p))"

definition parse_socket_path :: "string \<Rightarrow> (linqu_coordinate \<times> u8) option" where
  "parse_socket_path path =
     (if CHR ''/'' \<notin> set path then None
      else case match_sock_name (basename path) of
        None \<Rightarrow> None
      | Some ds \<Rightarrow>
          Some (foldl (\<lambda>c (d1, d2). set_index c (atoi d1) (atoi d2)) coord_zero (scan_coords (dirname path)),
                word_of_int (atoi ds)))"

section \<open>Walking the tree\<close>

datatype fs_node = DirNode "(string \<times> fs_node) list" | SockNode | FileNode | GoneNode

definition register_socket :: "string \<Rightarrow> peer_registry \<times> nat \<Rightarrow> peer_registry \<times> nat" where
  "register_socket full = (\<lambda>(reg, count).
     case parse_socket_path full of
       None \<Rightarrow> (reg, count)
     | Some (coord, level) \<Rightarrow>
         (registry_add \<lparr>pi_coord = coord, pi_level = level, pi_socket_path = full, pi_alive = True\<rparr> reg, count + 1))"

fun scan_dir :: "string \<Rightarrow> (string \<times> fs_node) list \<Rightarrow> peer_registry \<times> nat \<Rightarrow> peer_registry \<times> nat" where
  "scan_dir dir [] acc = acc"
| "scan_dir dir ((name, node) # ents) acc =
     (if take 1 name = ''.'' then scan_dir dir ents acc
      else
        let full = dir @ ''/'' @ name in
        scan_dir dir ents
          (case node of
             GoneNode \<Rightarrow> acc
           | DirNode sub \<Rightarrow> scan_dir full sub acc
           | SockNode \<Rightarrow> register_socket full acc
           | FileNode \<Rightarrow> if take 8 name = ''daemon_L'' then register_socket full acc else acc))"

definition discover :: "string \<Rightarrow> (string \<times> fs_node) list \<Rightarrow> peer_registry \<Rightarrow> nat \<times> peer_registry" where
  "discover base_path tree reg = (case scan_dir base_path tree (reg, 0) of (reg, count) \<Rightarrow> (count, reg))"

text \<open>
  \<^verbatim>\<open>op_query_peers\<close>: the registry and the discovery of the state, if they are set; the discovery comes with
  the tree it finds. The result is the list of coordinates and the registry afterwards.
\<close>

definition query_peers ::
  "peer_registry option \<Rightarrow> (string \<times> (string \<times> fs_node) list) option \<Rightarrow> u8 \<Rightarrow>
   linqu_coordinate list \<times> peer_registry option" where
  "query_peers reg disc level =
     (case reg of
        None \<Rightarrow> ([], None)
      | Some r \<Rightarrow>
          let r = (case disc of None \<Rightarrow> r | Some (base_path, tree) \<Rightarrow> snd (discover base_path tree r)) in
          (map pi_coord (peers_at_level level r), Some r))"

section \<open>The walk as a fold over the sockets it meets\<close>

fun socket_paths :: "string \<Rightarrow> (string \<times> fs_node) list \<Rightarrow> string list" where
  "socket_paths dir [] = []"
| "socket_paths dir ((name, node) # ents) =
     (if take 1 name = ''.'' then []
      else let full = dir @ ''/'' @ name in
        case node of
          GoneNode \<Rightarrow> []
        | DirNode sub \<Rightarrow> socket_paths full sub
        | SockNode \<Rightarrow> [full]
        | FileNode \<Rightarrow> if take 8 name = ''daemon_L'' then [full] else []) @ socket_paths dir ents"

definition peer_at :: "string \<Rightarrow> peer_info option" where
  "peer_at full = map_option (\<lambda>(coord, level).
     \<lparr>pi_coord = coord, pi_level = level, pi_socket_path = full, pi_alive = True\<rparr>) (parse_socket_path full)"

lemma register_socket_peer_at:
  "register_socket full (reg, n) =
    (case peer_at full of None \<Rightarrow> (reg, n) | Some p \<Rightarrow> (registry_add p reg, n + 1))"
  by (auto simp: register_socket_def peer_at_def split: option.splits)

lemma scan_dir_flat:
  "scan_dir dir ents (reg, n) =
    (fold registry_add (List.map_filter peer_at (socket_paths dir ents)) reg,
     n + length (List.map_filter peer_at (socket_paths dir ents)))"
proof (induction dir ents arbitrary: reg n rule: socket_paths.induct)
  case (1 dir)
  then show ?case by (simp add: List.map_filter_simps)
next
  case (2 dir name node ents)
  have app: "List.map_filter peer_at (xs @ ys) = List.map_filter peer_at xs @ List.map_filter peer_at ys" for xs ys
    by (simp add: List.map_filter_def)
  show ?case
    using 2 by (cases node)
      (auto simp: app List.map_filter_simps register_socket_peer_at Let_def split: option.splits)
qed

section \<open>Parsing what was printed\<close>

text \<open>What a socket path at a level tells of a coordinate.\<close>

definition visible :: "u8 \<Rightarrow> linqu_coordinate \<Rightarrow> linqu_coordinate" where
  "visible lv c = LinquCoordinate (l6_idx c) (if lv \<le> 5 then l5_idx c else 0)
     (if lv \<le> 4 then l4_idx c else 0) (if lv \<le> 3 then l3_idx c else 0) 0 0 0"

lemma slash_not_digit [simp]: "\<not> is_digit CHR ''/''" "\<not> is_digit CHR ''_''" "\<not> is_digit CHR ''.''"
  by (simp_all add: is_digit_def)

lemma take_digits_slash:
  "take_digits (s @ CHR ''/'' # t) = (fst (take_digits s), snd (take_digits s) @ CHR ''/'' # t)"
  by (induction s) (auto simp: take_digits_def)

lemma strip_one_slash:
  "c \<noteq> CHR ''/'' \<Longrightarrow> strip_prefix [c] (s @ CHR ''/'' # t) = map_option (\<lambda>r. r @ CHR ''/'' # t) (strip_prefix [c] s)"
  by (cases s) (auto simp: strip_prefix_def)

lemma match_coord_slash:
  "match_coord (s @ CHR ''/'' # t) = map_option (\<lambda>(d1, d2, r). (d1, d2, r @ CHR ''/'' # t)) (match_coord s)"
  by (auto simp: match_coord_def strip_one_slash take_digits_slash split: option.splits prod.splits)

lemma scan_coords_slash: "scan_coords (s @ CHR ''/'' # t) = scan_coords s @ scan_coords t"
proof (induction s rule: scan_coords.induct)
  case 1
  then show ?case by (simp add: match_coord_def strip_prefix_def)
next
  case (2 c cs)
  then show ?case
    using match_coord_slash [of "c # cs" t] by (auto split: option.splits prod.splits)
qed

lemma scan_coords_segment [simp]:
  assumes "is_digit d"
  shows "scan_coords (CHR ''L'' # d # CHR ''_'' # dec_digits n) = [([d], dec_digits n)]"
proof -
  have "take_digits (d # CHR ''_'' # dec_digits n) = ([d], CHR ''_'' # dec_digits n)"
    using assms by (simp add: take_digits_def)
  then have "match_coord (CHR ''L'' # d # CHR ''_'' # dec_digits n) = Some ([d], dec_digits n, [])"
    by (simp add: match_coord_def strip_prefix_def)
  then show ?thesis by simp
qed

lemma scan_coords_segment_slash [simp]:
  assumes "is_digit d"
  shows "scan_coords (CHR ''L'' # d # CHR ''_'' # dec_digits n @ CHR ''/'' # t) = ([d], dec_digits n) # scan_coords t"
  using scan_coords_slash [of "CHR ''L'' # d # CHR ''_'' # dec_digits n" t] scan_coords_segment [OF assms, of n]
  by (simp del: scan_coords.simps)

definition socket_root :: "string \<Rightarrow> string" where
  "socket_root base =
     (let p = (if base = [] then ''/tmp/linqu'' else base) in if last p = CHR ''/'' then butlast p else p)"

definition sock_name :: "u8 \<Rightarrow> string" where
  "sock_name lv = ''daemon_L'' @ dec_digits (unat lv) @ ''.sock''"

definition socket_dir :: "string \<Rightarrow> linqu_coordinate \<Rightarrow> u8 \<Rightarrow> string" where
  "socket_dir base c lv = socket_root base @ ''/L6_'' @ dec_digits (unat (l6_idx c)) @
     (if lv \<le> 5 then ''/L5_'' @ dec_digits (unat (l5_idx c)) else []) @
     (if lv \<le> 4 then ''/L4_'' @ dec_digits (unat (l4_idx c)) else []) @
     (if lv \<le> 3 then ''/L3_'' @ dec_digits (unat (l3_idx c)) else [])"

lemma make_socket_path_split: "make_socket_path base c lv = socket_dir base c lv @ ''/'' @ sock_name lv"
proof -
  let ?p = "if base = [] then ''/tmp/linqu'' else base"
  have "(if last ?p \<noteq> CHR ''/'' then ?p @ ''/'' else ?p) = socket_root base @ ''/''"
  proof (cases "last ?p = CHR ''/''")
    case True
    have "?p \<noteq> []" by simp
    from append_butlast_last_id [OF this] True show ?thesis
      by (simp add: socket_root_def Let_def)
  qed (simp add: socket_root_def Let_def)
  then show ?thesis
    by (simp add: make_socket_path_def socket_dir_def sock_name_def to_string_u_def Let_def)
qed

lemma sock_name_no_slash: "CHR ''/'' \<notin> set (sock_name lv)"
  using dec_digits_digits [of "unat lv"] by (auto simp: sock_name_def)

lemma path_parts:
  assumes "CHR ''/'' \<notin> set f"
  shows "dirname (d @ ''/'' @ f) = d" "basename (d @ ''/'' @ f) = f"
proof -
  have "takeWhile (\<lambda>c. c \<noteq> CHR ''/'') (rev f @ CHR ''/'' # rev d) = rev f"
    "dropWhile (\<lambda>c. c \<noteq> CHR ''/'') (rev f @ CHR ''/'' # rev d) = CHR ''/'' # rev d"
    using assms by (auto simp: takeWhile_append dropWhile_append)
  then show "dirname (d @ ''/'' @ f) = d" "basename (d @ ''/'' @ f) = f"
    by (simp_all add: dirname_def basename_def)
qed

lemma match_sock_name_printed: "match_sock_name (sock_name lv) = Some (dec_digits (unat lv))"
  by (simp add: match_sock_name_def sock_name_def strip_prefix_def take_digits_dec)

lemma scan_coords_root: "scan_coords base = [] \<Longrightarrow> scan_coords (socket_root base) = []"
proof -
  assume a: "scan_coords base = []"
  show ?thesis
  proof (cases "base = []")
    case True
    then show ?thesis
      by (simp add: socket_root_def match_coord_def strip_prefix_def take_digits_def is_digit_def)
  next
    case False
    show ?thesis
    proof (cases "last base = CHR ''/''")
      case True
      with False have "base = butlast base @ CHR ''/'' # []" by (metis append_butlast_last_id)
      with a have "scan_coords (butlast base) = []" by (metis append_is_Nil_conv scan_coords_slash)
      with True False show ?thesis by (simp add: socket_root_def)
    qed (use a False in \<open>simp add: socket_root_def\<close>)
  qed
qed

lemma word_of_atoi:
  "unat (w :: 'a::len word) < 2 ^ 31 \<Longrightarrow> word_of_int (atoi (dec_digits (unat w))) = w"
  by (simp add: atoi_dec)

lemma word_of_atoi8 [simp]: "word_of_int (atoi (dec_digits (unat (w :: u8)))) = w"
  using unsigned_less [of w, where 'a = nat] by (intro word_of_atoi) simp

lemma word_of_atoi16 [simp]: "word_of_int (atoi (dec_digits (unat (w :: u16)))) = w"
  using unsigned_less [of w, where 'a = nat] by (intro word_of_atoi) simp

lemma atoi_digit [simp]:
  "atoi ''6'' = 6" "atoi ''5'' = 5" "atoi ''4'' = 4" "atoi ''3'' = 3"
  by code_simp+

lemma parse_make_socket_path:
  assumes "scan_coords base = []"
  shows "parse_socket_path (make_socket_path base c lv) = Some (visible lv c, lv)"
proof -
  have seg: "scan_coords (CHR ''/'' # t) = scan_coords t" for t
    using scan_coords_slash [of "[]" t] by simp
  have "scan_coords (socket_dir base c lv) =
    [(''6'', dec_digits (unat (l6_idx c)))] @
    (if lv \<le> 5 then [(''5'', dec_digits (unat (l5_idx c)))] else []) @
    (if lv \<le> 4 then [(''4'', dec_digits (unat (l4_idx c)))] else []) @
    (if lv \<le> 3 then [(''3'', dec_digits (unat (l3_idx c)))] else [])"
    using scan_coords_root [OF assms]
    by (auto simp: socket_dir_def scan_coords_slash seg is_digit_def simp del: scan_coords.simps)
  then show ?thesis
    by (auto simp: parse_socket_path_def make_socket_path_split path_parts [OF sock_name_no_slash]
        path_parts [OF sock_name_no_slash, simplified] match_sock_name_printed visible_def set_index_def
        coord_zero_def Let_def)
qed

section \<open>What the registry represents\<close>

text \<open>Every entry is filed under its own coordinate and level, and the keys increase.\<close>

definition registry_ok :: "peer_registry \<Rightarrow> bool" where
  "registry_ok reg = (keys_increase reg \<and> (\<forall>(k, p) \<in> set reg. k = peer_key_of p))"

datatype registry_op = RegAdd peer_info | RegRemove linqu_coordinate u8 | RegAlive linqu_coordinate u8 bool | RegClear

fun registry_step :: "registry_op \<Rightarrow> peer_registry \<Rightarrow> peer_registry" where
  "registry_step (RegAdd p) reg = registry_add p reg"
| "registry_step (RegRemove c lv) reg = registry_remove c lv reg"
| "registry_step (RegAlive c lv b) reg = registry_set_alive c lv b reg"
| "registry_step RegClear reg = registry_clear reg"

text \<open>The abstract registry is a partial map.\<close>

fun spec_step :: "registry_op \<Rightarrow> (peer_key \<Rightarrow> peer_info option) \<Rightarrow> peer_key \<Rightarrow> peer_info option" where
  "spec_step (RegAdd p) A = A(peer_key_of p \<mapsto> p)"
| "spec_step (RegRemove c lv) A = A(CoordLevelKey c lv := None)"
| "spec_step (RegAlive c lv b) A =
     A(CoordLevelKey c lv := map_option (\<lambda>p. p\<lparr>pi_alive := b\<rparr>) (A (CoordLevelKey c lv)))"
| "spec_step RegClear A = Map.empty"

lemma registry_ok_put:
  assumes "registry_ok reg" "k = peer_key_of p"
  shows "registry_ok (map_put k p reg)"
  using assms omap.entries_put [of reg k p] by (auto simp: registry_ok_def keys_increase_put)

lemma registry_ok_step [wf_intros]: "registry_ok reg \<Longrightarrow> registry_ok (registry_step op reg)"
proof (cases op)
  case (RegAlive c lv b)
  assume ok: "registry_ok reg"
  then show ?thesis
  proof (cases "map_of reg (CoordLevelKey c lv)")
    case (Some p)
    then have "(CoordLevelKey c lv, p) \<in> set reg" by (rule map_of_SomeD)
    with ok have "CoordLevelKey c lv = peer_key_of (p\<lparr>pi_alive := b\<rparr>)"
      by (auto simp: registry_ok_def peer_key_of_def)
    with ok RegAlive Some show ?thesis by (simp add: registry_set_alive_def registry_ok_put)
  qed (use RegAlive ok in \<open>simp add: registry_set_alive_def\<close>)
next
  case (RegAdd p)
  assume "registry_ok reg"
  with RegAdd show ?thesis by (simp add: registry_add_def registry_ok_put)
qed (auto simp: registry_remove_def registry_ok_def omap.inv_erase omap.entries_erase registry_clear_def)

lemma registry_step_refines:
  "registry_ok reg \<Longrightarrow> map_of (registry_step op reg) = spec_step op (map_of reg)"
  by (cases op)
    (auto simp: registry_ok_def registry_add_def registry_remove_def registry_set_alive_def registry_clear_def
      omap.lookup_put omap.lookup_erase fun_upd_idem split: option.splits)

lemma registry_run:
  "registry_ok reg \<Longrightarrow> registry_ok (fold registry_step ops reg) \<and>
    map_of (fold registry_step ops reg) = fold spec_step ops (map_of reg)"
  by (induction ops arbitrary: reg) (simp_all add: registry_ok_step registry_step_refines)

lemma peer_selection:
  assumes "registry_ok reg"
  shows "set (map snd (filter (\<lambda>(k, p). ck_level k = lv \<and> Q p) reg)) =
      {p. \<exists>c. map_of reg (CoordLevelKey c lv) = Some p \<and> Q p}"
    and "sorted_wrt (<) (map pi_coord (map snd (filter (\<lambda>(k, p). ck_level k = lv \<and> Q p) reg)))"
proof -
  have key: "k = peer_key_of p" if "(k, p) \<in> set reg" for k p
    using assms that by (auto simp: registry_ok_def)
  have inc: "keys_increase reg" using assms by (simp add: registry_ok_def)
  show "set (map snd (filter (\<lambda>(k, p). ck_level k = lv \<and> Q p) reg)) =
      {p. \<exists>c. map_of reg (CoordLevelKey c lv) = Some p \<and> Q p}"
  proof (intro set_eqI iffI)
    fix p
    assume "p \<in> set (map snd (filter (\<lambda>(k, p). ck_level k = lv \<and> Q p) reg))"
    then obtain k where k: "(k, p) \<in> set reg" "ck_level k = lv" "Q p" by auto
    then have "map_of reg (CoordLevelKey (ck_coord k) lv) = Some p"
      using omap.entries_iff [OF inc, of k p] by auto
    with k(3) show "p \<in> {p. \<exists>c. map_of reg (CoordLevelKey c lv) = Some p \<and> Q p}" by blast
  qed (auto simp: image_iff split: prod.splits dest!: map_of_SomeD intro!: bexI)
  let ?xs = "filter (\<lambda>(k, p). ck_level k = lv \<and> Q p) reg"
  have "sorted_wrt (\<lambda>a b. fst a < fst b) ?xs"
    using inc unfolding keys_increase_def by (rule sorted_wrt_filter)
  then have "sorted_wrt (\<lambda>a b. pi_coord (snd a) < pi_coord (snd b)) ?xs"
    by (rule sorted_wrt_mono_rel [rotated])
      (auto dest!: key simp: peer_key_of_def less_peer_key_def peer_key_less_def)
  then show "sorted_wrt (<) (map pi_coord (map snd ?xs))"
    by (simp add: sorted_wrt_map)
qed

text \<open>The indices above a level, as the names of an instance's ancestors.\<close>

definition ancestors :: "u8 \<Rightarrow> linqu_coordinate \<Rightarrow> nat list" where
  "ancestors lv c =
     (if lv < 6 then [unat (l6_idx c)] else []) @ (if lv < 5 then [unat (l5_idx c)] else []) @
     (if lv < 4 then [unat (l4_idx c)] else []) @ (if lv < 3 then [unat (l3_idx c)] else []) @
     (if lv < 2 then [unat (l2_idx c)] else []) @ (if lv < 1 then [unat (l1_idx c)] else [])"

lemma same_parent_ancestors:
  assumes "3 \<le> lv"
  shows "same_parent self lv c \<longleftrightarrow> ancestors lv c = ancestors lv self"
proof -
  have lt: "\<not> lv < 3" "\<not> lv < 2" "\<not> lv < 1" using assms by (simp_all add: word_less_nat_alt word_le_nat_alt)
  have up: "lv < 5" "lv < 6" if "lv < 4" using that by (simp_all add: word_less_nat_alt)
  have up5: "lv < 6" if "lv < 5" using that by (simp add: word_less_nat_alt)
  show ?thesis
    using lt up up5 by (auto simp: same_parent_def ancestors_def index_at_def level_value_def word_unat_eq_iff)
qed

lemma registry_queries:
  fixes ops :: "registry_op list" and lv :: u8
  shows "map_of (fold registry_step ops []) = fold spec_step ops Map.empty"
    and "registry_count (fold registry_step ops []) = card (dom (fold spec_step ops Map.empty))"
    and "set (peers_at_level lv (fold registry_step ops [])) =
      {p. \<exists>c. fold spec_step ops Map.empty (CoordLevelKey c lv) = Some p \<and> pi_alive p}"
    and "sorted_wrt (<) (map pi_coord (peers_at_level lv (fold registry_step ops [])))"
    and "3 \<le> lv \<Longrightarrow> set (peers_same_parent self lv (fold registry_step ops [])) =
      {p \<in> set (peers_at_level lv (fold registry_step ops [])). ancestors lv (pi_coord p) = ancestors lv self}"
proof -
  let ?r = "fold registry_step ops []"
  have ok: "registry_ok ?r" and ab: "map_of ?r = fold spec_step ops Map.empty"
    using registry_run [of "[]" ops] by (simp_all add: registry_ok_def)
  show "map_of ?r = fold spec_step ops Map.empty" by (rule ab)
  have "distinct (map fst ?r)" using ok by (simp add: registry_ok_def keys_increase_distinct)
  then have "card (fst ` set ?r) = length ?r" by (metis distinct_card length_map set_map)
  then show "registry_count ?r = card (dom (fold spec_step ops Map.empty))"
    by (simp add: registry_count_def dom_map_of_conv_image_fst flip: ab)
  show at: "set (peers_at_level lv ?r) =
      {p. \<exists>c. fold spec_step ops Map.empty (CoordLevelKey c lv) = Some p \<and> pi_alive p}"
    using peer_selection(1) [OF ok, of lv pi_alive] by (simp add: peers_at_level_def ab)
  show "sorted_wrt (<) (map pi_coord (peers_at_level lv ?r))"
    using peer_selection(2) [OF ok, of lv pi_alive] by (simp add: peers_at_level_def)
  assume "3 \<le> lv"
  then show "set (peers_same_parent self lv ?r) =
      {p \<in> set (peers_at_level lv ?r). ancestors lv (pi_coord p) = ancestors lv self}"
    unfolding at using peer_selection(1) [OF ok, of lv "\<lambda>p. pi_alive p \<and> same_parent self lv (pi_coord p)"]
    by (auto simp: peers_same_parent_def same_parent_ancestors ab)
qed

lemma entries_add_all: "set (fold registry_add ps reg) \<subseteq> (\<lambda>p. (peer_key_of p, p)) ` set ps \<union> set reg"
proof (induction ps arbitrary: reg)
  case (Cons p ps)
  then show ?case
    using set_map_put [of "peer_key_of p" p reg] by (fastforce simp: registry_add_def)
qed simp

lemma registry_ok_add_all: "registry_ok reg \<Longrightarrow> registry_ok (fold registry_add ps reg)"
  by (induction ps arbitrary: reg) (simp_all add: registry_add_def registry_ok_put)

lemma keys_add_all:
  "registry_ok reg \<Longrightarrow> fst ` set (fold registry_add ps reg) = peer_key_of ` set ps \<union> fst ` set reg"
  unfolding registry_add_def registry_ok_def using omap.keys_put_all [of reg peer_key_of ps] by blast

definition daemon_peer :: "string \<Rightarrow> linqu_coordinate \<times> u8 \<Rightarrow> peer_info" where
  "daemon_peer base d = \<lparr>pi_coord = visible (snd d) (fst d), pi_level = snd d,
     pi_socket_path = make_socket_path base (fst d) (snd d), pi_alive = True\<rparr>"

lemma peer_at_daemon:
  "scan_coords base = [] \<Longrightarrow> peer_at (make_socket_path base c lv) = Some (daemon_peer base (c, lv))"
  by (simp add: peer_at_def daemon_peer_def parse_make_socket_path)

section \<open>Properties\<close>


definition ex_peer :: "u8 \<Rightarrow> u16 \<Rightarrow> u16 \<Rightarrow> u8 \<Rightarrow> peer_info" where
  "ex_peer i4 i3 i2 lv = \<lparr>pi_coord = LinquCoordinate 0 0 i4 i3 i2 0 0, pi_level = lv, pi_socket_path = '''', pi_alive = True\<rparr>"


text \<open>
  Below the host level \<^verbatim>\<open>peers_same_parent\<close> mixes up hosts: \<^verbatim>\<open>index_at\<close> returns a byte, so the chips of two hosts of a pod whose
  16-bit indices differ by a multiple of 256 count as having the same parent, although the registry
  itself keeps them apart.\<close>

theorem same_parent_truncates:
  assumes "i \<noteq> j" "(i :: u16) AND 0xFF = j AND 0xFF"
  shows "ex_peer p j k 2 \<in> set (peers_same_parent (LinquCoordinate 0 0 p i 0 0 0) 2
      (fold registry_step [RegAdd (ex_peer p i k 2), RegAdd (ex_peer p j k 2)] [])) \<and>
    registry_count (fold registry_step [RegAdd (ex_peer p i k 2), RegAdd (ex_peer p j k 2)] []) = 2"
proof -
  have m: "(0xFF :: u16) = mask 8" by (simp add: mask_eq_exp_minus_1)
  have "bit i n = bit j n" if "n < 8" for n
    using arg_cong [OF assms(2), of "\<lambda>w. bit w n"] that by (simp add: m bit_simps)
  then have "ucast i = (ucast j :: u8)"
    by (intro bit_word_eqI) (auto simp: bit_simps)
  with assms(1) show ?thesis
    by (auto simp: ex_peer_def registry_add_def peer_key_of_def peers_same_parent_def same_parent_def index_at_def
        level_value_def registry_count_def)
qed

text \<open>C15.
  Discovery finds exactly the daemons: when the sockets in the tree are those of a set of daemons, \<^verbatim>\<open>discover\<close> into
  an empty registry makes the peers at each level the daemons of that level, once each, in increasing order, under the part of their coordinate that the
  socket path shows (the indices from level 6 down to the daemon's level, at most down to level 3), and counts
  the sockets. The base path itself must not look like a coordinate.\<close>

theorem discover_exact:
  assumes "set (socket_paths base tree) = (\<lambda>(c, lv). make_socket_path base c lv) ` D"
    and "scan_coords base = []"
  shows "fst (discover base tree []) = length (socket_paths base tree) \<and>
    sorted_wrt (<) (map pi_coord (peers_at_level lv (snd (discover base tree [])))) \<and>
    pi_coord ` set (peers_at_level lv (snd (discover base tree []))) = visible lv ` {c. (c, lv) \<in> D}"
proof -
  let ?ps = "List.map_filter peer_at (socket_paths base tree)"
  let ?r = "fold registry_add ?ps []"
  have d: "discover base tree [] = (length ?ps, ?r)"
    by (simp add: discover_def scan_dir_flat)
  have at: "\<exists>d \<in> D. peer_at p = Some (daemon_peer base d)" if "p \<in> set (socket_paths base tree)" for p
    using that assms by (auto simp: peer_at_daemon)
  then have "filter (\<lambda>p. \<exists>y. peer_at p = Some y) (socket_paths base tree) = socket_paths base tree"
    by (intro filter_True) blast
  then have len: "length ?ps = length (socket_paths base tree)"
    by (simp add: List.map_filter_def)
  have ps: "set ?ps = daemon_peer base ` D"
    using assms by (force simp: List.map_filter_def peer_at_daemon image_iff)
  have ok: "registry_ok ?r" by (rule registry_ok_add_all) (simp add: registry_ok_def)
  have keys: "fst ` set ?r = peer_key_of ` daemon_peer base ` D"
    using keys_add_all [of "[]" ?ps] ps by (simp add: registry_ok_def)
  have entry: "k = peer_key_of p \<and> p \<in> daemon_peer base ` D" if "(k, p) \<in> set ?r" for k p
    using that entries_add_all [of ?ps "[]"] ps by auto
  have "pi_coord ` set (peers_at_level lv ?r) = visible lv ` {c. (c, lv) \<in> D}"
  proof (intro set_eqI iffI)
    fix x
    assume "x \<in> pi_coord ` set (peers_at_level lv ?r)"
    then obtain k p where "(k, p) \<in> set ?r" "ck_level k = lv" "x = pi_coord p" by (auto simp: peers_at_level_def)
    with entry show "x \<in> visible lv ` {c. (c, lv) \<in> D}" by (fastforce simp: peer_key_of_def daemon_peer_def)
  next
    fix x
    assume "x \<in> visible lv ` {c. (c, lv) \<in> D}"
    then obtain c where c: "x = visible lv c" "(c, lv) \<in> D" by auto
    with keys obtain k p where kp: "(k, p) \<in> set ?r" "k = CoordLevelKey x lv"
      by (force simp: peer_key_of_def daemon_peer_def image_iff set_eq_iff)
    with entry [OF kp(1)] have "pi_coord p = x" "pi_alive p" by (auto simp: peer_key_of_def daemon_peer_def)
    with kp show "x \<in> pi_coord ` set (peers_at_level lv ?r)" by (force simp: peers_at_level_def image_iff)
  qed
  moreover have "sorted_wrt (<) (map pi_coord (peers_at_level lv ?r))"
    using peer_selection(2) [OF ok, of lv pi_alive] by (simp add: peers_at_level_def)
  ultimately show ?thesis using d len by simp
qed

definition ex_tree :: "(string \<times> fs_node) list" where
  "ex_tree = [(''.tmp'', SockNode), (''L6_0'', DirNode [(''L5_0'', DirNode [(''L4_1'', DirNode
     [(''L3_2'', DirNode [(''daemon_L3.sock'', SockNode), (''logs'', DirNode [(''daemon.log'', FileNode)])]),
      (''daemon_L4.sock'', SockNode)])])])]"

theorem discover_exact_witness:
  "fst (discover ''/b'' ex_tree []) = 2 \<and>
   pi_coord ` set (peers_at_level 3 (snd (discover ''/b'' ex_tree []))) = {LinquCoordinate 0 0 1 2 0 0 0}"
proof -
  let ?D = "{(LinquCoordinate 0 0 1 2 0 0 0, 3), (LinquCoordinate 0 0 1 0 0 0 0, 4)} :: (linqu_coordinate \<times> u8) set"
  have sp: "socket_paths ''/b'' ex_tree = [''/b/L6_0/L5_0/L4_1/L3_2/daemon_L3.sock'', ''/b/L6_0/L5_0/L4_1/daemon_L4.sock'']"
    by (simp add: ex_tree_def)
  have "make_socket_path ''/b'' (LinquCoordinate 0 0 1 2 0 0 0) 3 = ''/b/L6_0/L5_0/L4_1/L3_2/daemon_L3.sock''"
    "make_socket_path ''/b'' (LinquCoordinate 0 0 1 0 0 0 0) 4 = ''/b/L6_0/L5_0/L4_1/daemon_L4.sock''"
    "scan_coords ''/b'' = []"
    by code_simp+
  then show ?thesis
    using discover_exact [of "''/b''" ex_tree ?D 3] sp by (auto simp: visible_def)
qed

end
