(* ===== verification/Node_Identity.thy ===== *)
theory Node_Identity
  imports Core_Identity Text_Scan "HOL-Library.Char_ord" "HOL-Library.List_Lexorder"
begin

text \<open>
  Who a process is: \<^verbatim>\<open>LinquCoordinate::from_env\<close> (src/src/core/coordinate.h), \<^verbatim>\<open>NodeIdentity\<close>
  (src/src/core/node_identity.h) and the mappers from addresses to coordinates
  (src/src/core/coordinate_mapper.h). The environment is a partial map from names to values.
\<close>

type_synonym environment = "string \<Rightarrow> string option"

definition env_index :: "environment \<Rightarrow> string \<Rightarrow> 'a::len word" where
  "env_index env name = (case env name of None \<Rightarrow> 0 | Some v \<Rightarrow> word_of_int (atoi v))"

definition coord_from_env :: "environment \<Rightarrow> linqu_coordinate" where
  "coord_from_env env =
     LinquCoordinate (env_index env ''LINQU_L6'') (env_index env ''LINQU_L5'') (env_index env ''LINQU_L4'')
       (env_index env ''LINQU_L3'') (env_index env ''LINQU_L2'') (env_index env ''LINQU_L1'')
       (env_index env ''LINQU_L0'')"

record node_identity =
  ni_coord :: linqu_coordinate
  ni_physical_system_name :: string
  ni_logical_system_name :: string

definition node_identity_from_env :: "environment \<Rightarrow> node_identity" where
  "node_identity_from_env env =
     \<lparr>ni_coord = coord_from_env env,
      ni_physical_system_name = (case env ''LINQU_PHYSICAL_SYSTEM'' of None \<Rightarrow> '''' | Some v \<Rightarrow> v),
      ni_logical_system_name = (case env ''LINQU_LOGICAL_SYSTEM'' of None \<Rightarrow> '''' | Some v \<Rightarrow> v)\<rparr>"

definition node_identity_to_string :: "node_identity \<Rightarrow> string" where
  "node_identity_to_string n =
     ''NodeIdentity{coord='' @ coord_to_string (ni_coord n) @ '', phys='' @ ni_physical_system_name n @
     '', logic='' @ ni_logical_system_name n @ ''}''"

section \<open>Task keys as map keys\<close>

text \<open>
  \<^verbatim>\<open>operator<\<close> of \<^verbatim>\<open>TaskKey\<close> (src/src/core/task_key.h) is the linear order of the type. The hash combines the values of
  \<^verbatim>\<open>std::hash\<close>, which the standard library chooses, so they are arguments.
\<close>

definition task_key_less :: "task_key \<Rightarrow> task_key \<Rightarrow> bool" where
  "task_key_less a b =
     (if key_logical_system a \<noteq> key_logical_system b then key_logical_system a < key_logical_system b
      else if key_coord a \<noteq> key_coord b then key_coord a < key_coord b
      else if key_scope_depth a \<noteq> key_scope_depth b then key_scope_depth a < key_scope_depth b
      else key_task_id a < key_task_id b)"

instantiation task_key :: linorder
begin

definition less_task_key :: "task_key \<Rightarrow> task_key \<Rightarrow> bool" where
  "less_task_key a b = task_key_less a b"

definition less_eq_task_key :: "task_key \<Rightarrow> task_key \<Rightarrow> bool" where
  "less_eq_task_key a b = (a = b \<or> task_key_less a b)"

instance
proof
  fix x y z :: task_key
  show "(x < y) = (x \<le> y \<and> \<not> y \<le> x)"
    unfolding less_task_key_def less_eq_task_key_def task_key_less_def by (auto simp: less_not_sym)
  show "x \<le> x" by (simp add: less_eq_task_key_def)
  show "x \<le> z" if "x \<le> y" "y \<le> z"
    using that unfolding less_eq_task_key_def task_key_less_def by (auto split: if_splits)
  show "x = y" if "x \<le> y" "y \<le> x"
    using that unfolding less_eq_task_key_def task_key_less_def by (auto split: if_splits simp: less_not_sym)
  show "x \<le> y \<or> y \<le> x"
    unfolding less_eq_task_key_def task_key_less_def by (cases x; cases y) auto
qed

end

definition task_key_hash ::
  "(string \<Rightarrow> u64) \<Rightarrow> (u8 \<Rightarrow> u64) \<Rightarrow> (u16 \<Rightarrow> u64) \<Rightarrow> (u32 \<Rightarrow> u64) \<Rightarrow> task_key \<Rightarrow> u64" where
  "task_key_hash hs h8 h16 h32 k =
     (let c = key_coord k in
      hs (key_logical_system k) XOR h8 (l6_idx c) XOR h8 (l5_idx c) XOR h8 (l4_idx c) XOR h16 (l3_idx c) XOR
      h16 (l2_idx c) XOR h8 (l1_idx c) XOR h16 (l0_idx c) XOR h16 (key_scope_depth k) XOR h32 (key_task_id k))"

section \<open>Mappers\<close>

text \<open>\<^verbatim>\<open>%u\<close>: white space, a sign, digits; the C library converts with \<^verbatim>\<open>strtoul\<close> and keeps 32 bits.\<close>

definition scan_u :: "string \<Rightarrow> (u32 \<times> string) option" where
  "scan_u s =
     (let (neg, s) = read_sign (dropWhile is_space s);
          (ds, rest) = take_digits s;
          v = dec_value ds in
      if ds = [] then None
      else Some (if 2 ^ 64 \<le> v then - 1 else if neg then - of_nat v else of_nat v, rest))"

definition scan_dot :: "string \<Rightarrow> string option" where
  "scan_dot s = (case s of [] \<Rightarrow> None | c # s' \<Rightarrow> if c = CHR ''.'' then Some s' else None)"

definition scan_octets :: "string \<Rightarrow> (u32 \<times> u32 \<times> u32 \<times> u32) option" where
  "scan_octets ip =
     Option.bind (scan_u ip) (\<lambda>(a, s). Option.bind (scan_dot s) (\<lambda>s.
     Option.bind (scan_u s) (\<lambda>(b, s). Option.bind (scan_dot s) (\<lambda>s.
     Option.bind (scan_u s) (\<lambda>(c, s). Option.bind (scan_dot s) (\<lambda>s.
     Option.bind (scan_u s) (\<lambda>(d, s). Some (a, b, c, d))))))))"

definition octet_map :: "string \<Rightarrow> linqu_coordinate" where
  "octet_map ip =
     (case scan_octets ip of
        None \<Rightarrow> coord_zero
      | Some (a, b, c, d) \<Rightarrow> LinquCoordinate 0 (ucast b) (ucast c) (ucast d) 0 0 0)"

definition env_map :: "environment \<Rightarrow> string \<Rightarrow> linqu_coordinate" where
  "env_map env address = coord_from_env env"

definition fixed_map :: "linqu_coordinate \<Rightarrow> string \<Rightarrow> linqu_coordinate" where
  "fixed_map c address = c"

lemma scan_u_dec:
  "n < 2 ^ 32 \<Longrightarrow> rest = [] \<or> \<not> is_digit (hd rest) \<Longrightarrow> scan_u (dec_digits n @ rest) = Some (of_nat n, rest)"
  by (simp add: scan_u_def dec_digits_unsigned take_digits_dec)

lemma ucast_of_nat: "n < 2 ^ 32 \<Longrightarrow> ucast (of_nat n :: u32) = (of_nat n :: 'a::len word)"
proof -
  assume "n < 2 ^ 32"
  then have "unat (of_nat n :: u32) = n" by (simp add: unsigned_of_nat take_bit_nat_eq_self)
  then show ?thesis by (metis of_nat_unat)
qed

lemma octet_map_printed:
  assumes "a < 256" "b < 256" "c < 256" "d < 256"
  shows "octet_map (dec_digits a @ ''.'' @ dec_digits b @ ''.'' @ dec_digits c @ ''.'' @ dec_digits d) =
    LinquCoordinate 0 (of_nat b) (of_nat c) (of_nat d) 0 0 0"
proof -
  have "\<not> is_digit CHR ''.''" by (simp add: is_digit_def)
  then have "scan_octets (dec_digits a @ ''.'' @ dec_digits b @ ''.'' @ dec_digits c @ ''.'' @ dec_digits d) =
    Some (of_nat a, of_nat b, of_nat c, of_nat d)"
    using assms scan_u_dec [of d "[]"] by (simp add: scan_octets_def scan_u_dec scan_dot_def)
  then show ?thesis using assms by (simp add: octet_map_def ucast_of_nat)
qed

end
