(* ===== verification/Node_Daemon.thy ===== *)
theory Node_Daemon
  imports Dispatchers Peer_Discovery Node_Identity
begin

text \<open>
  The daemon of a node (src/src/daemon): the code cache, the data cache, the storage layout, \<^verbatim>\<open>NodeDaemon\<close> with its
  message handlers, and what \<^verbatim>\<open>main\<close> reads from the environment.

  The dynamic linker is an argument \<open>dl\<close>: what \<^verbatim>\<open>dlopen\<close> makes of the bytes of a file, with the two
  entry points \<^verbatim>\<open>dlsym\<close> finds in it. A kernel's entry point is a function on the orchestrator state and the machine, whose files it
  may write; it sees the peer registry of the daemon, and it may fail. Whether a file can be opened for writing, and what the kernel answers to reads and
  writes, are arguments too. Log lines are not modelled.
\<close>

section \<open>Code cache\<close>

type_synonym orch_entry = "u64 list \<Rightarrow> peer_registry \<Rightarrow> orch \<times> machine \<Rightarrow> (orch \<times> machine) res"

record kernel_image =
  ki_entry :: "orch_entry option"
  ki_config :: bool

type_synonym linker = "byte list \<Rightarrow> kernel_image option"

record loaded_kernel =
  lk_dl_handle :: bool
  lk_entry_fn :: "orch_entry option"
  lk_config_fn :: bool
  lk_so_path :: string

definition no_kernel :: loaded_kernel where
  "no_kernel = \<lparr>lk_dl_handle = False, lk_entry_fn = None, lk_config_fn = False, lk_so_path = ''''\<rparr>"

record code_cache =
  cc_storage_path :: string
  cc_name_to_path :: "string \<Rightarrow> string option"
  cc_loaded :: "string \<Rightarrow> loaded_kernel option"

definition code_cache_new :: "string \<Rightarrow> machine \<Rightarrow> code_cache \<times> machine" where
  "code_cache_new storage_path m =
     (\<lparr>cc_storage_path = storage_path, cc_name_to_path = Map.empty, cc_loaded = Map.empty\<rparr>,
      if storage_path \<noteq> [] then mkdir_p (storage_path @ ''/code'') (mkdir_p storage_path m) else m)"

definition register_code :: "bool \<Rightarrow> string \<Rightarrow> byte list \<Rightarrow> code_cache \<Rightarrow> machine \<Rightarrow> code_cache \<times> machine" where
  "register_code open_ok name data cc m =
     (let path = cc_storage_path cc @ ''/code/'' @ name in
      if open_ok
      then (cc\<lparr>cc_name_to_path := (cc_name_to_path cc)(name \<mapsto> path)\<rparr>,
            m\<lparr>mc_files := (mc_files m)(path \<mapsto> data)\<rparr>)
      else (cc, m))"

definition code_cache_has :: "string \<Rightarrow> code_cache \<Rightarrow> bool" where
  "code_cache_has name cc = (cc_name_to_path cc name \<noteq> None)"

definition code_cache_load :: "linker \<Rightarrow> string \<Rightarrow> machine \<Rightarrow> code_cache \<Rightarrow> loaded_kernel \<times> code_cache" where
  "code_cache_load dl name m cc =
     (case cc_loaded cc name of
        Some k \<Rightarrow> (k, cc)
      | None \<Rightarrow> (case cc_name_to_path cc name of
          None \<Rightarrow> (no_kernel, cc)
        | Some path \<Rightarrow> (case Option.bind (mc_files m path) dl of
            None \<Rightarrow> (no_kernel, cc)
          | Some img \<Rightarrow> (case ki_entry img of
              None \<Rightarrow> (no_kernel, cc)
            | Some entry \<Rightarrow>
                let k = \<lparr>lk_dl_handle = True, lk_entry_fn = Some entry, lk_config_fn = ki_config img,
                         lk_so_path = path\<rparr> in
                (k, cc\<lparr>cc_loaded := (cc_loaded cc)(name \<mapsto> k)\<rparr>)))))"

definition unload_all :: "code_cache \<Rightarrow> code_cache" where
  "unload_all cc = cc\<lparr>cc_loaded := Map.empty\<rparr>"

section \<open>Data cache\<close>

type_synonym data_cache = "u64 \<Rightarrow> byte list option"

definition register_data :: "u64 \<Rightarrow> byte list \<Rightarrow> data_cache \<Rightarrow> data_cache" where
  "register_data handle data c = c(handle \<mapsto> data)"

text \<open>A null pointer with size 0, or the data.\<close>

definition data_lookup :: "u64 \<Rightarrow> data_cache \<Rightarrow> byte list option \<times> nat" where
  "data_lookup handle c = (case c handle of None \<Rightarrow> (None, 0) | Some bs \<Rightarrow> (Some bs, length bs))"

definition data_has :: "u64 \<Rightarrow> data_cache \<Rightarrow> bool" where
  "data_has handle c = (c handle \<noteq> None)"

definition data_remove :: "u64 \<Rightarrow> data_cache \<Rightarrow> data_cache" where
  "data_remove handle c = c(handle := None)"

definition data_clear :: "data_cache \<Rightarrow> data_cache" where
  "data_clear c = Map.empty"

definition data_size :: "data_cache \<Rightarrow> nat" where
  "data_size c = card (dom c)"

section \<open>Storage layout\<close>

record node_storage_paths =
  ns_node_dir :: string
  ns_code_cache_dir :: string
  ns_data_cache_dir :: string
  ns_logs_dir :: string

definition node_dir_path :: "string \<Rightarrow> linqu_coordinate \<Rightarrow> string" where
  "node_dir_path base_path c =
     base_path @ ''/L6_'' @ to_string_u (l6_idx c) @ ''/L5_'' @ to_string_u (l5_idx c) @
     ''/L4_'' @ to_string_u (l4_idx c) @ ''/L3_'' @ to_string_u (l3_idx c)"

definition create_node_storage :: "string \<Rightarrow> linqu_coordinate \<Rightarrow> machine \<Rightarrow> node_storage_paths \<times> machine" where
  "create_node_storage base_path c m =
     (let dir = node_dir_path base_path c;
          paths = \<lparr>ns_node_dir = dir, ns_code_cache_dir = dir @ ''/code_cache'',
                   ns_data_cache_dir = dir @ ''/data_cache'', ns_logs_dir = dir @ ''/logs''\<rparr> in
      (paths, mkdir_p (ns_logs_dir paths) (mkdir_p (ns_data_cache_dir paths)
                (mkdir_p (ns_code_cache_dir paths) (mkdir_p (ns_node_dir paths) m)))))"

text \<open>\<^verbatim>\<open>stat\<close> finds a directory that was made with or without a slash at its end.\<close>

definition node_storage_exists :: "string \<Rightarrow> linqu_coordinate \<Rightarrow> machine \<Rightarrow> bool" where
  "node_storage_exists base_path c m =
     (let dir = node_dir_path base_path c in dir \<in> set (mc_dirs m) \<or> dir @ ''/'' \<in> set (mc_dirs m))"

section \<open>The daemon\<close>

record node_daemon =
  nd_level :: level
  nd_coord :: linqu_coordinate
  nd_base_path :: string
  nd_storage_path :: string
  nd_transport :: transport
  nd_registry :: peer_registry
  nd_code_cache :: code_cache
  nd_data_cache :: data_cache
  nd_running :: bool
  nd_messages_handled :: int
  nd_task_profiles :: "profile_report list"

definition daemon_new :: "level \<Rightarrow> linqu_coordinate \<Rightarrow> string \<Rightarrow> machine \<Rightarrow> node_daemon \<times> machine" where
  "daemon_new level coord base_path m =
     (let sock_path = make_socket_path base_path coord (level_value level);
          storage = (if CHR ''/'' \<in> set sock_path then dirname sock_path else base_path @ ''/'' @ sock_path);
          (cc, m) = code_cache_new storage m in
      (\<lparr>nd_level = level, nd_coord = coord, nd_base_path = base_path, nd_storage_path = storage,
        nd_transport = transport_new base_path coord (level_value level), nd_registry = [],
        nd_code_cache = cc, nd_data_cache = Map.empty, nd_running = False, nd_messages_handled = 0,
        nd_task_profiles = []\<rparr>, m))"

definition daemon_start :: "listen_outcome \<Rightarrow> node_daemon \<Rightarrow> machine \<Rightarrow> bool \<times> node_daemon \<times> machine" where
  "daemon_start os d m =
     (case start_listening os (nd_transport d) (mkdir_p (nd_storage_path d) m) of
        (False, t, m) \<Rightarrow> (False, d\<lparr>nd_transport := t\<rparr>, m)
      | (True, t, m) \<Rightarrow> (True, d\<lparr>nd_transport := t, nd_running := True\<rparr>, m))"

text \<open>The profiles as a JSON array, one report after the other.\<close>

primrec profiles_json :: "profile_report list \<Rightarrow> string" where
  "profiles_json [] = ''''"
| "profiles_json (r # rs) = report_to_json r @ (if rs \<noteq> [] then '','' @ [NL] else [NL]) @ profiles_json rs"

definition write_profile_json :: "bool \<Rightarrow> node_daemon \<Rightarrow> machine \<Rightarrow> machine" where
  "write_profile_json open_ok d m =
     (if nd_task_profiles d = [] then m
      else
        let logs_dir = nd_storage_path d @ ''/logs'';
            m = mkdir_p logs_dir m in
        if \<not> open_ok then m
        else m\<lparr>mc_files := (mc_files m)(logs_dir @ ''/ring_profile.json'' \<mapsto>
               map byte_of_char (''['' @ [NL] @ profiles_json (nd_task_profiles d) @ '']'' @ [NL]))\<rparr>)"

definition daemon_stop :: "bool \<Rightarrow> node_daemon \<Rightarrow> machine \<Rightarrow> node_daemon \<times> machine" where
  "daemon_stop open_ok d m =
     (let m = write_profile_json open_ok d m;
          (t, m) = transport_stop (nd_transport d) m in
      (d\<lparr>nd_running := False, nd_transport := t, nd_code_cache := unload_all (nd_code_cache d)\<rparr>, m))"

section \<open>Message handlers\<close>

text \<open>The reply to a call: one \<^verbatim>\<open>write\<close> for the header and one for the payload, whatever they return.\<close>

definition raw_write :: "io_event \<Rightarrow> byte list \<Rightarrow> byte list" where
  "raw_write ev data = take (nat (sys_write ev (length data))) data"

definition send_task_complete ::
  "bool \<Rightarrow> io_event \<Rightarrow> io_event \<Rightarrow> linqu_coordinate \<Rightarrow> u8 \<Rightarrow> u32 \<Rightarrow> i32 \<Rightarrow> node_daemon \<Rightarrow> machine \<Rightarrow> machine" where
  "send_task_complete sock_ok ev1 ev2 sender_coord slevel task_id status d m =
     (let buf = task_complete_serialize \<lparr>tc_task_id = task_id, tc_status = status\<rparr>;
          resp = header_make TASK_COMPLETE (level_value (nd_level d)) (nd_coord d) sender_coord (of_nat (length buf));
          path = sun_path (make_socket_path (nd_base_path d) sender_coord slevel) in
      if \<not> sock_ok then m
      else case mc_listeners m path of
        None \<Rightarrow> m
      | Some backlog \<Rightarrow>
          set_backlog path (backlog @ [raw_write ev1 (header_serialize resp) @ raw_write ev2 buf]) m)"

text \<open>The arguments of the kernel: the scalar of a scalar parameter, the handle of any other.\<close>

definition kernel_args :: "param_entry list \<Rightarrow> u64 list" where
  "kernel_args es = map (\<lambda>e. if pe_type e = 3 then pe_scalar_value e else pe_handle e) es"

definition alloc_param :: "param_entry \<Rightarrow> orch \<Rightarrow> orch res" where
  "alloc_param e s =
     (if pe_type e = 0 \<or> pe_type e = 2 \<or> pe_type e = 1
      then bindR (alloc_tensor [] (o_coord s) 0 s) (\<lambda>(h, s). Inr s) else Inr s)"

text \<open>Lines 139 to 174 of \<^verbatim>\<open>handle_call_task\<close>: load the kernel and run it on a fresh orchestrator.\<close>

definition run_call :: "linker \<Rightarrow> call_task_payload \<Rightarrow> machine \<Rightarrow> node_daemon \<Rightarrow> (node_daemon \<times> machine) res" where
  "run_call dl task m d =
     (let (kernel, cc) = code_cache_load dl (ct_kernel_so_name task) m (nd_code_cache d);
          d = d\<lparr>nd_code_cache := cc\<rparr> in
      case lk_entry_fn kernel of
        None \<Rightarrow> Inr (d, m)
      | Some entry \<Rightarrow>
          bindR (orch_init (nd_level d) (nd_coord d) orch_config_default NoDispatcher False) (\<lambda>s.
          bindR (foldR alloc_param (ct_params task) s) (\<lambda>s.
          bindR (entry (kernel_args (ct_params task)) (nd_registry d) (s, m)) (\<lambda>(s, m).
            Inr (d\<lparr>nd_task_profiles := nd_task_profiles d @ [generate_profile (coord_to_string (nd_coord d)) s]\<rparr>, m)))))"

record daemon_os =
  os_linker :: linker
  os_open :: bool
  os_socket :: bool
  os_write1 :: io_event
  os_write2 :: io_event

definition handle_call_task ::
  "daemon_os \<Rightarrow> linqu_header \<Rightarrow> byte list \<Rightarrow> node_daemon \<Rightarrow> machine \<Rightarrow> (node_daemon \<times> machine) res" where
  "handle_call_task os hdr payload d m =
     bindR (call_task_deserialize payload) (\<lambda>task.
     bindR (run_call (os_linker os) task m d) (\<lambda>(d, m).
       Inr (d, send_task_complete (os_socket os) (os_write1 os) (os_write2 os) (get_sender hdr) (sender_level hdr)
                 (ct_task_id task) 0 d m)))"

definition handle_shutdown :: "node_daemon \<Rightarrow> node_daemon" where
  "handle_shutdown d = d\<lparr>nd_running := False\<rparr>"

definition blob_name :: "u64 \<Rightarrow> string" where
  "blob_name h = ''blob_'' @ to_string_u h @ ''.so''"

definition handle_reg_code :: "bool \<Rightarrow> byte list \<Rightarrow> node_daemon \<Rightarrow> machine \<Rightarrow> (node_daemon \<times> machine) res" where
  "handle_reg_code open_ok payload d m =
     bindR (reg_code_deserialize payload) (\<lambda>reg.
       if rc_code_binary reg \<noteq> [] then
         let (cc, m) = register_code open_ok (blob_name (rc_blob_hash reg)) (rc_code_binary reg) (nd_code_cache d) m in
         Inr (d\<lparr>nd_code_cache := cc\<rparr>, m)
       else Inr (d, m))"

definition handle_reg_data :: "byte list \<Rightarrow> node_daemon \<Rightarrow> node_daemon res" where
  "handle_reg_data payload d =
     bindR (reg_data_deserialize payload) (\<lambda>reg.
       Inr (if rd_buffer_bytes reg \<noteq> []
            then d\<lparr>nd_data_cache := register_data (rd_data_handle reg) (rd_buffer_bytes reg) (nd_data_cache d)\<rparr>
            else d))"

definition handle_scope_exit :: "byte list \<Rightarrow> node_daemon \<Rightarrow> node_daemon res" where
  "handle_scope_exit payload d = bindR (scope_exit_deserialize payload) (\<lambda>se. Inr d)"

definition handle_heartbeat :: "byte list \<Rightarrow> node_daemon \<Rightarrow> node_daemon res" where
  "handle_heartbeat payload d =
     bindR (heartbeat_deserialize payload) (\<lambda>hb.
       Inr (d\<lparr>nd_registry := registry_add
         \<lparr>pi_coord = LinquCoordinate (hb_sender_l6 hb) (hb_sender_l5 hb) (hb_sender_l4 hb) (hb_sender_l3 hb) 0 0 0,
          pi_level = level_value (nd_level d), pi_socket_path = '''', pi_alive = (hb_status hb = 0)\<rparr>
         (nd_registry d)\<rparr>))"

definition handle_one_message ::
  "daemon_os \<Rightarrow> io_event list \<Rightarrow> node_daemon \<Rightarrow> machine \<Rightarrow> (bool \<times> node_daemon \<times> machine) res" where
  "handle_one_message os evs d m =
     bindR (transport_recv evs (nd_transport d) m) (\<lambda>(msg, m).
       case msg of
         None \<Rightarrow> Inr (False, d, m)
       | Some (hdr, payload) \<Rightarrow>
           if magic hdr \<noteq> LINQU_MAGIC then Inr (False, d, m)
           else
             let d = d\<lparr>nd_messages_handled := nd_messages_handled d + 1\<rparr>; ty = hdr_msg_type hdr in
             if ty = CALL_TASK then bindR (handle_call_task os hdr payload d m) (\<lambda>(d, m). Inr (True, d, m))
             else if ty = SHUTDOWN then Inr (True, handle_shutdown d, m)
             else if ty = HEARTBEAT then bindR (handle_heartbeat payload d) (\<lambda>d. Inr (True, d, m))
             else if ty = REG_CODE then bindR (handle_reg_code (os_open os) payload d m) (\<lambda>(d, m). Inr (True, d, m))
             else if ty = REG_DATA then bindR (handle_reg_data payload d) (\<lambda>d. Inr (True, d, m))
             else if ty = SCOPE_EXIT then bindR (handle_scope_exit payload d) (\<lambda>d. Inr (True, d, m))
             else Inr (True, d, m))"

text \<open>The loop, one answer of the operating system per iteration; \<open>limit\<close> below 0 means no limit. When the
  answers run out the loop still waits for a message.\<close>

fun run_event_loop ::
  "int \<Rightarrow> int \<Rightarrow> (daemon_os \<times> io_event list) list \<Rightarrow> node_daemon \<Rightarrow> machine \<Rightarrow> (node_daemon \<times> machine) res" where
  "run_event_loop limit n turns d m =
     (if \<not> nd_running d \<or> (0 \<le> limit \<and> limit \<le> n) then Inr (d, m)
      else case turns of
        [] \<Rightarrow> Inl Diverges
      | (os, evs) # turns \<Rightarrow>
          bindR (handle_one_message os evs d m) (\<lambda>(handled, d, m).
            run_event_loop limit (if handled then n + 1 else n) turns d m))"

section \<open>The daemon's environment\<close>

text \<open>Level, coordinate and base path, as \<^verbatim>\<open>main\<close> of src/src/daemon/main.cpp takes them; without a level it exits with 1.\<close>

definition daemon_main_args :: "environment \<Rightarrow> (level \<times> linqu_coordinate \<times> string) option" where
  "daemon_main_args env =
     (case env ''LINQU_LEVEL'' of
        None \<Rightarrow> None
      | Some v \<Rightarrow> Some (word_of_int (atoi v), coord_from_env env,
          case env ''LINQU_BASE'' of None \<Rightarrow> ''/tmp/linqu'' | Some b \<Rightarrow> b))"

end
