(* ===== verification/Remote_Call.thy ===== *)
theory Remote_Call
  imports Node_Daemon
begin

text \<open>
  The path of a remote task through three processes' code: \<^verbatim>\<open>RemoteDispatcher::dispatch\<close> at a level, the daemon of a node one
  level below, and the receive loop of the dispatcher. The lemmas follow one message at a time; the
  property puts them together.
\<close>

declare run_event_loop.simps [simp del]

section \<open>Who listens where\<close>

definition listens :: "transport \<Rightarrow> string \<Rightarrow> linqu_coordinate \<Rightarrow> u8 \<Rightarrow> bool" where
  "listens t base c lv \<longleftrightarrow> ut_listening t \<and> \<not> ut_stopped t \<and> ut_base_path t = base \<and>
     ut_socket_path t = make_socket_path base c lv \<and> length (make_socket_path base c lv) < SUN_PATH_SIZE"

lemma dec_digits_inj: "dec_digits a = dec_digits b \<Longrightarrow> a = b"
  by (metis dec_value_dec_digits)

lemma socket_path_level: "make_socket_path base c lv = make_socket_path base' c' lv' \<Longrightarrow> lv = lv'"
proof -
  assume "make_socket_path base c lv = make_socket_path base' c' lv'"
  then have "sock_name lv = sock_name lv'"
    by (metis make_socket_path_split path_parts(2) sock_name_no_slash)
  then show ?thesis by (auto simp: sock_name_def word_unat_eq_iff dest: dec_digits_inj)
qed

text \<open>A header carries the coordinates down to the host index, which is all a socket path shows.\<close>

lemma header_make_fields [simp]:
  "magic (header_make ty lv c tgt n) = LINQU_MAGIC" "hdr_msg_type (header_make ty lv c tgt n) = ty"
  "sender_level (header_make ty lv c tgt n) = lv" "payload_size (header_make ty lv c tgt n) = n"
  by (simp_all add: header_make_def set_target_def set_sender_def)

lemma socket_path_sender [simp]:
  "make_socket_path base (get_sender (header_make ty lv c tgt n)) l = make_socket_path base c l"
  by (simp add: make_socket_path_def get_sender_def header_make_def set_target_def set_sender_def split16 cong: if_cong)

section \<open>The call message\<close>

definition call_size :: "string \<Rightarrow> linqu_param list \<Rightarrow> nat" where
  "call_size k params = 14 + length k + 17 * length params"

lemma length_param_entries: "length (concat (map param_entry_bytes es)) = 17 * length es"
  by (induction es) (simp_all add: param_entry_bytes_def)

lemma call_message:
  assumes "call_size k params < 2 ^ 32"
  obtains buf where "call_task_serialize (call_payload tid k params) = Inr buf"
    "call_task_deserialize buf = Inr (call_payload tid k params)" "length buf = call_size k params"
proof -
  have fit: "call_task_fits (call_payload tid k params)"
    using assms by (simp add: call_task_fits_def call_payload_def call_size_def unat_of_nat32)
  from call_task_codec.roundtrip [OF fit] obtain buf where
    buf: "call_task_serialize (call_payload tid k params) = Inr buf"
         "call_task_deserialize buf = Inr (call_payload tid k params)" by blast
  have n: "unat (of_nat (length k) :: u32) = length k" "unat (of_nat (length params) :: u32) = length params"
    using assms by (simp_all add: call_size_def unat_of_nat32)
  from buf(1) have "length buf = call_size k params"
    by (auto simp: call_task_serialize_def call_payload_def call_size_def n Let_def
        length_param_entries [of "map param_entry_of params", simplified] split: if_splits)
  with buf that show thesis by blast
qed

section \<open>The daemon's side\<close>

lemma run_call_frame:
  assumes "run_call dl task m d = Inr (d', m')"
  shows "nd_level d' = nd_level d" "nd_coord d' = nd_coord d" "nd_base_path d' = nd_base_path d"
    "nd_transport d' = nd_transport d" "nd_registry d' = nd_registry d"
proof -
  obtain kernel cc where l: "code_cache_load dl (ct_kernel_so_name task) m (nd_code_cache d) = (kernel, cc)"
    by (cases "code_cache_load dl (ct_kernel_so_name task) m (nd_code_cache d)")
  have "\<exists>cc' ps. d' = d\<lparr>nd_code_cache := cc', nd_task_profiles := ps\<rparr>"
  proof (cases "lk_entry_fn kernel")
    case None
    with assms l have "d' = d\<lparr>nd_code_cache := cc, nd_task_profiles := nd_task_profiles d\<rparr>"
      by (cases d) (auto simp: run_call_def)
    then show ?thesis by blast
  next
    case (Some entry)
    with assms l obtain s where "d' = d\<lparr>nd_code_cache := cc,
        nd_task_profiles := nd_task_profiles d @ [generate_profile (coord_to_string (nd_coord d)) s]\<rparr>"
      by (auto simp: run_call_def bindR_Inr_iff)
    then show ?thesis by blast
  qed
  then show "nd_level d' = nd_level d" "nd_coord d' = nd_coord d" "nd_base_path d' = nd_base_path d"
    "nd_transport d' = nd_transport d" "nd_registry d' = nd_registry d" by auto
qed

text \<open>An unknown kernel: nothing runs.\<close>

lemma run_call_unknown:
  assumes "cc_loaded (nd_code_cache d) (ct_kernel_so_name task) = None"
    and "cc_name_to_path (nd_code_cache d) (ct_kernel_so_name task) = None"
  shows "run_call dl task m d = Inr (d, m)"
  using assms by (simp add: run_call_def code_cache_load_def no_kernel_def)

text \<open>Code registered under a hash is what a call of its blob name runs, unless a kernel of that name is loaded already.\<close>

lemma registered_code_runs:
  assumes "reg_code_deserialize payload = Inr \<lparr>rc_blob_hash = h, rc_code_binary = code\<rparr>" "code \<noteq> []"
    and "dl code = Some \<lparr>ki_entry = Some entry, ki_config = cfg\<rparr>"
    and "cc_loaded (nd_code_cache d) (blob_name h) = None" "ct_kernel_so_name task = blob_name h"
    and "orch_init (nd_level d) (nd_coord d) orch_config_default NoDispatcher False = Inr s0"
    and "foldR alloc_param (ct_params task) s0 = Inr s1" "\<And>m1. entry (kernel_args (ct_params task)) (nd_registry d) (s1, m1) = Inr (s2, m1)"
  shows "\<exists>d1 m1 d2. handle_reg_code True payload d m = Inr (d1, m1) \<and> run_call dl task m1 d1 = Inr (d2, m1) \<and>
    nd_task_profiles d2 = nd_task_profiles d @ [generate_profile (coord_to_string (nd_coord d)) s2]"
  using assms
  by (simp add: handle_reg_code_def register_code_def run_call_def code_cache_load_def Let_def)

lemma raw_write_whole: "length data \<le> Suc k \<Longrightarrow> raw_write (Ready k) data = data"
  by (simp add: raw_write_def)

definition reply_hdr :: "node_daemon \<Rightarrow> linqu_coordinate \<Rightarrow> linqu_header" where
  "reply_hdr d to = header_make TASK_COMPLETE (level_value (nd_level d)) (nd_coord d) to 8"

lemma length_task_complete [simp]: "length (task_complete_serialize p) = 8"
  by (simp add: task_complete_serialize_def)

lemma reply_sent:
  assumes "mc_listeners m path = Some backlog" "path = make_socket_path (nd_base_path d) to slevel"
    "length path < SUN_PATH_SIZE" "23 \<le> k1" "7 \<le> k2"
  shows "send_task_complete True (Ready k1) (Ready k2) to slevel tid st d m =
    set_backlog path (backlog @
      [header_serialize (reply_hdr d to) @ task_complete_serialize \<lparr>tc_task_id = tid, tc_status = st\<rparr>]) m"
proof -
  have "sun_path path = path" using assms(3) by (simp add: sun_path_def SUN_PATH_SIZE_def)
  then show ?thesis
    using assms by (simp add: send_task_complete_def reply_hdr_def Let_def raw_write_whole WIRE_SIZE_def)
qed

section \<open>One message at a time\<close>

definition call_hdr :: "remote_dispatcher \<Rightarrow> linqu_coordinate \<Rightarrow> string \<Rightarrow> linqu_param list \<Rightarrow> linqu_header" where
  "call_hdr d c k params =
     header_make CALL_TASK (rd_self_level d) (rd_self_coord d) c (of_nat (call_size k params))"

text \<open>The state of a dispatcher in which a task has a status and the count has changed.\<close>

definition rd_note :: "i32 \<Rightarrow> dispatch_status \<Rightarrow> int \<Rightarrow> remote_dispatcher \<Rightarrow> remote_dispatcher" where
  "rd_note tid st n d =
     d\<lparr>rd_mu := False, rd_pending := (rd_pending d)(tid \<mapsto> st), rd_outstanding := rd_outstanding d + n\<rparr>"

lemma rd_note_simps [simp]:
  "rd_pending (rd_note tid st n d) = (rd_pending d)(tid \<mapsto> st)" "\<not> rd_mu (rd_note tid st n d)"
  "rd_outstanding (rd_note tid st n d) = rd_outstanding d + n" "rd_transport (rd_note tid st n d) = rd_transport d"
  "rd_running (rd_note tid st n d) = rd_running d"
  by (simp_all add: rd_note_def)

lemma call_sent:
  assumes "call_task_serialize (call_payload tid k params) = Inr buf" "length buf = call_size k params"
    and "mc_listeners m path = Some []" "path = make_socket_path (ut_base_path (rd_transport d)) c lv"
    and "length path < SUN_PATH_SIZE" "rd_self_level d = lv + 1" "\<not> rd_mu d" "rd_outstanding d < INT32_MAX"
    and "smooth (WIRE_SIZE + call_size k params) evs"
  shows "remote_dispatch fn True evs tid c k params (d, m, s) =
    Inr (True, rd_note tid D_PENDING 1 d, set_backlog path [header_serialize (call_hdr d c k params) @ buf] m, s)"
proof -
  have "transport_send True evs c (call_hdr d c k params) buf (rd_transport d) m =
    Inr (True, set_backlog path ([] @ [header_serialize (call_hdr d c k params) @ buf]) m)"
    using assms by (intro send_frame) (simp_all add: call_hdr_def target_level_def)
  then show ?thesis
    using assms(1,2,7,8)
    by (simp add: remote_dispatch_def rd_lock_def rd_unlock_def inc_i32_def rd_note_def call_hdr_def)
qed

lemma call_handled:
  assumes "listens (nd_transport n) base c lv" "nd_base_path n = base"
    and "mc_listeners m (make_socket_path base c lv) = Some [header_serialize (call_hdr d c k params) @ buf]"
    and "length buf = call_size k params" "call_size k params < 2 ^ 32"
    and "call_task_deserialize buf = Inr (call_payload tid k params)"
    and "smooth (WIRE_SIZE + call_size k params + 1) evs"
    and "run_call (os_linker os) (call_payload tid k params) (set_backlog (make_socket_path base c lv) [] m)
        (n\<lparr>nd_messages_handled := nd_messages_handled n + 1\<rparr>) = Inr (n', m')"
    and "os_socket os" "os_write1 os = Ready k1" "os_write2 os = Ready k2" "23 \<le> k1" "7 \<le> k2"
    and "mc_listeners m' path = Some []" "path = make_socket_path base (rd_self_coord d) (rd_self_level d)"
    and "length path < SUN_PATH_SIZE"
  shows "handle_one_message os evs n m = Inr (True, n',
    set_backlog path [header_serialize (reply_hdr n' (get_sender (call_hdr d c k params))) @
        task_complete_serialize \<lparr>tc_task_id = word_of_int tid, tc_status = 0\<rparr>] m')"
proof -
  let ?m = "set_backlog (make_socket_path base c lv) [] m" and ?hdr = "call_hdr d c k params"
  have "frames ?hdr buf"
    using assms(4,5) by (simp add: frames_def call_hdr_def unat_of_nat32)
  then have "transport_recv evs (nd_transport n) m = Inr (Some (?hdr, buf), ?m)"
    using recv_frame [of m "nd_transport n" "header_serialize ?hdr @ buf" "[]" evs] assms(1,3,4,7)
    by (simp add: listens_def parse_frame_serialize)
  moreover have "nd_base_path n' = base"
    using run_call_frame(3) [OF assms(8)] assms(2) by simp
  then have "send_task_complete True (Ready k1) (Ready k2) (get_sender ?hdr) (rd_self_level d) (word_of_int tid) 0 n' m' =
    set_backlog path ([] @ [header_serialize (reply_hdr n' (get_sender ?hdr)) @
        task_complete_serialize \<lparr>tc_task_id = word_of_int tid, tc_status = 0\<rparr>]) m'"
    using assms(12-16) by (intro reply_sent) (simp_all add: call_hdr_def)
  moreover have "ct_task_id (call_payload tid k params) = word_of_int tid"
    by (simp add: call_payload_def)
  ultimately show ?thesis
    using assms(6,8,9-11) by (simp add: handle_one_message_def handle_call_task_def call_hdr_def)
qed

lemma reply_taken:
  assumes "listens (rd_transport d) base pc plv" "rd_running d" "\<not> rd_mu d"
    and "mc_listeners m (make_socket_path base pc plv) = Some [header_serialize (reply_hdr n to) @
      task_complete_serialize \<lparr>tc_task_id = word_of_int tid, tc_status = 0\<rparr>]"
    and "- (2 ^ 31) \<le> tid" "tid < 2 ^ 31" "smooth (WIRE_SIZE + 9) evs"
  shows "remote_recv_turn record_fn evs (d, m, log) =
    Inr (rd_note tid D_COMPLETED (- 1) d, set_backlog (make_socket_path base pc plv) [] m, log @ [completed tid])"
proof -
  let ?p = "\<lparr>tc_task_id = word_of_int tid, tc_status = 0\<rparr> :: task_complete_payload"
  have "frames (reply_hdr n to) (task_complete_serialize ?p)" by (simp add: frames_def reply_hdr_def)
  then have "transport_recv evs (rd_transport d) m =
      Inr (Some (reply_hdr n to, task_complete_serialize ?p), set_backlog (make_socket_path base pc plv) [] m)"
    using recv_frame [of m "rd_transport d" "header_serialize (reply_hdr n to) @ task_complete_serialize ?p" "[]" evs]
      assms(1,4,7) by (simp add: listens_def parse_frame_serialize add.commute)
  moreover have "task_complete_deserialize (task_complete_serialize ?p) = Inr ?p"
    using task_complete_codec.roundtrip [of ?p] by simp
  moreover have "sint (word_of_int tid :: u32) = tid"
    using assms(5,6) by (rule sint_word_of_int32)
  ultimately show ?thesis
    using assms(2,3)
    by (simp add: remote_recv_turn_def rd_lock_def rd_unlock_def rd_note_def completed_def reply_hdr_def)
qed

text \<open>A pod's dispatcher, a host's daemon and the machine they share, for the concrete instance below.\<close>

definition ex_machine :: machine where
  "ex_machine = set_backlog (make_socket_path ''/t'' coord_zero 4) []
     (set_backlog (make_socket_path ''/t'' coord_zero 3) [] machine_empty)"

definition ex_pod :: remote_dispatcher where
  "ex_pod = start_recv_loop
     (remote_new ((transport_new ''/t'' coord_zero 4)\<lparr>ut_listening := True\<rparr>) coord_zero 4)"

definition ex_daemon :: node_daemon where
  "ex_daemon = (fst (daemon_new 3 coord_zero ''/t'' machine_empty))\<lparr>nd_transport := ex_host, nd_running := True\<rparr>"

definition ex_os :: daemon_os where
  "ex_os = \<lparr>os_linker = (\<lambda>_. None), os_open = True, os_socket = True, os_write1 = Ready 99, os_write2 = Ready 99\<rparr>"

lemma ex_path4: "length (make_socket_path ''/t'' coord_zero 4) < SUN_PATH_SIZE"
  by (simp add: make_socket_path_def to_string_u_def coord_zero_def dec_digits.simps SUN_PATH_SIZE_def)

section \<open>Properties\<close>

text \<open>C11.
  A remote task is completed: a dispatcher at level \<open>lv + 1\<close> sends a task to a running daemon at level \<open>lv\<close>; one
  turn of the daemon's loop loads and runs the kernel and replies; one turn of the dispatcher's receive
  loop reports the task as completed and takes it off the outstanding count. Every message is consumed.
  This holds for every kernel that returns and leaves the sockets alone (it may write files: the machine at the end is the one the kernel left), however the transfers are cut into reads and writes, and
  also when the daemon does not know the kernel: then nothing runs and the task is
  reported as completed all the same.\<close>

theorem remote_call_completes:
  assumes "listens (rd_transport d) base pc (lv + 1)" "listens (nd_transport n) base c lv" "nd_base_path n = base"
    and "rd_self_coord d = pc" "rd_self_level d = lv + 1" "rd_running d" "\<not> rd_mu d" "rd_outstanding d < INT32_MAX"
    and "mc_listeners m (make_socket_path base pc (lv + 1)) = Some []" "mc_listeners m (make_socket_path base c lv) = Some []"
    and "- (2 ^ 31) \<le> tid" "tid < 2 ^ 31" "call_size k params < 2 ^ 32"
    and "run_call (os_linker os) (call_payload tid k params) m (n\<lparr>nd_messages_handled := nd_messages_handled n + 1\<rparr>) = Inr (n', m') \<and>
      mc_listeners m' = mc_listeners m \<or>
      code_cache_has k (nd_code_cache n) = False \<and> cc_loaded (nd_code_cache n) k = None \<and>
      n' = n\<lparr>nd_messages_handled := nd_messages_handled n + 1\<rparr> \<and> m' = m"
    and "os_socket os" "os_write1 os = Ready k1" "os_write2 os = Ready k2" "23 \<le> k1" "7 \<le> k2"
    and "smooth (WIRE_SIZE + call_size k params) evs1" "smooth (WIRE_SIZE + call_size k params + 1) evs2"
    and "smooth (WIRE_SIZE + 9) evs3"
  shows "\<exists>d1 m1 m2 d2.
    remote_dispatch record_fn True evs1 tid c k params (d, m, log) = Inr (True, d1, m1, log) \<and>
    rd_pending d1 tid = Some D_PENDING \<and> rd_outstanding d1 = rd_outstanding d + 1 \<and>
    handle_one_message os evs2 n m1 = Inr (True, n', m2) \<and>
    remote_recv_turn record_fn evs3 (d1, m2, log) = Inr (d2, m', log @ [completed tid]) \<and>
    rd_pending d2 = (rd_pending d)(tid \<mapsto> D_COMPLETED) \<and> rd_outstanding d2 = rd_outstanding d"
proof -
  let ?pp = "make_socket_path base pc (lv + 1)" and ?cp = "make_socket_path base c lv"
  let ?d = "rd_note tid D_PENDING 1 d" and ?hdr = "call_hdr d c k params"
  obtain buf where buf: "call_task_serialize (call_payload tid k params) = Inr buf"
    "call_task_deserialize buf = Inr (call_payload tid k params)" "length buf = call_size k params"
    using call_message [OF assms(13)] by blast
  have run: "run_call (os_linker os) (call_payload tid k params) m (n\<lparr>nd_messages_handled := nd_messages_handled n + 1\<rparr>) = Inr (n', m')"
    and m': "mc_listeners m' = mc_listeners m"
    using assms(14) by (auto simp: code_cache_has_def call_payload_def intro!: run_call_unknown)
  let ?m1 = "set_backlog ?cp [header_serialize ?hdr @ buf] m"
  let ?reply = "header_serialize (reply_hdr n' (get_sender ?hdr)) @
      task_complete_serialize \<lparr>tc_task_id = word_of_int tid, tc_status = 0\<rparr>"
  let ?m2 = "set_backlog ?pp [?reply] m'"
  have drained: "set_backlog ?cp [] ?m1 = m" using assms(10) by (simp add: set_backlog_def fun_upd_idem)
  have sent: "remote_dispatch record_fn True evs1 tid c k params (d, m, log) = Inr (True, ?d, ?m1, log)"
    using buf assms(1,2,5,7,8,10,20) by (intro call_sent) (simp_all add: listens_def)
  have handled: "handle_one_message os evs2 n ?m1 = Inr (True, n', ?m2)"
    using buf assms run m' drained
    by (intro call_handled [where base = base and lv = lv and path = ?pp and d = d]) (simp_all add: listens_def)
  have "remote_recv_turn record_fn evs3 (?d, ?m2, log) =
      Inr (rd_note tid D_COMPLETED (- 1) ?d, set_backlog ?pp [] ?m2, log @ [completed tid])"
    using assms(1,6,11,12,22) by (intro reply_taken) simp_all
  moreover have "set_backlog ?pp [] ?m2 = m'"
    using assms(9) m' by (simp add: set_backlog_def fun_upd_idem)
  ultimately show ?thesis using sent handled
    by (intro exI [of _ ?d] exI [of _ ?m1] exI [of _ ?m2] exI [of _ "rd_note tid D_COMPLETED (- 1) ?d"]) simp
qed

theorem remote_call_completes_witness:
  "\<exists>d1 m1 m2 d2.
    remote_dispatch record_fn True (replicate 80 (Ready 9)) 7 coord_zero ''add.so'' [linqu_make_input 1]
      (ex_pod, ex_machine, []) = Inr (True, d1, m1, []) \<and>
    handle_one_message ex_os (Interrupted # replicate 80 (Ready 2)) ex_daemon m1 =
      Inr (True, ex_daemon\<lparr>nd_messages_handled := 1\<rparr>, m2) \<and>
    remote_recv_turn record_fn (replicate 40 (Ready 0)) (d1, m2, []) = Inr (d2, ex_machine, [completed 7]) \<and>
    rd_outstanding d2 = 0"
proof -
  let ?n = "ex_daemon\<lparr>nd_messages_handled := 1\<rparr>"
  have n: "nd_transport ex_daemon = ex_host" "nd_base_path ex_daemon = ''/t''" "nd_messages_handled ex_daemon = 0"
    "cc_name_to_path (nd_code_cache ex_daemon) x = None" "cc_loaded (nd_code_cache ex_daemon) x = None" for x
    by (simp_all add: ex_daemon_def daemon_new_def code_cache_new_def Let_def)
  have d: "rd_transport ex_pod = (transport_new ''/t'' coord_zero 4)\<lparr>ut_listening := True\<rparr>"
    "rd_self_coord ex_pod = coord_zero" "rd_self_level ex_pod = 4" "rd_running ex_pod" "\<not> rd_mu ex_pod"
    "rd_outstanding ex_pod = 0"
    by (simp_all add: ex_pod_def start_recv_loop_def remote_new_def)
  have l: "listens (rd_transport ex_pod) ''/t'' coord_zero (3 + 1)" "listens (nd_transport ex_daemon) ''/t'' coord_zero 3"
    using ex_path ex_path4 by (simp_all add: listens_def d n transport_new_def)
  have m: "mc_listeners ex_machine (make_socket_path ''/t'' coord_zero (3 + 1)) = Some []"
    "mc_listeners ex_machine (make_socket_path ''/t'' coord_zero 3) = Some []"
    by (simp_all add: ex_machine_def)
  show ?thesis
    using remote_call_completes [OF l n(2), of ex_machine 7 "''add.so''" "[linqu_make_input 1]" ex_os ?n ex_machine 99 99
        "replicate 80 (Ready 9)" "Interrupted # replicate 80 (Ready 2)" "replicate 40 (Ready 0)" "[]"] d m n
    by (auto simp: ex_os_def code_cache_has_def call_size_def smooth_def WIRE_SIZE_def)
qed

end
