(* ===== verification/Cluster_Control.thy ===== *)
theory Cluster_Control
  imports Node_Daemon
begin

text \<open>
  The command-line tool of src/src/daemon/orchestrator_main.cpp: its arguments, its discovery, the status report and the shutdown of
  the hosts. What the operating system answers to a send is an argument: whether there is a
  descriptor, and one event for each of the two writes.
\<close>

section \<open>Arguments\<close>

text \<open>The command and the base path, or \<open>None\<close> when help was asked for.\<close>

fun parse_args :: "string list \<Rightarrow> string \<times> string \<Rightarrow> (string \<times> string) option" where
  "parse_args [] acc = Some acc"
| "parse_args (a # rest) (command, base) =
     (if a = ''--command'' \<and> rest \<noteq> [] then parse_args (tl rest) (hd rest, base)
      else if a = ''--base'' \<and> rest \<noteq> [] then parse_args (tl rest) (command, hd rest)
      else if a = ''-h'' \<or> a = ''--help'' then None
      else parse_args rest (command, base))"

section \<open>Messages\<close>

definition send_message ::
  "bool \<times> io_event \<times> io_event \<Rightarrow> string \<Rightarrow> msg_type \<Rightarrow> linqu_coordinate \<Rightarrow> linqu_coordinate \<Rightarrow> u8 \<Rightarrow> byte list \<Rightarrow>
   machine \<Rightarrow> bool \<times> machine" where
  "send_message os sock_path ty sender target slevel payload m =
     (case os of (sock_ok, ev1, ev2) \<Rightarrow>
        let hdr = header_make ty slevel sender target (of_nat (length payload));
            path = sun_path sock_path in
        if \<not> sock_ok then (False, m)
        else case mc_listeners m path of
          None \<Rightarrow> (False, m)
        | Some backlog \<Rightarrow>
            let w1 = raw_write ev1 (header_serialize hdr);
                ok = (length w1 = WIRE_SIZE);
                (ok, w2) = (if ok \<and> payload \<noteq> []
                            then let w2 = raw_write ev2 payload in (length w2 = length payload, w2)
                            else (ok, [])) in
            (ok, set_backlog path (backlog @ [w1 @ w2]) m))"

section \<open>Commands\<close>

definition json_line :: "string \<Rightarrow> string \<Rightarrow> string" where
  "json_line name v = ''  '' @ quoted name @ '': '' @ v @ '','' @ [NL]"

definition status_report :: "string \<Rightarrow> string \<Rightarrow> peer_registry \<Rightarrow> string" where
  "status_report command base_path reg =
     (let at = (\<lambda>lv. dec_digits (length (peers_at_level lv reg)));
          l3 = peers_at_level 3 reg;
          alive = length (filter pi_alive l3) in
      ''{'' @ [NL] @
      json_line ''command'' (quoted command) @ json_line ''base_path'' (quoted base_path) @
      json_line ''total_peers'' (dec_digits (registry_count reg)) @ json_line ''l3_hosts'' (at 3) @
      json_line ''l4_pods'' (at 4) @ json_line ''l5_supernodes'' (at 5) @ json_line ''l6_clusters'' (at 6) @
      json_line ''l3_alive'' (dec_digits alive) @
      ''  '' @ quoted ''status'' @ '': '' @ quoted (if alive = length l3 then ''healthy'' else ''degraded'') @ [NL] @
      ''}'' @ [NL])"

text \<open>\<^verbatim>\<open>shutdown\<close>: one message to each live host; the result counts those that were sent.\<close>

primrec shutdown_hosts ::
  "peer_info list \<Rightarrow> (bool \<times> io_event \<times> io_event) list \<Rightarrow> nat \<times> machine \<Rightarrow> nat \<times> machine" where
  "shutdown_hosts [] oss acc = acc"
| "shutdown_hosts (p # ps) oss acc =
     (case acc of (sent, m) \<Rightarrow>
        let (ok, m) = send_message (if oss = [] then (False, Failed, Failed) else hd oss) (pi_socket_path p) SHUTDOWN
              coord_zero (pi_coord p) 6 (shutdown_serialize \<lparr>sp_graceful = 1\<rparr>) m in
        shutdown_hosts ps (tl oss) (if ok then sent + 1 else sent, m))"

datatype cluster_result = Exit int string machine

definition orchestrator_main ::
  "environment \<Rightarrow> string list \<Rightarrow> (string \<Rightarrow> (string \<times> fs_node) list) \<Rightarrow> (bool \<times> io_event \<times> io_event) list \<Rightarrow>
   machine \<Rightarrow> cluster_result" where
  "orchestrator_main env args fs oss m =
     (let base = (case env ''LINQU_BASE'' of None \<Rightarrow> ''/tmp/linqu/linqu_vcluster_1024'' | Some b \<Rightarrow> b) in
      case parse_args args ('''', base) of
        None \<Rightarrow> Exit 0 '''' m
      | Some (command, base) \<Rightarrow>
          if command = '''' then Exit 1 '''' m
          else
            let reg = snd (discover base (fs base) []) in
            if command = ''discover'' \<or> command = ''status'' then Exit 0 (status_report command base reg) m
            else if command = ''shutdown'' then
              Exit 0 '''' (snd (shutdown_hosts (peers_at_level 3 reg) oss (0, m)))
            else Exit 1 '''' m)"

section \<open>What the commands do\<close>

text \<open>
  \<^verbatim>\<open>peers_at_level\<close> returns live peers only, so every host in the report is alive: the status is never
  \<^verbatim>\<open>degraded\<close>, whatever the registry holds.
\<close>

lemma status_always_healthy:
  "\<exists>pre. status_report command base reg =
    pre @ quoted ''status'' @ '': '' @ quoted ''healthy'' @ [NL] @ ''}'' @ [NL]"
proof -
  have "filter pi_alive (peers_at_level 3 reg) = peers_at_level 3 reg"
    by (auto simp: peers_at_level_def intro!: filter_True)
  then show ?thesis unfolding status_report_def Let_def by simp
qed

lemma send_message_whole:
  assumes "mc_listeners m path = Some backlog" "length path < SUN_PATH_SIZE" "23 \<le> k1" "length payload \<le> Suc k2"
  shows "send_message (True, Ready k1, Ready k2) path ty sender target lv payload m =
    (True, set_backlog path (backlog @ [header_serialize (header_make ty lv sender target (of_nat (length payload))) @ payload]) m)"
proof -
  have "sun_path path = path" using assms(2) by (simp add: sun_path_def SUN_PATH_SIZE_def)
  then show ?thesis
    using assms by (simp add: send_message_def Let_def raw_write_def WIRE_SIZE_def)
qed

lemma shutdown_reaches_all:
  assumes "\<forall>p \<in> set ps. mc_listeners m (pi_socket_path p) \<noteq> None \<and> length (pi_socket_path p) < SUN_PATH_SIZE"
    and "length oss = length ps" "\<forall>os \<in> set oss. \<exists>k1 k2. os = (True, Ready k1, Ready k2) \<and> 23 \<le> k1"
  shows "\<exists>m'. shutdown_hosts ps oss (n, m) = (n + length ps, m') \<and>
    (\<forall>path q. mc_listeners m path = Some q \<longrightarrow> (\<exists>q'. mc_listeners m' path = Some q' \<and> length q' =
       length q + length (filter (\<lambda>p. pi_socket_path p = path) ps)))"
  using assms
proof (induction ps arbitrary: oss n m)
  case Nil
  then show ?case by simp
next
  case (Cons p ps)
  from Cons.prems(2,3) obtain k1 k2 oss' where os: "oss = (True, Ready k1, Ready k2) # oss'" "23 \<le> k1"
    by (cases oss) auto
  let ?path = "pi_socket_path p" and ?pay = "shutdown_serialize \<lparr>sp_graceful = 1\<rparr>"
  from Cons.prems(1) obtain q where q: "mc_listeners m ?path = Some q" by auto
  let ?m = "set_backlog ?path (q @ [header_serialize (header_make SHUTDOWN 6 coord_zero (pi_coord p) (of_nat (length ?pay))) @ ?pay]) m"
  have sent: "send_message (True, Ready k1, Ready k2) ?path SHUTDOWN coord_zero (pi_coord p) 6 ?pay m = (True, ?m)"
    using Cons.prems(1) os(2) q by (intro send_message_whole) (simp_all add: shutdown_serialize_def)
  have "\<forall>p' \<in> set ps. mc_listeners ?m (pi_socket_path p') \<noteq> None \<and> length (pi_socket_path p') < SUN_PATH_SIZE"
    using Cons.prems(1) by auto
  then obtain m' where m': "shutdown_hosts ps oss' (n + 1, ?m) = (n + 1 + length ps, m')"
    "\<forall>path q. mc_listeners ?m path = Some q \<longrightarrow> (\<exists>q'. mc_listeners m' path = Some q' \<and> length q' =
       length q + length (filter (\<lambda>p. pi_socket_path p = path) ps))"
    using Cons.IH [of ?m oss' "n + 1"] Cons.prems(2,3) os by auto
  have "\<exists>q'. mc_listeners m' path = Some q' \<and> length q' =
       length r + length (filter (\<lambda>p. pi_socket_path p = path) (p # ps))" if "mc_listeners m path = Some r" for path r
    using m'(2) [rule_format, of path] that q by (cases "path = ?path") auto
  then show ?case using m'(1) sent os by simp
qed

end
