(* ===== verification/Runtime_Ops.thy ===== *)
theory Runtime_Ops
  imports Orchestrator Peer_Discovery
begin

text \<open>
  The interface kernels are written against (src/src/runtime/linqu_orchestration_api.h): the inline wrappers, which call through
  the table of operations, the operations of linqu_orchestrator_state.cpp behind the table, and the
  scope guard. Every operation finds its state with \<^verbatim>\<open>hidden_state\<close>, a variable of the thread which
  \<^verbatim>\<open>init\<close> sets; the runtime pointer it is given is not used.

  A thread is a record: the orchestrator states that live in it, by index, and the variable. A runtime
  pointer is the index of its state. \<^verbatim>\<open>rt->ops\<close> is the same table for every state, so a wrapper and its
  operation are one definition.
\<close>

section \<open>States of a thread\<close>

record rt_thread =
  th_states :: "orch list"
  th_hidden :: "nat option"

definition hidden_state :: "nat \<Rightarrow> rt_thread \<Rightarrow> nat option" where
  "hidden_state rt th = th_hidden th"

text \<open>A new state and its \<^verbatim>\<open>init\<close>; the result is its runtime pointer.\<close>

definition state_init ::
  "level \<Rightarrow> linqu_coordinate \<Rightarrow> orch_config \<Rightarrow> dispatcher \<Rightarrow> bool \<Rightarrow> rt_thread \<Rightarrow> (nat \<times> rt_thread) res" where
  "state_init lv coord cfg disp fn th =
     bindR (orch_init lv coord cfg disp fn) (\<lambda>s.
       let i = length (th_states th) in
       Inr (i, th\<lparr>th_states := th_states th @ [s], th_hidden := Some i\<rparr>))"

text \<open>The call of a method on the state an operation finds.\<close>

definition op_on :: "(orch \<Rightarrow> ('r \<times> orch) res) \<Rightarrow> nat \<Rightarrow> rt_thread \<Rightarrow> ('r \<times> rt_thread) res" where
  "op_on f rt th =
     (case hidden_state rt th of
        None \<Rightarrow> Inl NullDeref
      | Some i \<Rightarrow> bindR (f (th_states th ! i)) (\<lambda>(r, s). Inr (r, th\<lparr>th_states := (th_states th)[i := s]\<rparr>)))"

definition no_result :: "orch res \<Rightarrow> (unit \<times> orch) res" where
  "no_result r = bindR r (\<lambda>s. Inr ((), s))"

section \<open>Operations\<close>

definition linqu_submit_task ::
  "i32 list list \<Rightarrow> linqu_coordinate \<Rightarrow> string option \<Rightarrow> linqu_param list \<Rightarrow> nat \<Rightarrow> rt_thread \<Rightarrow> (unit \<times> rt_thread) res" where
  "linqu_submit_task arrivals target kernel_so params =
     op_on (\<lambda>s. no_result (submit_task arrivals target kernel_so params s))"

definition linqu_scope_begin :: "nat \<Rightarrow> rt_thread \<Rightarrow> (unit \<times> rt_thread) res" where
  "linqu_scope_begin = op_on (\<lambda>s. no_result (scope_begin s))"

definition linqu_scope_end :: "nat \<Rightarrow> rt_thread \<Rightarrow> (unit \<times> rt_thread) res" where
  "linqu_scope_end = op_on (\<lambda>s. no_result (scope_end s))"

definition linqu_alloc_tensor ::
  "i32 list list \<Rightarrow> linqu_coordinate \<Rightarrow> u64 \<Rightarrow> nat \<Rightarrow> rt_thread \<Rightarrow> (u64 \<times> rt_thread) res" where
  "linqu_alloc_tensor arrivals target size_bytes = op_on (alloc_tensor arrivals target size_bytes)"

definition linqu_free_tensor :: "u64 \<Rightarrow> nat \<Rightarrow> rt_thread \<Rightarrow> (unit \<times> rt_thread) res" where
  "linqu_free_tensor h = op_on (\<lambda>s. Inr ((), free_tensor h s))"

definition linqu_orchestration_done :: "nat \<Rightarrow> rt_thread \<Rightarrow> (unit \<times> rt_thread) res" where
  "linqu_orchestration_done = op_on (\<lambda>s. Inr ((), orchestration_done s))"

text \<open>\<^verbatim>\<open>op_reg_data\<close> does not look for a state.\<close>

definition linqu_reg_data :: "linqu_coordinate \<Rightarrow> u64 \<Rightarrow> nat \<Rightarrow> rt_thread \<Rightarrow> (u64 \<times> rt_thread) res" where
  "linqu_reg_data target n rt th = Inr (op_reg_data target n, th)"

definition linqu_self_coord :: "nat \<Rightarrow> rt_thread \<Rightarrow> (linqu_coordinate \<times> rt_thread) res" where
  "linqu_self_coord = op_on (\<lambda>s. Inr (orch_self_coord s, s))"

definition op_dump_snap :: "u64 \<Rightarrow> string option \<Rightarrow> orch \<Rightarrow> orch" where
  "op_dump_snap now label s = take_snapshot now (case label of None \<Rightarrow> ''snapshot'' | Some l \<Rightarrow> l) s"

definition linqu_dump_ring_snapshot :: "u64 \<Rightarrow> string option \<Rightarrow> nat \<Rightarrow> rt_thread \<Rightarrow> (unit \<times> rt_thread) res" where
  "linqu_dump_ring_snapshot now label = op_on (\<lambda>s. Inr ((), op_dump_snap now label s))"

definition linqu_submit_task_group ::
  "i32 list list \<Rightarrow> string option \<Rightarrow> linqu_param list \<Rightarrow> sub_task_spec list \<Rightarrow> nat \<Rightarrow> rt_thread \<Rightarrow> (unit \<times> rt_thread) res" where
  "linqu_submit_task_group arrivals kernel_so group_params subs =
     op_on (\<lambda>s. no_result (submit_task_group arrivals kernel_so group_params subs s))"

text \<open>\<^verbatim>\<open>LINQU_SCOPE\<close>: the guard's constructor, the block, the guard's destructor.\<close>

definition linqu_scope :: "(rt_thread \<Rightarrow> rt_thread res) \<Rightarrow> nat \<Rightarrow> rt_thread \<Rightarrow> rt_thread res" where
  "linqu_scope body rt th =
     bindR (linqu_scope_begin rt th) (\<lambda>(_, th). bindR (body th) (\<lambda>th.
     bindR (linqu_scope_end rt th) (\<lambda>(_, th). Inr th)))"

section \<open>Programs over the interface\<close>

datatype api_call =
    A_Submit linqu_coordinate "string option" "linqu_param list"
  | A_Group "string option" "linqu_param list" "sub_task_spec list"
  | A_Begin | A_End | A_Alloc linqu_coordinate u64 | A_Free u64 | A_Done | A_Snap u64 "string option"

text \<open>A call through the interface with a runtime pointer, and the method it is meant to call.\<close>

fun api_exec :: "nat \<times> api_call \<Rightarrow> rt_thread \<Rightarrow> rt_thread res" where
  "api_exec (rt, A_Submit target k params) th = bindR (linqu_submit_task [] target k params rt th) (\<lambda>(_, th). Inr th)"
| "api_exec (rt, A_Group k params subs) th = bindR (linqu_submit_task_group [] k params subs rt th) (\<lambda>(_, th). Inr th)"
| "api_exec (rt, A_Begin) th = bindR (linqu_scope_begin rt th) (\<lambda>(_, th). Inr th)"
| "api_exec (rt, A_End) th = bindR (linqu_scope_end rt th) (\<lambda>(_, th). Inr th)"
| "api_exec (rt, A_Alloc target n) th = bindR (linqu_alloc_tensor [] target n rt th) (\<lambda>(_, th). Inr th)"
| "api_exec (rt, A_Free h) th = bindR (linqu_free_tensor h rt th) (\<lambda>(_, th). Inr th)"
| "api_exec (rt, A_Done) th = bindR (linqu_orchestration_done rt th) (\<lambda>(_, th). Inr th)"
| "api_exec (rt, A_Snap now l) th = bindR (linqu_dump_ring_snapshot now l rt th) (\<lambda>(_, th). Inr th)"

fun direct_exec :: "api_call \<Rightarrow> orch \<Rightarrow> orch res" where
  "direct_exec (A_Submit target k params) s = submit_task [] target k params s"
| "direct_exec (A_Group k params subs) s = submit_task_group [] k params subs s"
| "direct_exec A_Begin s = scope_begin s"
| "direct_exec A_End s = scope_end s"
| "direct_exec (A_Alloc target n) s = bindR (alloc_tensor [] target n s) (\<lambda>(h, s). Inr s)"
| "direct_exec (A_Free h) s = Inr (free_tensor h s)"
| "direct_exec A_Done s = Inr (orchestration_done s)"
| "direct_exec (A_Snap now l) s = Inr (op_dump_snap now l s)"

lemmas op_defs = linqu_submit_task_def linqu_submit_task_group_def linqu_scope_begin_def linqu_scope_end_def
  linqu_alloc_tensor_def linqu_free_tensor_def linqu_orchestration_done_def linqu_dump_ring_snapshot_def

lemma bindR_assoc: "bindR (bindR r f) g = bindR r (\<lambda>x. bindR (f x) g)"
  by (cases r) simp_all

lemma api_exec_hidden:
  assumes "th_hidden th = Some i"
  shows "api_exec (rt, c) th =
    bindR (direct_exec c (th_states th ! i)) (\<lambda>s. Inr (th\<lparr>th_states := (th_states th)[i := s]\<rparr>))"
  using assms
  by (cases c) (simp_all add: op_defs op_on_def hidden_state_def no_result_def bindR_assoc case_prod_unfold)

lemma api_run_hidden:
  assumes "th_hidden th = Some i" "i < length (th_states th)"
  shows "foldR api_exec calls th =
    bindR (foldR direct_exec (map snd calls) (th_states th ! i)) (\<lambda>s. Inr (th\<lparr>th_states := (th_states th)[i := s]\<rparr>))"
  using assms
proof (induction calls arbitrary: th)
  case Nil
  then show ?case by simp
next
  case (Cons c calls)
  obtain rt a where c: "c = (rt, a)" by (cases c)
  show ?case
    using Cons.prems by (cases "direct_exec a (th_states th ! i)") (simp_all add: c api_exec_hidden Cons.IH)
qed

section \<open>Property\<close>


definition ex_pod_coord :: linqu_coordinate where
  "ex_pod_coord = LinquCoordinate 0 0 1 0 0 0 0"

definition ex_host_coord :: linqu_coordinate where
  "ex_host_coord = LinquCoordinate 0 0 1 7 0 0 0"

lemma default_init: "\<exists>s. orch_init lv coord orch_config_default NoDispatcher False = Inr s \<and> o_free_tensor_count s = 0"
  by (simp add: orch_init_def orch_config_default_def task_ring_init_def dep_init_def tm_init_def)


end
