(* ===== verification/Kernels.thy ===== *)
theory Kernels
  imports Node_Daemon
begin

text \<open>
  The example kernels (src/examples): shared objects a daemon loads and runs. Every kernel exports
  \<^verbatim>\<open>linqu_orch_config\<close> and \<^verbatim>\<open>linqu_orch_entry\<close>; the entry drives the orchestrator through the table of operations and,
  at level 3, writes a result file. An entry is a function of the type \<open>orch_entry\<close> of \<open>Node_Daemon\<close>: arguments, the peers the daemon
  knows, the orchestrator and the machine. What it asks of the operating system is a record
  \<open>kernel_os\<close>. Log output is not modelled.
\<close>

section \<open>What kernels share\<close>

record kernel_config =
  kc_level :: u8
  kc_expected_arg_count :: int
  kc_role :: u8

text \<open>\<^verbatim>\<open>{lv, 0}\<close>: the members that are not named are zero.\<close>

definition orchestrator_config :: "u8 \<Rightarrow> kernel_config" where
  "orchestrator_config lv = \<lparr>kc_level = lv, kc_expected_arg_count = 0, kc_role = 0\<rparr>"

text \<open>
  The environment, the process id, whether a file can be opened for writing, the completions that
  arrive while the \<open>i\<close>-th submission sleeps, and those that arrive during \<^verbatim>\<open>wait_all\<close>.
\<close>

record kernel_os =
  ko_env :: environment
  ko_pid :: nat
  ko_fopen :: "string \<Rightarrow> bool"
  ko_arrivals :: "nat \<Rightarrow> i32 list list"
  ko_waits :: "i32 list"

definition getenv_or :: "kernel_os \<Rightarrow> string \<Rightarrow> string \<Rightarrow> string" where
  "getenv_or os name dflt = (case ko_env os name of None \<Rightarrow> dflt | Some v \<Rightarrow> v)"

text \<open>\<^verbatim>\<open>snprintf\<close> into a buffer of \<open>n\<close> bytes keeps what fits before the terminator.\<close>

definition snprintf_buf :: "nat \<Rightarrow> string \<Rightarrow> string" where
  "snprintf_buf n s = take (n - 1) s"

text \<open>
  The loop that makes the directories: it starts at the second character and calls \<^verbatim>\<open>mkdir\<close> on what precedes
  each slash, then on the whole. The path is not empty, it ends in the name of a node.
\<close>

primrec slash_prefixes :: "string \<Rightarrow> string \<Rightarrow> string list" where
  "slash_prefixes cur [] = [cur]"
| "slash_prefixes cur (c # cs) = (if c = CHR ''/'' then [cur] else []) @ slash_prefixes (cur @ [c]) cs"

definition make_dirs :: "string \<Rightarrow> machine \<Rightarrow> machine" where
  "make_dirs dir m = m\<lparr>mc_dirs := mc_dirs m @ slash_prefixes (take 1 dir) (drop 1 dir)\<rparr>"

definition fwrite_new :: "kernel_os \<Rightarrow> string \<Rightarrow> string \<Rightarrow> machine \<Rightarrow> machine" where
  "fwrite_new os path content m =
     (if ko_fopen os path then m\<lparr>mc_files := (mc_files m)(path \<mapsto> map byte_of_char content)\<rparr> else m)"

text \<open>One \<^verbatim>\<open>fprintf\<close> line of a result, and the line that has no comma.\<close>

definition result_line :: "string \<Rightarrow> string \<Rightarrow> string" where
  "result_line key v = ''  '' @ quoted key @ '': '' @ v @ '','' @ [NL]"

definition result_last :: "string \<Rightarrow> string \<Rightarrow> string" where
  "result_last key v = ''  '' @ quoted key @ '': '' @ v @ [NL]"

text \<open>\<^verbatim>\<open>%d\<close> of an \<^verbatim>\<open>int\<close>.\<close>

definition print_int :: "int \<Rightarrow> string" where
  "print_int v = (if v < 0 then ''-'' else '''') @ dec_digits (nat \<bar>v\<bar>)"

section \<open>Dispatch kernels\<close>

text \<open>
  The body that topo_L4_pod.cpp, topo_L5_clos1.cpp, topo_L6_clos2.cpp, dag_L4_dispatch.cpp to dag_L6_dispatch.cpp, ring_L4_stress.cpp and
  ring_L5_stress.cpp share: one task for each peer of the level below, in one scope, then wait.
  \<open>disc\<close> is the discovery of the orchestrator, with the tree it walks; a daemon has none.
\<close>

definition kernel_wait_all :: "kernel_os \<Rightarrow> orch \<Rightarrow> orch res" where
  "kernel_wait_all os s = (if o_dispatcher s = AsyncDispatcher then deliver (ko_waits os) s else Inr s)"

definition dispatch_to :: "kernel_os \<Rightarrow> string \<Rightarrow> nat \<times> linqu_coordinate \<Rightarrow> orch \<Rightarrow> orch res" where
  "dispatch_to os so = (\<lambda>(i, peer). submit_task (ko_arrivals os i) peer (Some so) [])"

definition dispatch_entry ::
  "kernel_os \<Rightarrow> (string \<times> (string \<times> fs_node) list) option \<Rightarrow> u8 \<Rightarrow> string \<Rightarrow> orch_entry" where
  "dispatch_entry os disc lv so args reg = (\<lambda>(s, m).
     let peers = fst (query_peers (Some reg) disc lv) in
     bindR (scope_begin s) (\<lambda>s.
     bindR (foldR (dispatch_to os so) (enumerate 0 peers) s) (\<lambda>s.
     bindR (scope_end s) (\<lambda>s.
     bindR (kernel_wait_all os s) (\<lambda>s.
       Inr (orchestration_done s, m))))))"

definition topo_L4_config :: kernel_config where
  "topo_L4_config = orchestrator_config 4"

definition topo_L4_entry :: "kernel_os \<Rightarrow> orch_entry" where
  "topo_L4_entry os = dispatch_entry os None 3 ''topo_L3_host.so''"

definition topo_L5_config :: kernel_config where
  "topo_L5_config = orchestrator_config 5"

definition topo_L5_entry :: "kernel_os \<Rightarrow> orch_entry" where
  "topo_L5_entry os = dispatch_entry os None 4 ''topo_L4_pod.so''"

definition topo_L6_config :: kernel_config where
  "topo_L6_config = orchestrator_config 6"

definition topo_L6_entry :: "kernel_os \<Rightarrow> orch_entry" where
  "topo_L6_entry os = dispatch_entry os None 5 ''topo_L5_clos1.so''"

definition dag_L4_config :: kernel_config where
  "dag_L4_config = orchestrator_config 4"

definition dag_L4_entry :: "kernel_os \<Rightarrow> orch_entry" where
  "dag_L4_entry os = dispatch_entry os None 3 ''dag_L3_compute.so''"

definition dag_L5_config :: kernel_config where
  "dag_L5_config = orchestrator_config 5"

definition dag_L5_entry :: "kernel_os \<Rightarrow> orch_entry" where
  "dag_L5_entry os = dispatch_entry os None 4 ''dag_L4_dispatch.so''"

definition dag_L6_config :: kernel_config where
  "dag_L6_config = orchestrator_config 6"

definition dag_L6_entry :: "kernel_os \<Rightarrow> orch_entry" where
  "dag_L6_entry os = dispatch_entry os None 5 ''dag_L5_dispatch.so''"

definition ring_L4_config :: kernel_config where
  "ring_L4_config = orchestrator_config 4"

definition ring_L4_entry :: "kernel_os \<Rightarrow> orch_entry" where
  "ring_L4_entry os = dispatch_entry os None 3 ''ring_L3_stress.so''"

definition ring_L5_config :: kernel_config where
  "ring_L5_config = orchestrator_config 5"

definition ring_L5_entry :: "kernel_os \<Rightarrow> orch_entry" where
  "ring_L5_entry os = dispatch_entry os None 4 ''ring_L4_stress.so''"

section \<open>Topology kernel\<close>

text \<open>src/examples/topology_test/kernels/topo_L3_host.cpp.\<close>

definition coord_int :: "'a::len word \<Rightarrow> int" where
  "coord_int w = int (unat w)"

definition topo_L3_config :: kernel_config where
  "topo_L3_config = orchestrator_config 3"

definition topo_global_idx :: "linqu_coordinate \<Rightarrow> int" where
  "topo_global_idx c = coord_int (l5_idx c) * 64 + coord_int (l4_idx c) * 16 + coord_int (l3_idx c)"

definition topo_dir :: "string \<Rightarrow> linqu_coordinate \<Rightarrow> string" where
  "topo_dir base c = snprintf_buf 512
     (base @ ''/L6_'' @ to_string_u (l6_idx c) @ ''/L5_'' @ to_string_u (l5_idx c) @
      ''/L4_'' @ to_string_u (l4_idx c) @ ''/L3_'' @ to_string_u (l3_idx c))"

definition topo_identity :: "nat \<Rightarrow> linqu_coordinate \<Rightarrow> string" where
  "topo_identity pid c =
     ''{'' @ [NL] @ result_line ''pid'' (dec_digits pid) @
     result_line ''coordinate'' (''{'' @ quoted ''l6'' @ '': '' @ to_string_u (l6_idx c) @ '', '' @
       quoted ''l5'' @ '': '' @ to_string_u (l5_idx c) @ '', '' @ quoted ''l4'' @ '': '' @ to_string_u (l4_idx c) @ '', '' @
       quoted ''l3'' @ '': '' @ to_string_u (l3_idx c) @ ''}'') @
     result_last ''global_index'' (print_int (topo_global_idx c)) @ ''}'' @ [NL]"

definition topo_L3_entry :: "kernel_os \<Rightarrow> orch_entry" where
  "topo_L3_entry os args reg = (\<lambda>(s, m).
     let self = orch_self_coord s;
         dir = topo_dir (getenv_or os ''LINQU_TOPO_OUTPUT'' ''/tmp/linqu_topo_output'') self;
         m = make_dirs dir m;
         path = snprintf_buf 512 (dir @ ''/identity.json'') in
     Inr (orchestration_done s, fwrite_new os path (topo_identity (ko_pid os) self) m))"

section \<open>Tensor kernel\<close>

text \<open>
  src/examples/tensor_dag_test/kernels/dag_L3_compute.cpp. All its floating-point values are integers,
  so a \<^verbatim>\<open>float\<close> is an integer, and an operation rounds the exact result to 24 significant bits, to nearest with
  ties to even. The largest exponent is not reached.
\<close>

fun fl_shift :: "nat \<Rightarrow> nat" where
  "fl_shift a = (if a < 2 ^ 24 then 0 else Suc (fl_shift (a div 2)))"

declare fl_shift.simps [simp del]

definition fl_nat :: "nat \<Rightarrow> nat" where
  "fl_nat a =
     (let k = fl_shift a; q = a div 2 ^ k; r = a mod 2 ^ k in
      if 2 ^ k < 2 * r \<or> (2 ^ k = 2 * r \<and> odd q) then (q + 1) * 2 ^ k else q * 2 ^ k)"

definition fl32 :: "int \<Rightarrow> int" where
  "fl32 x = sgn x * int (fl_nat (nat \<bar>x\<bar>))"

definition fadd :: "int \<Rightarrow> int \<Rightarrow> int" where
  "fadd x y = fl32 (x + y)"

definition fsub :: "int \<Rightarrow> int \<Rightarrow> int" where
  "fsub x y = fl32 (x - y)"

definition fmul :: "int \<Rightarrow> int \<Rightarrow> int" where
  "fmul x y = fl32 (x * y)"

text \<open>\<^verbatim>\<open>fabsf(x) > 0.001f\<close>; the literal is \<^verbatim>\<open>8589935 * 2^-33\<close>.\<close>

definition off_by_more :: "int \<Rightarrow> bool" where
  "off_by_more x \<longleftrightarrow> 8589935 < \<bar>x\<bar> * 2 ^ 33"

definition DAG_N :: nat where
  "DAG_N = 64"

text \<open>The arrays \<^verbatim>\<open>a\<close>, \<^verbatim>\<open>b\<close>, \<^verbatim>\<open>c\<close>, \<^verbatim>\<open>d\<close>, \<^verbatim>\<open>e\<close>, \<^verbatim>\<open>g\<close> and \<^verbatim>\<open>f\<close>.\<close>

definition dag_a :: "int list" where
  "dag_a = map (\<lambda>i. fl32 (int i)) [0..<DAG_N]"

definition dag_b :: "int list" where
  "dag_b = map (\<lambda>i. fl32 (int i * 2)) [0..<DAG_N]"

definition dag_c :: "int list" where
  "dag_c = map2 fadd dag_a dag_b"

definition dag_d :: "int list" where
  "dag_d = map (\<lambda>x. fadd x 1) dag_c"

definition dag_e :: "int list" where
  "dag_e = map (\<lambda>x. fadd x 2) dag_c"

definition dag_g :: "int list" where
  "dag_g = map2 fmul dag_d dag_e"

definition dag_f :: "int list" where
  "dag_f = map2 fadd dag_g dag_c"

definition dag_expected :: "nat \<Rightarrow> int" where
  "dag_expected i =
     fadd (fadd (fmul (fmul 9 (fl32 (int i))) (fl32 (int i))) (fmul 12 (fl32 (int i)))) 2"

definition dag_errors :: "int list \<Rightarrow> nat" where
  "dag_errors f = length (filter (\<lambda>i. off_by_more (fsub (f ! i) (dag_expected i))) [0..<DAG_N])"

text \<open>\<^verbatim>\<open>%.6f\<close> of a value that is an integer.\<close>

definition print_f6 :: "int \<Rightarrow> string" where
  "print_f6 v = print_int v @ ''.000000''"

definition dag_result :: "nat \<Rightarrow> linqu_coordinate \<Rightarrow> string" where
  "dag_result pid c =
     ''{'' @ [NL] @ result_line ''pid'' (dec_digits pid) @ result_line ''l3_idx'' (to_string_u (l3_idx c)) @
     result_line ''N'' (dec_digits DAG_N) @ result_line ''errors'' (dec_digits (dag_errors dag_f)) @
     result_line ''tensors_allocated'' ''5'' @ result_line ''tensors_freed'' ''4'' @
     result_line ''f_0'' (print_f6 (dag_f ! 0)) @ result_line ''f_1'' (print_f6 (dag_f ! 1)) @
     result_last ''f_63'' (print_f6 (dag_f ! (DAG_N - 1))) @ ''}'' @ [NL]"

text \<open>The directory of a host's result, in this kernel and in the ring kernel.\<close>

definition host_dir :: "string \<Rightarrow> linqu_coordinate \<Rightarrow> string" where
  "host_dir base c = snprintf_buf 256 (base @ ''/L3_'' @ to_string_u (l3_idx c))"

text \<open>The calls on the orchestrator, scopes and tensors.\<close>

definition dag_ops :: "orch \<Rightarrow> orch res" where
  "dag_ops s =
     (let here = orch_self_coord s; sz = of_nat (DAG_N * 4) in
      bindR (scope_begin s) (\<lambda>s.
      bindR (alloc_tensor [] here sz s) (\<lambda>(h_c, s).
      bindR (scope_begin s) (\<lambda>s.
      bindR (alloc_tensor [] here sz s) (\<lambda>(h_d, s).
      bindR (alloc_tensor [] here sz s) (\<lambda>(h_e, s).
      bindR (alloc_tensor [] here sz s) (\<lambda>(h_g, s).
      bindR (alloc_tensor [] here sz s) (\<lambda>(h_f, s).
      let s = free_tensor h_g (free_tensor h_e (free_tensor h_d s)) in
      bindR (scope_end s) (\<lambda>s.
      let s = free_tensor h_c s in
      scope_end s)))))))))"

definition dag_L3_config :: kernel_config where
  "dag_L3_config = orchestrator_config 3"

definition dag_L3_entry :: "kernel_os \<Rightarrow> orch_entry" where
  "dag_L3_entry os args reg = (\<lambda>(s, m).
     let self = orch_self_coord s in
     bindR (dag_ops s) (\<lambda>s.
     let dir = host_dir (getenv_or os ''LINQU_DAG_OUTPUT'' ''/tmp/linqu_dag_output'') self;
         m = make_dirs dir m;
         path = snprintf_buf 256 (dir @ ''/result.json'') in
     Inr (orchestration_done s, fwrite_new os path (dag_result (ko_pid os) self) m)))"

section \<open>Ring kernel\<close>

text \<open>src/examples/ring_stress_test/kernels/ring_L3_stress.cpp. The counters are a record.\<close>

record ring_counts =
  rk_total_allocs :: nat
  rk_total_frees :: nat
  rk_scope_enters :: nat
  rk_scope_exits :: nat

definition RING_ITERATIONS :: nat where
  "RING_ITERATIONS = 10"

definition TENSORS_PER_SCOPE :: nat where
  "TENSORS_PER_SCOPE = 4"

definition RING_MAX_DEPTH :: nat where
  "RING_MAX_DEPTH = 3"

definition ring_tensor_size :: "nat \<Rightarrow> nat \<Rightarrow> nat \<Rightarrow> u64" where
  "ring_tensor_size iter d t = of_nat (((iter * RING_MAX_DEPTH + d) * TENSORS_PER_SCOPE + t + 1) * 64)"

text \<open>The innermost loops: the allocations, with the handles they return, and the early frees.\<close>

definition ring_alloc ::
  "linqu_coordinate \<Rightarrow> nat \<Rightarrow> nat \<Rightarrow> nat \<Rightarrow> u64 list \<times> ring_counts \<times> orch \<Rightarrow> (u64 list \<times> ring_counts \<times> orch) res" where
  "ring_alloc here iter d t = (\<lambda>(handles, n, s).
     bindR (alloc_tensor [] here (ring_tensor_size iter d t) s) (\<lambda>(h, s).
       Inr (handles @ [h], n\<lparr>rk_total_allocs := rk_total_allocs n + 1\<rparr>, s)))"

definition ring_free :: "u64 \<Rightarrow> ring_counts \<times> orch \<Rightarrow> ring_counts \<times> orch" where
  "ring_free h = (\<lambda>(n, s). (n\<lparr>rk_total_frees := rk_total_frees n + 1\<rparr>, free_tensor h s))"

definition ring_depth :: "linqu_coordinate \<Rightarrow> nat \<Rightarrow> nat \<Rightarrow> ring_counts \<times> orch \<Rightarrow> (ring_counts \<times> orch) res" where
  "ring_depth here iter d = (\<lambda>(n, s).
     bindR (scope_begin s) (\<lambda>s.
     let n = n\<lparr>rk_scope_enters := rk_scope_enters n + 1\<rparr> in
     bindR (foldR (ring_alloc here iter d) [0..<TENSORS_PER_SCOPE] ([], n, s)) (\<lambda>(handles, n, s).
     let (n, s) = fold ring_free (take (TENSORS_PER_SCOPE div 2) handles) (n, s) in
     bindR (scope_end s) (\<lambda>s.
       Inr (n\<lparr>rk_scope_exits := rk_scope_exits n + 1\<rparr>, s)))))"

definition ring_iter :: "linqu_coordinate \<Rightarrow> nat \<Rightarrow> ring_counts \<times> orch \<Rightarrow> (ring_counts \<times> orch) res" where
  "ring_iter here iter = (\<lambda>(n, s).
     bindR (scope_begin s) (\<lambda>s.
     let n = n\<lparr>rk_scope_enters := rk_scope_enters n + 1\<rparr> in
     bindR (foldR (ring_depth here iter) [0..<RING_MAX_DEPTH] (n, s)) (\<lambda>(n, s).
     bindR (scope_end s) (\<lambda>s.
       Inr (n\<lparr>rk_scope_exits := rk_scope_exits n + 1\<rparr>, s)))))"

definition ring_result :: "nat \<Rightarrow> linqu_coordinate \<Rightarrow> ring_counts \<Rightarrow> string" where
  "ring_result pid c n =
     ''{'' @ [NL] @ result_line ''pid'' (dec_digits pid) @ result_line ''l3_idx'' (to_string_u (l3_idx c)) @
     result_line ''iterations'' (dec_digits RING_ITERATIONS) @ result_line ''max_depth'' (dec_digits RING_MAX_DEPTH) @
     result_line ''total_allocs'' (dec_digits (rk_total_allocs n)) @ result_line ''total_frees'' (dec_digits (rk_total_frees n)) @
     result_line ''scope_enters'' (dec_digits (rk_scope_enters n)) @ result_line ''scope_exits'' (dec_digits (rk_scope_exits n)) @
     result_last ''balanced'' (if rk_scope_enters n = rk_scope_exits n then ''true'' else ''false'') @ ''}'' @ [NL]"

definition ring_L3_config :: kernel_config where
  "ring_L3_config = orchestrator_config 3"

definition ring_L3_entry :: "kernel_os \<Rightarrow> orch_entry" where
  "ring_L3_entry os args reg = (\<lambda>(s, m).
     let self = orch_self_coord s;
         n = \<lparr>rk_total_allocs = 0, rk_total_frees = 0, rk_scope_enters = 0, rk_scope_exits = 0\<rparr> in
     bindR (foldR (ring_iter self) [0..<RING_ITERATIONS] (n, s)) (\<lambda>(n, s).
     let dir = host_dir (getenv_or os ''LINQU_RING_OUTPUT'' ''/tmp/linqu_ring_output'') self;
         m = make_dirs dir m;
         path = snprintf_buf 256 (dir @ ''/ring_result.json'') in
     Inr (orchestration_done s, fwrite_new os path (ring_result (ko_pid os) self n) m)))"

section \<open>File system kernel\<close>

text \<open>
  src/examples/dfs_sum_test/kernels/dfs_L3_reader.cpp. \<^verbatim>\<open>fscanf\<close> with \<^verbatim>\<open>%d\<close>: white space, a sign, digits; the value as the C library
  computes it. \<open>None\<close> when there is no number.
\<close>

definition scan_int :: "string \<Rightarrow> (i32 \<times> string) option" where
  "scan_int s =
     (let (neg, s) = read_sign (dropWhile is_space s);
          (ds, rest) = take_digits s;
          v = int (dec_value ds);
          v = (if neg then max (- v) (- (2 ^ 63)) else min v (2 ^ 63 - 1)) in
      if ds = [] then None else Some (sint (word_of_int v :: u32), rest))"

lemma scan_int_shorter: "scan_int s = Some (v, rest) \<Longrightarrow> length rest < length s"
proof -
  have sp: "length (dropWhile is_space s) \<le> length s" by (simp add: length_dropWhile_le)
  have sg: "length (snd (read_sign u)) \<le> length u" for u by (auto simp: read_sign_def split: list.split)
  have dg: "length (dropWhile is_digit u) < length u" if "takeWhile is_digit u \<noteq> []" for u
  proof -
    have "length u = length (takeWhile is_digit u) + length (dropWhile is_digit u)"
      by (metis length_append takeWhile_dropWhile_id)
    with that show ?thesis by simp
  qed
  assume "scan_int s = Some (v, rest)"
  then obtain neg u where "read_sign (dropWhile is_space s) = (neg, u)" "takeWhile is_digit u \<noteq> []" "rest = dropWhile is_digit u"
    by (auto simp: scan_int_def take_digits_def Let_def split: prod.splits if_splits)
  with sp sg [of "dropWhile is_space s"] dg [of u] show "length rest < length s" by simp
qed

text \<open>The loop: the numbers in the order they are read.\<close>

function scan_ints :: "string \<Rightarrow> i32 list" where
  "scan_ints s = (case scan_int s of None \<Rightarrow> [] | Some (v, rest) \<Rightarrow> v # scan_ints rest)"
  by pat_completeness auto
termination by (relation "measure length") (auto dest: scan_int_shorter)

declare scan_ints.simps [simp del]

definition dfs_global_l3 :: "linqu_coordinate \<Rightarrow> int" where
  "dfs_global_l3 c =
     coord_int (l6_idx c) * 1024 + coord_int (l5_idx c) * 64 + coord_int (l4_idx c) * 16 + coord_int (l3_idx c)"

definition dfs_data_path :: "string \<Rightarrow> linqu_coordinate \<Rightarrow> string" where
  "dfs_data_path base c = snprintf_buf 512 (base @ ''/L3_'' @ print_int (dfs_global_l3 c) @ ''/data.txt'')"

text \<open>\<^verbatim>\<open>local_sum\<close> and \<^verbatim>\<open>count\<close>; a file that cannot be opened counts as empty.\<close>

definition dfs_read :: "string \<Rightarrow> machine \<Rightarrow> u64 \<times> nat" where
  "dfs_read path m =
     (case mc_files m path of
        None \<Rightarrow> (0, 0)
      | Some bytes \<Rightarrow>
          fold (\<lambda>v (sum, cnt). (sum + word_of_int v, cnt + 1)) (scan_ints (map char_of_byte bytes)) (0, 0))"

definition dfs_result :: "linqu_coordinate \<Rightarrow> nat \<Rightarrow> u64 \<Rightarrow> string" where
  "dfs_result c cnt local_sum =
     ''{'' @ [NL] @ result_line ''global_l3'' (print_int (dfs_global_l3 c)) @
     result_line ''l3_idx'' (to_string_u (l3_idx c)) @ result_line ''l4_idx'' (to_string_u (l4_idx c)) @
     result_line ''l5_idx'' (to_string_u (l5_idx c)) @ result_line ''count'' (dec_digits cnt) @
     result_last ''local_sum'' (to_string_u local_sum) @ ''}'' @ [NL]"

definition dfs_out_dir :: "string \<Rightarrow> linqu_coordinate \<Rightarrow> string" where
  "dfs_out_dir base c = snprintf_buf 512 (base @ ''/L3_'' @ print_int (dfs_global_l3 c))"

definition dfs_L3_config :: kernel_config where
  "dfs_L3_config = \<lparr>kc_level = 3, kc_expected_arg_count = 0, kc_role = 1\<rparr>"

definition dfs_L3_entry :: "kernel_os \<Rightarrow> orch_entry" where
  "dfs_L3_entry os args reg = (\<lambda>(s, m).
     let self = orch_self_coord s;
         (local_sum, cnt) = dfs_read (dfs_data_path (getenv_or os ''LINQU_DFS_BASE'' ''/tmp/lingqu_dfs'') self) m;
         out_dir = dfs_out_dir (getenv_or os ''LINQU_DFS_OUTPUT'' ''/tmp/lingqu_dfs_output'') self;
         m = make_dirs out_dir m;
         out_path = snprintf_buf 512 (out_dir @ ''/sum.json'') in
     Inr (orchestration_done s, fwrite_new os out_path (dfs_result self cnt local_sum) m))"

end
