(* ===== verification/Kernel_Dispatch.thy ===== *)
theory Kernel_Dispatch
  imports Kernels Orch_Lifecycle Remote_Call
begin

text \<open>
  What the dispatch kernels do: on an orchestrator that knows peers, and inside a daemon. The tasks of these kernels have
  no parameters, so no task has an edge; \<open>flat\<close> is the state inside their scope.
\<close>

section \<open>Tasks without edges\<close>

definition edgeless :: "task_desc \<Rightarrow> bool" where
  "edgeless d \<longleftrightarrow> td_dep_list_head d \<le> 0 \<and> td_fanout_list_head d \<le> 0"

lemma dep_for_each_nonpos [simp]: "h \<le> 0 \<Longrightarrow> dep_for_each p f h s = Inr s"
  by (simp add: dep_for_each_def dep_walk.simps)

lemma propagate_edgeless:
  assumes "edgeless (o_get s t)"
  shows "propagate_completion t s = Inr (check_task_consumed t s)"
  using assms by (simp add: propagate_completion_def o_fuel_def check_consumers_ready_with_def edgeless_def)

text \<open>The descriptors of the live tasks inside the scope: \<open>k\<close> references were given back, one is held by the scope.\<close>

definition held :: "task_desc \<Rightarrow> bool" where
  "held d \<longleftrightarrow> edgeless d \<and> td_fanout_count d = 1 \<and> td_fanout_refcount d = 0 \<and> \<not> td_task_freed d \<and>
     (td_status d = RUNNING \<or> td_status d = COMPLETED)"

definition unborn :: "task_desc \<Rightarrow> bool" where
  "unborn d \<longleftrightarrow> td_status d = PENDING \<and> edgeless d"

definition flat :: "orch \<Rightarrow> bool" where
  "flat s \<longleftrightarrow> ring_wf (o_task_ring s) \<and> tr_last_task_alive (o_task_ring s) = 0 \<and> tr_window_size (o_task_ring s) = 64 \<and>
     \<not> o_scheduler_mu s \<and> o_sub_dispatch_to_group s = Map.empty \<and>
     (\<forall>i. 0 \<le> i \<and> i < tr_current_index (o_task_ring s) \<longrightarrow> held (tr_descriptors (o_task_ring s) ! nat i)) \<and>
     (\<forall>i < 64. tr_current_index (o_task_ring s) \<le> int i \<longrightarrow> unborn (tr_descriptors (o_task_ring s) ! i))"

lemma flat_get:
  assumes "flat s"
  shows "o_get s i = tr_descriptors (o_task_ring s) ! nat (i mod 64)"
  using assms by (simp add: flat_def o_get_def task_get_def task_slot_mod)

lemma flat_cases:
  assumes "flat s"
  shows "held (o_get s i) \<or> unborn (o_get s i)"
proof -
  have "nat (i mod 64) < 64" by (simp add: nat_less_iff)
  then show ?thesis using assms unfolding flat_get [OF assms] flat_def
    by (cases "i mod 64 < tr_current_index (o_task_ring s)") auto
qed

text \<open>Marking a held task completed changes nothing else.\<close>

lemma flat_status:
  assumes "flat s" "held (o_get s i)" "st = RUNNING \<or> st = COMPLETED"
  shows "flat (set_status st i s)" "held (o_get (set_status st i s) i)"
proof -
  let ?k = "nat (i mod 64)"
  have k: "?k < 64" "?k < length (tr_descriptors (o_task_ring s))"
    using assms(1) by (auto simp: flat_def ring_wf_def nat_less_iff)
  have nb: "\<not> unborn (o_get s i)" using assms(2) by (auto simp: held_def unborn_def)
  have lt: "int ?k < tr_current_index (o_task_ring s)"
    using assms(1) nb k unfolding flat_get [OF assms(1)] flat_def by (metis not_le)
  have upd: "tr_descriptors (o_task_ring (set_status st i s)) =
      (tr_descriptors (o_task_ring s))[?k := (o_get s i)\<lparr>td_status := st\<rparr>]"
    using assms(1) by (simp add: set_status_def o_upd_def task_upd_def o_get_def task_slot_mod flat_def)
  have h: "held ((o_get s i)\<lparr>td_status := st\<rparr>)" using assms(2,3) by (auto simp: held_def edgeless_def)
  show "held (o_get (set_status st i s) i)"
    using assms(1) h by (simp add: set_status_def o_upd_def o_get_def flat_def)
  have "\<not> o_scheduler_mu (set_status st i s)" "o_sub_dispatch_to_group (set_status st i s) = Map.empty"
    using assms(1) by (simp_all add: set_status_def o_upd_def flat_def)
  moreover have "ring_wf (o_task_ring (set_status st i s))" "tr_last_task_alive (o_task_ring (set_status st i s)) = 0"
    "tr_window_size (o_task_ring (set_status st i s)) = 64"
    "tr_current_index (o_task_ring (set_status st i s)) = tr_current_index (o_task_ring s)"
    using assms(1) by (simp_all add: set_status_def o_upd_def flat_def)
  ultimately show "flat (set_status st i s)"
    unfolding flat_def upd using assms(1) h k lt by (auto simp: flat_def nth_list_update)
qed

lemma flat_complete:
  assumes "flat s" "held (o_get s i)"
  shows "\<exists>s'. propagate_completion i (set_status COMPLETED i s) = Inr s' \<and> flat s' \<and> s' = set_status COMPLETED i s"
proof -
  note f = flat_status [OF assms, of COMPLETED]
  have "propagate_completion i (set_status COMPLETED i s) = Inr (set_status COMPLETED i s)"
    using f(2) propagate_edgeless [of "set_status COMPLETED i s" i]
    by (simp add: held_def check_task_consumed_def Let_def)
  with f(1) show ?thesis by simp
qed

definition only_ring :: "orch \<Rightarrow> orch \<Rightarrow> bool" where
  "only_ring s s' \<longleftrightarrow> s' = s\<lparr>o_task_ring := o_task_ring s'\<rparr> \<and>
     tr_current_index (o_task_ring s') = tr_current_index (o_task_ring s)"

lemma only_ring_refl [simp]: "only_ring s s"
  by (simp add: only_ring_def)

lemma only_ring_trans: "only_ring a b \<Longrightarrow> only_ring b c \<Longrightarrow> only_ring a c"
  unfolding only_ring_def by (metis orch.surjective orch.update_convs(3))

lemma only_ring_status [simp]: "only_ring s (set_status st i s)"
  by (simp add: only_ring_def set_status_def o_upd_def)

lemma on_complete_flat:
  assumes "flat s"
  shows "\<exists>s'. on_task_complete t s = Inr s' \<and> flat s' \<and> only_ring s s'"
proof -
  have mu: "\<not> o_scheduler_mu s" "o_sub_dispatch_to_group s t = None" using assms by (auto simp: flat_def)
  then have id: "s\<lparr>o_scheduler_mu := False\<rparr> = s" by simp
  let ?l = "s\<lparr>o_scheduler_mu := True\<rparr>"
  have get: "o_get ?l t = o_get s t" by (simp add: o_get_def)
  show ?thesis
  proof (cases "td_status (o_get s t) = RUNNING")
    case True
    then have h: "held (o_get s t)" using flat_cases [OF assms, of t] by (auto simp: unborn_def)
    let ?c = "set_status COMPLETED t ?l"
    have gc: "o_get ?c t = (o_get s t)\<lparr>td_status := COMPLETED\<rparr>"
      using assms by (simp add: set_status_def o_upd_def o_get_def flat_def)
    have "propagate_completion t ?c = Inr ?c"
      using h propagate_edgeless [of ?c t] by (simp add: gc held_def edgeless_def check_task_consumed_def Let_def)
    then have "on_task_complete t s = Inr (?c\<lparr>o_scheduler_mu := False\<rparr>)"
      using True mu get by (simp add: on_task_complete_def on_task_complete_with_def Let_def)
    moreover have "?c\<lparr>o_scheduler_mu := False\<rparr> = set_status COMPLETED t s"
      using mu(1) by (simp add: set_status_def o_upd_def)
    ultimately show ?thesis using flat_status(1) [OF assms h, of COMPLETED] by simp
  next
    case False
    then have "on_task_complete t s = Inr s"
      using mu get id by (simp add: on_task_complete_def on_task_complete_with_def Let_def)
    with assms show ?thesis by simp
  qed
qed

lemma deliver_flat:
  assumes "flat s"
  shows "\<exists>s'. deliver ids s = Inr s' \<and> flat s' \<and> only_ring s s'"
proof -
  have "\<exists>s'. foldR on_task_complete ids s = Inr s' \<and> (flat s' \<and> only_ring s s')"
  proof (rule foldR_total)
    fix t u
    assume "flat u \<and> only_ring s u"
    then show "\<exists>u'. on_task_complete t u = Inr u' \<and> (flat u' \<and> only_ring s u')"
      using on_complete_flat [of u t] only_ring_trans by blast
  qed (use assms in simp)
  then show ?thesis by (simp add: deliver_def)
qed

text \<open>When the window is full of held tasks, no completion makes room.\<close>

lemma flat_full_blocks:
  assumes "flat s" "tr_current_index (o_task_ring s) = 64"
  shows "wait_task_space n arrivals s = Inl AssertFail"
  using assms
proof (induction n arbitrary: s arrivals)
  case (0 s)
  have "td_status (o_get s 0) \<noteq> CONSUMED" using flat_cases [OF 0(1), of 0] by (auto simp: held_def unborn_def)
  then have "retire_point s = tr_last_task_alive (o_task_ring s)"
    using 0 by (intro retire_point_blocked) (auto simp: flat_def)
  with try_advance_idle [of s] 0 show ?case by (simp add: flat_def has_space_def active_count_def)
next
  case (Suc n s)
  have "td_status (o_get s 0) \<noteq> CONSUMED" using flat_cases [OF Suc(2), of 0] by (auto simp: held_def unborn_def)
  then have rp: "retire_point s = tr_last_task_alive (o_task_ring s)"
    using Suc by (intro retire_point_blocked) (auto simp: flat_def)
  obtain s' where s': "deliver (concat (take 1 arrivals)) s = Inr s'" "flat s'" "only_ring s s'"
    using deliver_flat [OF Suc(2)] by blast
  then have "wait_task_space n (drop 1 arrivals) s' = Inl AssertFail"
    using Suc(3) by (intro Suc.IH) (simp_all add: only_ring_def)
  with s' rp try_advance_idle [of s] Suc(2,3) show ?case by (simp add: flat_def has_space_def active_count_def)
qed

lemma flat_full_submit:
  assumes "flat s" "tr_current_index (o_task_ring s) = 64"
  shows "submit_task arrivals tgt k ps s = Inl AssertFail"
proof -
  have "flat (s\<lparr>o_task_block_count := o_task_block_count s + 1\<rparr>)" using assms(1) by (simp add: flat_def)
  from flat_full_blocks [OF this] assms show ?thesis
    by (simp add: submit_task_def back_pressure_def has_space_def active_count_def flat_def)
qed

section \<open>Submissions inside the scope\<close>

definition in_scope :: "orch \<Rightarrow> bool" where
  "in_scope s \<longleftrightarrow> flat s \<and> scope_wf (o_scope_stack s) \<and> ss_stack_top (o_scope_stack s) = 0 \<and>
     ss_scope_tasks_size (o_scope_stack s) = tr_current_index (o_task_ring s) \<and>
     length (ss_scope_tasks (o_scope_stack s)) = 512"

lemma flat_extend:
  assumes "flat s" "tr_current_index (o_task_ring s) < 64" "held d"
    and "o_task_ring s' = (o_task_ring s)\<lparr>tr_current_index := tr_current_index (o_task_ring s) + 1,
      tr_descriptors := (tr_descriptors (o_task_ring s))[nat (tr_current_index (o_task_ring s)) := d]\<rparr>"
    and "\<not> o_scheduler_mu s'" "o_sub_dispatch_to_group s' = Map.empty"
  shows "flat s'"
proof -
  let ?c = "tr_current_index (o_task_ring s)"
  have c: "0 \<le> ?c" "length (tr_descriptors (o_task_ring s)) = 64" using assms(1) by (auto simp: flat_def ring_wf_def)
  have "held ((tr_descriptors (o_task_ring s))[nat ?c := d] ! nat i)" if "0 \<le> i" "i < ?c + 1" for i
    using assms(1-3) c that by (cases "i = ?c") (auto simp: flat_def nth_list_update)
  moreover have "unborn ((tr_descriptors (o_task_ring s))[nat ?c := d] ! i)" if "i < 64" "?c + 1 \<le> int i" for i
    using assms(1) c that by (auto simp: flat_def nth_list_update)
  moreover have "ring_wf (o_task_ring s')" using assms(1,2,4) by (simp add: flat_def ring_wf_def)
  ultimately show ?thesis using assms(1,4-6) by (simp add: flat_def)
qed

lemma register_flat:
  assumes "in_scope s" "tr_current_index (o_task_ring s) < 64"
  obtains d ss where "held (d\<lparr>td_status := RUNNING\<rparr>)" "scope_wf ss" "ss_stack_top ss = 0"
    "ss_scope_tasks_size ss = tr_current_index (o_task_ring s) + 1" "length (ss_scope_tasks ss) = 512"
    "register_task id k [] s = Inr (tr_current_index (o_task_ring s), note_peaks (s\<lparr>o_scope_stack := ss,
       o_task_ring := (o_task_ring s)\<lparr>tr_current_index := tr_current_index (o_task_ring s) + 1,
         tr_descriptors := (tr_descriptors (o_task_ring s))[nat (tr_current_index (o_task_ring s)) := d]\<rparr>,
       o_tasks_submitted := o_tasks_submitted s + 1\<rparr>))"
proof -
  let ?c = "tr_current_index (o_task_ring s)" and ?r = "o_task_ring s"
  have f: "flat s" and wf: "ring_wf ?r" "tr_window_size ?r = 64" "0 \<le> ?c" "length (tr_descriptors ?r) = 64"
    using assms(1) by (auto simp: in_scope_def flat_def ring_wf_def)
  have sp: "has_space ?r" "?c < INT32_MAX" using assms f by (auto simp: flat_def has_space_def active_count_def)
  from assms(1,2) scope_add_refines [of "o_scope_stack s" ?c] obtain ss where
    ss: "stack_add_task ?c (o_scope_stack s) = Inr ss" "scope_wf ss" "ss_stack_top ss = 0"
      "ss_scope_tasks_size ss = ?c + 1" "length (ss_scope_tasks ss) = 512" by (auto simp: in_scope_def)
  let ?r1 = "?r\<lparr>tr_current_index := ?c + 1, tr_descriptors := (tr_descriptors ?r)[nat ?c := fresh_descriptor]\<rparr>"
  have and63: "?c AND 63 = ?c" using and_pred_is_mod [of 64 ?c] wf(3) assms(2) by simp
  have al: "task_alloc ?r = Inr (?c, ?r1)"
    using task_alloc_eq [OF wf(1) sp] wf(2) by (simp add: task_upd_def reset_descriptor_fresh task_slot_def and63)
  let ?d = "fresh_descriptor\<lparr>td_kernel_so := k, td_key := TaskKey (key_logical_system task_key_default) (key_coord task_key_default)
      (current_depth s) (word_of_int ?c), td_fanin_count := 0, td_heap_end := hr_top (o_heap_ring s)\<rparr>"
  have c: "nat ?c < length (tr_descriptors ?r)" using wf(3,4) assms(2) by simp
  have dep: "0 \<le> scope_depth (o_scope_stack s)" using assms(1) by (simp add: in_scope_def scope_depth_def)
  have depth: "current_depth (s\<lparr>o_task_ring := q\<rparr>) = current_depth s" for q by (simp add: current_depth_def)
  have "register_task id k [] s = Inr (?c, note_peaks (s\<lparr>o_scope_stack := ss,
       o_task_ring := ?r\<lparr>tr_current_index := ?c + 1, tr_descriptors := (tr_descriptors ?r)[nat ?c := ?d]\<rparr>,
       o_tasks_submitted := o_tasks_submitted s + 1\<rparr>))"
    using ss(1) dep c wf(2)
    by (simp add: register_task_def al Let_def o_upd_def task_upd_def task_get_def task_slot_def and63 depth)
      (simp add: fresh_descriptor_def)
  moreover have "held (?d\<lparr>td_status := RUNNING\<rparr>)" by (simp add: held_def edgeless_def fresh_descriptor_def)
  ultimately show thesis using that ss(2-5) by blast
qed

text \<open>What the kernel's call leaves of the state, besides the rings.\<close>

definition call_of :: "orch \<Rightarrow> string \<Rightarrow> linqu_coordinate \<Rightarrow> dispatch_call list" where
  "call_of s so tgt = (if o_dispatcher s \<noteq> NoDispatcher \<or> o_dispatch_fn s
     then [\<lparr>dc_task_id = tr_current_index (o_task_ring s), dc_target = tgt, dc_kernel_so = so, dc_params = []\<rparr>] else [])"

definition setting :: "orch \<Rightarrow> dispatcher \<times> bool \<times> nat \<times> nat \<times> linqu_coordinate" where
  "setting s = (o_dispatcher s, o_dispatch_fn s, o_scope_begin_count s, o_scope_end_count s, o_coord s)"

lemma submit_flat:
  assumes "in_scope s" "tr_current_index (o_task_ring s) < 64"
  shows "\<exists>s'. submit_task arrivals tgt (Some so) [] s = Inr s' \<and> in_scope s' \<and> setting s' = setting s \<and>
    tr_current_index (o_task_ring s') = tr_current_index (o_task_ring s) + 1 \<and>
    o_calls s' = o_calls s @ call_of s so tgt \<and> o_tasks_submitted s' = o_tasks_submitted s + 1"
proof -
  let ?c = "tr_current_index (o_task_ring s)"
  have f: "flat s" using assms(1) by (simp add: in_scope_def)
  then have r: "ring_wf (o_task_ring s)" "tr_window_size (o_task_ring s) = 64" "0 \<le> ?c" "length (tr_descriptors (o_task_ring s)) = 64"
    "\<not> o_scheduler_mu s" "o_sub_dispatch_to_group s = Map.empty" by (auto simp: flat_def ring_wf_def)
  have bp: "back_pressure arrivals s = Inr s"
    using assms f by (simp add: back_pressure_def has_space_def active_count_def flat_def)
  from register_flat [OF assms, of so] obtain d ss where d: "held (d\<lparr>td_status := RUNNING\<rparr>)" and
    ss: "scope_wf ss" "ss_stack_top ss = 0" "ss_scope_tasks_size ss = ?c + 1" "length (ss_scope_tasks ss) = 512" and
    reg: "register_task id so [] s = Inr (?c, note_peaks (s\<lparr>o_scope_stack := ss,
       o_task_ring := (o_task_ring s)\<lparr>tr_current_index := ?c + 1,
         tr_descriptors := (tr_descriptors (o_task_ring s))[nat ?c := d]\<rparr>,
       o_tasks_submitted := o_tasks_submitted s + 1\<rparr>))" (is "_ = Inr (_, ?s1)") by blast
  let ?s2 = "set_status RUNNING ?c ?s1"
  have and63: "?c AND 63 = ?c" using and_pred_is_mod [of 64 ?c] r(3) assms(2) by simp
  have ring2: "o_task_ring ?s2 = (o_task_ring s)\<lparr>tr_current_index := ?c + 1,
      tr_descriptors := (tr_descriptors (o_task_ring s))[nat ?c := d\<lparr>td_status := RUNNING\<rparr>]\<rparr>"
    using r(2-4) assms(2) by (simp add: set_status_def o_upd_def note_peaks_def task_upd_def task_get_def task_slot_def and63)
  have f2: "flat ?s2"
    using r(5,6) by (intro flat_extend [OF f assms(2) d ring2]) (simp_all add: set_status_def o_upd_def note_peaks_def)
  have h2: "held (o_get ?s2 ?c)"
    using d r(2-4) assms(2) unfolding o_get_def task_get_def task_slot_def ring2 by (simp add: and63)
  have rest: "o_scope_stack ?s2 = ss" "setting ?s2 = setting s" "o_calls ?s2 = o_calls s"
      "o_tasks_submitted ?s2 = o_tasks_submitted s + 1" "tr_current_index (o_task_ring ?s2) = ?c + 1"
      "o_dispatcher ?s2 = o_dispatcher s" "o_dispatch_fn ?s2 = o_dispatch_fn s"
    by (simp_all add: set_status_def o_upd_def note_peaks_def setting_def)
  have i2: "in_scope ?s2" using f2 ss rest(1,5) by (simp add: in_scope_def)
  let ?s3 = "?s2\<lparr>o_calls := o_calls s @ call_of s so tgt\<rparr>"
  have f3: "flat ?s3" "held (o_get ?s3 ?c)" using f2 h2 by (simp_all add: flat_def o_get_def)
  have "\<exists>s'. submit_task arrivals tgt (Some so) [] s = Inr s' \<and> flat s' \<and> only_ring ?s3 s'"
  proof (cases "o_dispatcher s")
    case NoDispatcher
    have "(if o_dispatch_fn ?s2 then ?s2\<lparr>o_calls := o_calls ?s2 @ [\<lparr>dc_task_id = ?c, dc_target = tgt, dc_kernel_so = so,
        dc_params = []\<rparr>]\<rparr> else ?s2) = ?s3"
      using NoDispatcher rest(3,7) by (simp add: call_of_def)
    then have "submit_task arrivals tgt (Some so) [] s = propagate_completion ?c (set_status COMPLETED ?c ?s3)"
      using NoDispatcher rest(6) by (simp only: submit_task_def bp reg bindR_simps Let_def option.case prod.case) simp
    then show ?thesis using flat_complete [OF f3] by auto
  next
    case SyncDispatcher
    then have "submit_task arrivals tgt (Some so) [] s = on_task_complete ?c ?s3"
      using rest(3,6) by (simp add: submit_task_def bp reg Let_def dispatch_def dispatch_with_def call_of_def on_task_complete_def)
    then show ?thesis using on_complete_flat [OF f3(1), of ?c] by simp
  next
    case AsyncDispatcher
    then have "submit_task arrivals tgt (Some so) [] s = Inr ?s3"
      using rest(3,6) by (simp add: submit_task_def bp reg Let_def dispatch_def dispatch_with_def call_of_def)
    then show ?thesis using f3(1) by (intro exI [of _ ?s3]) simp
  qed
  then obtain s' where s': "submit_task arrivals tgt (Some so) [] s = Inr s'" "flat s'" "only_ring ?s3 s'" by blast
  then have ring: "s' = ?s3\<lparr>o_task_ring := o_task_ring s'\<rparr>" "tr_current_index (o_task_ring s') = ?c + 1"
    using rest(5) by (simp_all add: only_ring_def)
  have "o_scope_stack s' = ss" "setting s' = setting s" "o_calls s' = o_calls s @ call_of s so tgt"
    "o_tasks_submitted s' = o_tasks_submitted s + 1"
    by (subst ring(1), use rest in \<open>simp add: setting_def\<close>)+
  with s' ss ring(2) show ?thesis by (auto simp: in_scope_def)
qed

text \<open>The calls of a run of the loop, for the peers from position \<open>i\<close> on.\<close>

definition peer_calls :: "orch \<Rightarrow> string \<Rightarrow> nat \<Rightarrow> linqu_coordinate list \<Rightarrow> dispatch_call list" where
  "peer_calls s so i peers = (if o_dispatcher s \<noteq> NoDispatcher \<or> o_dispatch_fn s
     then map (\<lambda>(i, p). \<lparr>dc_task_id = int i, dc_target = p, dc_kernel_so = so, dc_params = []\<rparr>) (enumerate i peers) else [])"

lemma dispatch_loop:
  assumes "in_scope s" "tr_current_index (o_task_ring s) = int i"
  shows "if i + length peers \<le> 64
    then \<exists>s'. foldR (dispatch_to os so) (enumerate i peers) s = Inr s' \<and> in_scope s' \<and> setting s' = setting s \<and>
      o_calls s' = o_calls s @ peer_calls s so i peers \<and> o_tasks_submitted s' = o_tasks_submitted s + length peers
    else foldR (dispatch_to os so) (enumerate i peers) s = Inl AssertFail"
  using assms
proof (induction peers arbitrary: i s)
  case Nil
  then have "i \<le> 64" by (auto simp: in_scope_def flat_def ring_wf_def)
  with Nil show ?case by (simp add: peer_calls_def)
next
  case (Cons p peers)
  have le: "i \<le> 64" using Cons.prems by (auto simp: in_scope_def flat_def ring_wf_def)
  show ?case
  proof (cases "i = 64")
    case True
    then show ?thesis using Cons.prems flat_full_submit [of s] by (simp add: dispatch_to_def in_scope_def)
  next
    case False
    with le Cons.prems(2) have lt: "tr_current_index (o_task_ring s) < 64" by simp
    obtain s1 where s1: "submit_task (ko_arrivals os i) p (Some so) [] s = Inr s1" "in_scope s1" "setting s1 = setting s"
      "tr_current_index (o_task_ring s1) = int (Suc i)" "o_calls s1 = o_calls s @ call_of s so p"
      "o_tasks_submitted s1 = o_tasks_submitted s + 1"
      using submit_flat [OF Cons.prems(1) lt, of "ko_arrivals os i" p so] Cons.prems(2) by auto
    have "peer_calls s so i (p # peers) = call_of s so p @ peer_calls s1 so (Suc i) peers"
      using s1(3) Cons.prems(2) by (auto simp: peer_calls_def call_of_def setting_def)
    with Cons.IH [OF s1(2,4)] s1 show ?thesis by (auto simp: dispatch_to_def split: if_splits)
  qed
qed

section \<open>The scope around them\<close>

definition calm :: "orch \<Rightarrow> bool" where
  "calm s \<longleftrightarrow> ring_wf (o_task_ring s) \<and> \<not> o_scheduler_mu s \<and> o_sub_dispatch_to_group s = Map.empty \<and>
     (\<forall>d \<in> set (tr_descriptors (o_task_ring s)). edgeless d)"

lemma calm_get: "calm s \<Longrightarrow> edgeless (o_get s i)"
  using task_slot_range [of "o_task_ring s" i] by (auto simp: calm_def o_get_def task_get_def)

lemma edgeless_upds [simp]:
  "edgeless (d\<lparr>td_status := st\<rparr>) = edgeless d" "edgeless (d\<lparr>td_fanout_refcount := n\<rparr>) = edgeless d"
  by (simp_all add: edgeless_def)

lemma calm_ring:
  assumes "calm s" "\<And>d. edgeless d \<Longrightarrow> edgeless (f d)"
  shows "calm (s\<lparr>o_task_ring := task_upd i f (o_task_ring s)\<rparr>)"
  using assms calm_get [OF assms(1), of i] task_upd_set [of i f "o_task_ring s"]
  by (auto simp: calm_def o_get_def)

lemma calm_status [simp]: "calm s \<Longrightarrow> calm (set_status st i s)"
  unfolding set_status_def o_upd_def by (rule calm_ring) simp_all

lemma calm_consumed [simp]: "calm s \<Longrightarrow> calm (check_task_consumed i s)" "only_ring s (check_task_consumed i s)"
  by (simp_all add: check_task_consumed_def Let_def)

lemma on_complete_calm:
  assumes "calm s"
  shows "\<exists>s'. on_task_complete t s = Inr s' \<and> calm s' \<and> only_ring s s'"
proof -
  let ?l = "s\<lparr>o_scheduler_mu := True\<rparr>"
  have mu: "\<not> o_scheduler_mu s" "o_sub_dispatch_to_group s t = None" "s\<lparr>o_scheduler_mu := False\<rparr> = s"
    using assms by (auto simp: calm_def)
  have st: "(set_status st t u)\<lparr>o_scheduler_mu := b\<rparr> = set_status st t (u\<lparr>o_scheduler_mu := b\<rparr>)" for st u b
    by (simp add: set_status_def o_upd_def)
  have cc: "(check_task_consumed t u)\<lparr>o_scheduler_mu := b\<rparr> = check_task_consumed t (u\<lparr>o_scheduler_mu := b\<rparr>)" for u b
    by (simp add: check_task_consumed_def Let_def st o_get_def)
  show ?thesis
  proof (cases "td_status (o_get s t) = RUNNING")
    case True
    have e: "edgeless (o_get (set_status COMPLETED t ?l) t)"
      using calm_get [OF calm_status [OF assms, of COMPLETED t], of t]
      by (simp add: set_status_def o_upd_def o_get_def)
    have "on_task_complete t s = Inr (check_task_consumed t (set_status COMPLETED t s))"
      using True mu propagate_edgeless [OF e]
      by (simp add: on_task_complete_def on_task_complete_with_def Let_def o_get_def st cc mu(3))
    then show ?thesis using assms only_ring_trans [OF only_ring_status calm_consumed(2)] by simp
  next
    case False
    then have "on_task_complete t s = Inr s"
      using mu by (simp add: on_task_complete_def on_task_complete_with_def Let_def o_get_def)
    with assms show ?thesis by simp
  qed
qed

lemma deliver_calm:
  assumes "calm s"
  shows "\<exists>s'. deliver ids s = Inr s' \<and> calm s' \<and> only_ring s s'"
proof -
  have "\<exists>s'. foldR on_task_complete ids s = Inr s' \<and> (calm s' \<and> only_ring s s')"
  proof (rule foldR_total)
    fix t u
    assume "calm u \<and> only_ring s u"
    then show "\<exists>u'. on_task_complete t u = Inr u' \<and> (calm u' \<and> only_ring s u')"
      using on_complete_calm [of u t] only_ring_trans by blast
  qed (use assms in simp)
  then show ?thesis by (simp add: deliver_def)
qed

lemma calm_releases:
  "calm s \<Longrightarrow> calm (s\<lparr>o_task_ring := fold scope_release ts (o_task_ring s)\<rparr>)"
proof (induction ts arbitrary: s)
  case (Cons t ts)
  have "calm (s\<lparr>o_task_ring := scope_release t (o_task_ring s)\<rparr>)"
    using Cons.prems by (auto simp: scope_release_def intro: calm_ring)
  from Cons.IH [OF this] show ?case by simp
qed simp

lemma calm_consumed_fold:
  "calm s \<Longrightarrow> calm (fold check_task_consumed ts s) \<and> only_ring s (fold check_task_consumed ts s)"
proof (induction ts arbitrary: s)
  case (Cons t ts)
  from Cons.IH [OF calm_consumed(1) [OF Cons.prems, of t]] show ?case
    using only_ring_trans [OF calm_consumed(2) [of s t]] by simp
qed simp

lemmas calm_check_all = calm_consumed_fold [where ts = "[tr_last_task_alive (o_task_ring s)..tr_current_index (o_task_ring s) - 1]"
    and s = s, folded check_all_consumed_def] for s

lemma calm_advance:
  assumes "calm s"
  shows "\<exists>s'. try_advance_ring_pointers s = Inr s' \<and> calm s' \<and> setting s' = setting s \<and> o_calls s' = o_calls s \<and>
    o_tasks_submitted s' = o_tasks_submitted s \<and> o_scope_stack s' = o_scope_stack s"
proof -
  have wf: "ring_wf (o_task_ring s)" "\<not> o_scheduler_mu s" using assms by (auto simp: calm_def)
  note rp = retire_point_spec(1,2) [OF wf(1)]
  have "ring_wf (set_last_task_alive (retire_point s) (o_task_ring s))"
    using set_last_task_alive_wf [OF wf(1)] rp by simp
  then show ?thesis unfolding try_advance_eq [OF wf] using assms by (auto simp: calm_def setting_def set_last_task_alive_def)
qed

lemma scope_end_calm:
  assumes "calm s" "scope_wf (o_scope_stack s)" "0 \<le> ss_stack_top (o_scope_stack s)"
  shows "\<exists>s'. scope_end s = Inr s' \<and> calm s' \<and> setting s' = setting (s\<lparr>o_scope_end_count := o_scope_end_count s + 1\<rparr>) \<and>
    o_calls s' = o_calls s \<and> o_tasks_submitted s' = o_tasks_submitted s"
proof -
  from scope_end_refines [OF assms(2,3), of "o_task_ring s"] obtain ss ts where
    e: "stack_scope_end (o_scope_stack s) (o_task_ring s) = Inr (ss, fold scope_release ts (o_task_ring s))" by blast
  let ?s1 = "s\<lparr>o_scope_stack := ss, o_task_ring := fold scope_release ts (o_task_ring s), o_scope_end_count := o_scope_end_count s + 1\<rparr>"
  have "calm (s\<lparr>o_task_ring := fold scope_release ts (o_task_ring s)\<rparr>)" using assms(1) by (rule calm_releases)
  then have c1: "calm ?s1" by (simp add: calm_def)
  note c2 = calm_check_all [OF c1]
  then have eq: "check_all_consumed ?s1 = ?s1\<lparr>o_task_ring := o_task_ring (check_all_consumed ?s1)\<rparr>"
    by (simp add: only_ring_def)
  have mu: "\<not> o_scheduler_mu ?s1" using c1 by (simp add: calm_def)
  obtain s' where s': "try_advance_ring_pointers (check_all_consumed ?s1) = Inr s'" "calm s'"
    "setting s' = setting (check_all_consumed ?s1)" "o_calls s' = o_calls (check_all_consumed ?s1)"
    "o_tasks_submitted s' = o_tasks_submitted (check_all_consumed ?s1)"
    using calm_advance [of "check_all_consumed ?s1"] c2 by blast
  have "scope_end s = Inr s'" using e mu s'(1) by (simp add: scope_end_def)
  moreover have "setting (check_all_consumed ?s1) = setting (s\<lparr>o_scope_end_count := o_scope_end_count s + 1\<rparr>)"
    "o_calls (check_all_consumed ?s1) = o_calls s" "o_tasks_submitted (check_all_consumed ?s1) = o_tasks_submitted s"
    by (subst eq, simp add: setting_def)+
  ultimately show ?thesis using s' by metis
qed

text \<open>The state a kernel starts in.\<close>

definition start_state :: "orch \<Rightarrow> bool" where
  "start_state s \<longleftrightarrow> flat s \<and> tr_current_index (o_task_ring s) = 0 \<and>
     o_scope_stack s = scope_init MAX_SCOPE_DEPTH 512 scope_new \<and> o_calls s = [] \<and> o_tasks_submitted s = 0 \<and>
     o_scope_begin_count s = 0 \<and> o_scope_end_count s = 0 \<and> o_free_tensor_count s = 0 \<and> o_heap_block_count s = 0 \<and>
     o_heap_ring s = heap_init (1024 * 1024) heap_new"

lemma orch_init_start:
  assumes "orch_init lv c orch_config_default disp fn = Inr s"
  shows "start_state s" "setting s = (disp, fn, 0, 0, c)"
  using assms
  by (auto simp: orch_init_def orch_config_default_def task_ring_init_def dep_init_def tm_init_def start_state_def flat_def
      ring_wf_def unborn_def edgeless_def fresh_descriptor_def setting_def MAX_SCOPE_DEPTH_def elim!: bindR_InrE)

lemma flat_calm: "flat s \<Longrightarrow> calm s"
proof -
  assume f: "flat s"
  then have len: "length (tr_descriptors (o_task_ring s)) = 64" by (simp add: flat_def ring_wf_def)
  have "edgeless (tr_descriptors (o_task_ring s) ! i)" if "i < 64" for i
    using flat_cases [OF f, of "int i"] that by (auto simp: flat_get [OF f] held_def unborn_def)
  with f len show "calm s" by (auto simp: calm_def flat_def in_set_conv_nth)
qed

lemma scope_begin_start:
  assumes "start_state s"
  shows "\<exists>s'. scope_begin s = Inr s' \<and> in_scope s' \<and> tr_current_index (o_task_ring s') = 0 \<and>
    setting s' = setting (s\<lparr>o_scope_begin_count := 1\<rparr>) \<and> o_calls s' = [] \<and> o_tasks_submitted s' = 0"
proof -
  have wf: "scope_wf (o_scope_stack s)" and st: "ss_stack_top (o_scope_stack s) = - 1" "ss_max_depth (o_scope_stack s) = 8"
    "ss_scope_tasks_size (o_scope_stack s) = 0" "length (ss_scope_tasks (o_scope_stack s)) = 512"
    using assms by (simp_all add: start_state_def scope_init_def scope_new_def scope_wf_def MAX_SCOPE_DEPTH_def)
  obtain ss where ss: "stack_scope_begin (o_scope_stack s) = Inr ss" "scope_wf ss" "ss_stack_top ss = 0"
    "ss_scope_tasks_size ss = 0" "length (ss_scope_tasks ss) = 512"
    using scope_begin_refines [OF wf] st by auto
  let ?s = "s\<lparr>o_scope_stack := ss, o_scope_begin_count := 1\<rparr>"
  have "scope_begin s = Inr ?s" using ss(1) assms by (simp add: scope_begin_def start_state_def)
  moreover have "flat ?s" using assms by (auto simp: start_state_def flat_def)
  ultimately show ?thesis using ss assms by (auto simp: in_scope_def start_state_def setting_def)
qed

section \<open>The kernel\<close>

lemma only_ring_keeps:
  assumes "only_ring s s'"
  shows "o_calls s' = o_calls s" "o_tasks_submitted s' = o_tasks_submitted s" "setting s' = setting s"
proof -
  have eq: "s' = s\<lparr>o_task_ring := o_task_ring s'\<rparr>" using assms by (simp add: only_ring_def)
  show "o_calls s' = o_calls s" "o_tasks_submitted s' = o_tasks_submitted s" "setting s' = setting s"
    by (subst eq, simp add: setting_def)+
qed

lemma wait_all_calm:
  assumes "calm s"
  shows "\<exists>s'. kernel_wait_all os s = Inr s' \<and> only_ring s s'"
  using deliver_calm [OF assms, of "ko_waits os"] by (auto simp: kernel_wait_all_def)

lemma dispatch_entry_start:
  fixes reg :: peer_registry and lv :: u8 and disc :: "(string \<times> (string \<times> fs_node) list) option"
  assumes "start_state s"
  defines "peers \<equiv> fst (query_peers (Some reg) disc lv)"
  shows "if length peers \<le> 64
    then \<exists>s'. dispatch_entry os disc lv so args reg (s, m) = Inr (s', m) \<and> o_calls s' = peer_calls s so 0 peers \<and>
      o_tasks_submitted s' = length peers \<and> o_scope_begin_count s' = 1 \<and> o_scope_end_count s' = 1 \<and> o_done s'
    else dispatch_entry os disc lv so args reg (s, m) = Inl AssertFail"
proof -
  obtain s1 where s1: "scope_begin s = Inr s1" "in_scope s1" "tr_current_index (o_task_ring s1) = int 0"
    "setting s1 = setting (s\<lparr>o_scope_begin_count := 1\<rparr>)" "o_calls s1 = []" "o_tasks_submitted s1 = 0"
    using scope_begin_start [OF assms(1)] by auto
  note loop = dispatch_loop [OF s1(2,3), of peers os so]
  show ?thesis
  proof (cases "length peers \<le> 64")
    case False
    with loop s1(1) show ?thesis by (simp add: dispatch_entry_def peers_def)
  next
    case True
    with loop obtain s2 where s2: "foldR (dispatch_to os so) (enumerate 0 peers) s1 = Inr s2" "in_scope s2"
      "setting s2 = setting s1" "o_calls s2 = peer_calls s1 so 0 peers" "o_tasks_submitted s2 = length peers"
      using s1(5,6) by auto
    have i2: "calm s2" "scope_wf (o_scope_stack s2)" "0 \<le> ss_stack_top (o_scope_stack s2)"
      using s2(2) flat_calm by (auto simp: in_scope_def)
    from scope_end_calm [OF i2] obtain s3 where s3: "scope_end s2 = Inr s3" "calm s3"
      "setting s3 = setting (s2\<lparr>o_scope_end_count := o_scope_end_count s2 + 1\<rparr>)" "o_calls s3 = o_calls s2"
      "o_tasks_submitted s3 = o_tasks_submitted s2" by blast
    from wait_all_calm [OF s3(2), of os] obtain s4 where s4: "kernel_wait_all os s3 = Inr s4" "only_ring s3 s4" by blast
    have keep: "o_calls s4 = o_calls s3" "o_tasks_submitted s4 = o_tasks_submitted s3" "setting s4 = setting s3"
      using only_ring_keeps [OF s4(2)] by auto
    have "dispatch_entry os disc lv so args reg (s, m) = Inr (orchestration_done s4, m)"
      using s1(1) s2(1) s3(1) s4(1) by (simp add: dispatch_entry_def peers_def)
    moreover have "peer_calls s1 so 0 peers = peer_calls s so 0 peers"
      using s1(4) by (simp add: peer_calls_def setting_def)
    moreover have "o_scope_end_count s = 0" using assms(1) by (simp add: start_state_def)
    ultimately show ?thesis
      using True keep s3 s2 s1(4) by (simp add: orchestration_done_def setting_def)
  qed
qed

section \<open>What a daemon knows\<close>

text \<open>
  The peers a daemon hears of are entered at its own level, and code arrives as blobs, under their names. No handler does
  anything else to the registry or to the names of the code cache.
\<close>

definition confined :: "node_daemon \<Rightarrow> bool" where
  "confined d \<longleftrightarrow> (\<forall>(key, info) \<in> set (nd_registry d). ck_level key = level_value (nd_level d)) \<and>
     (\<forall>name. cc_name_to_path (nd_code_cache d) name \<noteq> None \<or> cc_loaded (nd_code_cache d) name \<noteq> None \<longrightarrow>
        name \<in> range blob_name)"

lemma confined_other [simp]:
  "confined (d\<lparr>nd_data_cache := c\<rparr>) = confined d" "confined (d\<lparr>nd_running := b\<rparr>) = confined d"
  "confined (d\<lparr>nd_messages_handled := n\<rparr>) = confined d" "confined (d\<lparr>nd_transport := t\<rparr>) = confined d"
  by (simp_all add: confined_def)

lemma if_eqE: "(if c then a else b) = r \<Longrightarrow> (c \<Longrightarrow> a = r \<Longrightarrow> T) \<Longrightarrow> (\<not> c \<Longrightarrow> b = r \<Longrightarrow> T) \<Longrightarrow> T"
  by (simp split: if_splits)

lemma load_confined:
  assumes "confined d" "code_cache_load dl name m (nd_code_cache d) = (k, cc)"
  shows "confined (d\<lparr>nd_code_cache := cc\<rparr>)"
  using assms
  by (auto simp: confined_def code_cache_load_def Let_def split: option.splits if_splits)

lemma run_call_confined:
  assumes "confined d" "run_call dl task m d = Inr (d', m')"
  shows "confined d'" "nd_level d' = nd_level d"
proof -
  obtain k cc where l: "code_cache_load dl (ct_kernel_so_name task) m (nd_code_cache d) = (k, cc)"
    by (cases "code_cache_load dl (ct_kernel_so_name task) m (nd_code_cache d)")
  have "confined (d\<lparr>nd_code_cache := cc\<rparr>)" by (rule load_confined [OF assms(1) l])
  then show "confined d'" "nd_level d' = nd_level d"
    using assms(2) l by (auto simp: run_call_def confined_def bindR_Inr_iff Let_def split: option.splits)
qed

lemma heartbeat_confined:
  assumes "confined d" "handle_heartbeat payload d = Inr d'"
  shows "confined d'" "nd_level d' = nd_level d"
  using assms set_map_put by (fastforce simp: handle_heartbeat_def bindR_Inr_iff confined_def registry_add_def peer_key_of_def)+

lemma reg_code_confined:
  assumes "confined d" "handle_reg_code ok payload d m = Inr (d', m')"
  shows "confined d'" "nd_level d' = nd_level d"
  using assms by (auto simp: handle_reg_code_def bindR_Inr_iff confined_def register_code_def Let_def split: if_splits)

lemma call_task_confined:
  assumes "confined d" "handle_call_task os hdr payload d m = Inr (d', m')"
  shows "confined d'" "nd_level d' = nd_level d"
  using assms run_call_confined by (auto simp: handle_call_task_def bindR_Inr_iff)

lemma other_confined:
  assumes "confined d"
  shows "confined (handle_shutdown d)" "handle_reg_data payload d = Inr d' \<Longrightarrow> confined d' \<and> nd_level d' = nd_level d"
    "handle_scope_exit payload d = Inr d' \<Longrightarrow> confined d' \<and> nd_level d' = nd_level d" "nd_level (handle_shutdown d) = nd_level d"
  using assms by (auto simp: handle_shutdown_def handle_reg_data_def handle_scope_exit_def bindR_Inr_iff split: if_splits)

lemma message_confined:
  assumes "confined d" "handle_one_message os evs d m = Inr (b, d', m')"
  shows "confined d' \<and> nd_level d' = nd_level d"
proof -
  let ?n = "d\<lparr>nd_messages_handled := nd_messages_handled d + 1\<rparr>"
  have n: "confined ?n" using assms(1) by simp
  from assms(2) obtain msg m1 where r: "transport_recv evs (nd_transport d) m = Inr (msg, m1)"
    by (auto simp: handle_one_message_def bindR_Inr_iff)
  show ?thesis
  proof (cases msg)
    case None
    with assms r show ?thesis by (simp add: handle_one_message_def)
  next
    case (Some hp)
    obtain hdr payload where hp: "hp = (hdr, payload)" by (cases hp)
    note run = assms(2) [unfolded handle_one_message_def r Some hp bindR_simps prod.case option.case Let_def]
    show ?thesis
    proof (cases "magic hdr \<noteq> LINQU_MAGIC")
      case True
      with run assms(1) show ?thesis by simp
    next
      case False
      note run = run [unfolded if_not_P [OF False]]
      show ?thesis
        using run by (elim if_eqE)
          (auto elim!: bindR_InrE simp: n assms(1) other_confined(1,4) [OF n]
            dest: call_task_confined [OF n] heartbeat_confined [OF n] reg_code_confined [OF n] other_confined(2,3) [OF n])
    qed
  qed
qed

text \<open>The turns of a daemon's loop; between them other processes may have changed the machine.\<close>

inductive serves :: "node_daemon \<Rightarrow> node_daemon \<Rightarrow> bool" where
  idle: "serves d d"
| turn: "serves d d1 \<Longrightarrow> handle_one_message os evs d1 m = Inr (b, d2, m') \<Longrightarrow> serves d d2"

lemma serves_step: "handle_one_message os evs d m = Inr (b, d1, m') \<Longrightarrow> serves d1 d2 \<Longrightarrow> serves d d2"
  by (rotate_tac 1, induction rule: serves.induct) (auto intro: serves.intros)

lemma loop_serves: "run_event_loop limit n turns d m = Inr (d', m') \<Longrightarrow> serves d d'"
proof (induction turns arbitrary: n d m)
  case Nil
  then show ?case by (auto simp: run_event_loop.simps [of limit n "[]" d m] split: if_splits intro: idle)
next
  case (Cons t turns)
  obtain os evs where t: "t = (os, evs)" by (cases t)
  show ?case
  proof (cases "\<not> nd_running d \<or> (0 \<le> limit \<and> limit \<le> n)")
    case True
    with Cons.prems show ?thesis by (auto simp: run_event_loop.simps [of limit n _ d m] intro: idle)
  next
    case False
    with Cons.prems obtain b d1 m1 where h: "handle_one_message os evs d m = Inr (b, d1, m1)"
      "run_event_loop limit (if b then n + 1 else n) turns d1 m1 = Inr (d', m')"
      by (auto simp: t run_event_loop.simps [of limit n _ d m] bindR_Inr_iff simp del: if_split split: if_splits)
    from serves_step [OF h(1) Cons.IH [OF h(2)]] show ?thesis .
  qed
qed

lemma serves_confined: "serves d d' \<Longrightarrow> confined d \<Longrightarrow> confined d' \<and> nd_level d' = nd_level d"
  by (induction rule: serves.induct) (auto dest: message_confined)

lemma start_confined:
  assumes "daemon_new lv c base m0 = (d0, m1)" "daemon_start os d0 m1 = (ok, d1, m2)"
  shows "confined d1" "nd_level d1 = lv" "nd_coord d1 = c"
  using assms
  by (auto simp: daemon_new_def code_cache_new_def Let_def confined_def daemon_start_def split: prod.splits bool.splits if_splits)

lemma confined_peers:
  assumes "confined d" "lv \<noteq> level_value (nd_level d)"
  shows "query_peers (Some (nd_registry d)) None lv = ([], Some (nd_registry d))"
  using assms by (auto simp: query_peers_def confined_def peers_at_level_def filter_empty_conv Let_def)

lemma confined_unknown:
  assumes "confined d" "ct_kernel_so_name task \<notin> range blob_name"
  shows "run_call dl task m d = Inr (d, m)"
  using assms by (intro run_call_unknown) (auto simp: confined_def)

lemma alloc_params_start:
  assumes "start_state s"
  shows "\<exists>s'. foldR alloc_param es s = Inr s' \<and> start_state s' \<and> o_coord s' = o_coord s"
proof -
  have "\<exists>s'. foldR alloc_param es s = Inr s' \<and> (start_state s' \<and> o_coord s' = o_coord s)"
  proof (rule foldR_total)
    fix e u
    assume "start_state u \<and> o_coord u = o_coord s"
    then show "\<exists>u'. alloc_param e u = Inr u' \<and> (start_state u' \<and> o_coord u' = o_coord s)"
      by (auto simp: alloc_param_def alloc_tensor_def Let_def start_state_def flat_def)
  qed (use assms in simp)
  then show ?thesis by simp
qed

text \<open>A kernel that is loaded and returns from every start state.\<close>

lemma run_call_entry:
  assumes "code_cache_load dl (ct_kernel_so_name task) m (nd_code_cache d) = (k, cc)" "lk_entry_fn k = Some entry"
    and "\<And>s. start_state s \<Longrightarrow> o_coord s = nd_coord d \<Longrightarrow>
      \<exists>s' m'. entry (kernel_args (ct_params task)) (nd_registry d) (s, m) = Inr (s', m') \<and> P s' m'"
  shows "\<exists>s' m'. run_call dl task m d = Inr (d\<lparr>nd_code_cache := cc,
      nd_task_profiles := nd_task_profiles d @ [generate_profile (coord_to_string (nd_coord d)) s']\<rparr>, m') \<and> P s' m'"
proof -
  obtain s0 where s0: "orch_init (nd_level d) (nd_coord d) orch_config_default NoDispatcher False = Inr s0"
    by (simp add: orch_init_def orch_config_default_def task_ring_init_def dep_init_def tm_init_def)
  have "o_coord s0 = nd_coord d" using orch_init_start(2) [OF s0] by (simp add: setting_def)
  with alloc_params_start [OF orch_init_start(1) [OF s0], of "ct_params task"] obtain s1 where
    s1: "foldR alloc_param (ct_params task) s0 = Inr s1" "start_state s1" "o_coord s1 = nd_coord d" by auto
  from assms(3) [OF s1(2,3)] obtain s' m' where
    "entry (kernel_args (ct_params task)) (nd_registry d) (s1, m) = Inr (s', m')" "P s' m'" by blast
  with assms(1,2) s0 s1(1) show ?thesis by (auto simp: run_call_def)
qed

section \<open>Properties\<close>

text \<open>The dispatch kernels, with their configurations, and the names they submit.\<close>

definition dispatch_kernels :: "kernel_os \<Rightarrow> (kernel_config \<times> orch_entry) list" where
  "dispatch_kernels os =
     [(topo_L4_config, topo_L4_entry os), (topo_L5_config, topo_L5_entry os), (topo_L6_config, topo_L6_entry os),
      (dag_L4_config, dag_L4_entry os), (dag_L5_config, dag_L5_entry os), (dag_L6_config, dag_L6_entry os),
      (ring_L4_config, ring_L4_entry os), (ring_L5_config, ring_L5_entry os)]"

definition submitted_names :: "string list" where
  "submitted_names =
     [''topo_L3_host.so'', ''topo_L4_pod.so'', ''topo_L5_clos1.so'', ''dag_L3_compute.so'', ''dag_L4_dispatch.so'',
      ''dag_L5_dispatch.so'', ''ring_L3_stress.so'', ''ring_L4_stress.so'']"

lemmas dispatch_kernel_defs = topo_L4_config_def topo_L5_config_def topo_L6_config_def dag_L4_config_def dag_L5_config_def
  dag_L6_config_def ring_L4_config_def ring_L5_config_def topo_L4_entry_def topo_L5_entry_def topo_L6_entry_def
  dag_L4_entry_def dag_L5_entry_def dag_L6_entry_def ring_L4_entry_def ring_L5_entry_def

lemma dispatch_kernels_below:
  assumes "(cfg, entry) \<in> set (dispatch_kernels os)"
  obtains lv so where "entry = dispatch_entry os None lv so" "lv \<noteq> kc_level cfg"
  using assms that by (auto simp: dispatch_kernels_def dispatch_kernel_defs orchestrator_config_def)

lemma submitted_not_blob: "name \<in> set submitted_names \<Longrightarrow> name \<notin> range blob_name"
  by (auto simp: submitted_names_def blob_name_def)


definition ex_kernel_os :: kernel_os where
  "ex_kernel_os = \<lparr>ko_env = Map.empty, ko_pid = 7, ko_fopen = (\<lambda>_. True), ko_arrivals = (\<lambda>_. []), ko_waits = [1, 0]\<rparr>"

definition ex_peer :: "u16 \<Rightarrow> peer_info" where
  "ex_peer i = \<lparr>pi_coord = LinquCoordinate 0 0 0 i 0 0 0, pi_level = 3, pi_socket_path = '''', pi_alive = True\<rparr>"


text \<open>C21. A dispatch kernel that runs in a daemon of its own level reaches nobody. Whatever messages the daemon has handled since its start, its registry
  holds peers of its own level only (\<^verbatim>\<open>handle_heartbeat\<close> enters the daemon's level, and the orchestrator of a call has no
  discovery), while the kernel asks for the level below. The kernel runs to its end, the profile counts no task, nothing is sent.\<close>

theorem daemon_dispatch_reaches_nobody:
  assumes "daemon_new lv c base m0 = (d0, m1)" "daemon_start los d0 m1 = (ok, d1, m2)"
    and "serves d1 d"
    and "(cfg, entry) \<in> set (dispatch_kernels os)" "kc_level cfg = level_value lv"
    and "code_cache_load dl (ct_kernel_so_name task) m (nd_code_cache d) = (k, cc)" "lk_entry_fn k = Some entry"
  shows "\<exists>s d'. run_call dl task m d = Inr (d', m) \<and>
    nd_task_profiles d' = nd_task_profiles d @ [generate_profile (coord_to_string (nd_coord d)) s] \<and>
    rm_task_alloc_count (current_metrics s) = 0 \<and> o_calls s = [] \<and> o_done s"
proof -
  note st = start_confined [OF assms(1,2)]
  have cf: "confined d" "nd_level d = lv" using serves_confined [OF assms(3) st(1)] st(2) by auto
  obtain below so where e: "entry = dispatch_entry os None below so" "below \<noteq> kc_level cfg"
    using dispatch_kernels_below [OF assms(4)] .
  have none: "query_peers (Some (nd_registry d)) None below = ([], Some (nd_registry d))"
    using confined_peers [OF cf(1), of below] cf(2) e(2) assms(5) by simp
  have run: "\<exists>s' m'. entry (kernel_args (ct_params task)) (nd_registry d) (s, m) = Inr (s', m') \<and>
      (m' = m \<and> o_tasks_submitted s' = 0 \<and> o_calls s' = [] \<and> o_done s')" if "start_state s" for s
    using dispatch_entry_start [OF that, of "nd_registry d" None below os so "kernel_args (ct_params task)" m]
    by (auto simp: none e(1) peer_calls_def)
  show ?thesis
    using run_call_entry [OF assms(6,7) run] by (fastforce simp: current_metrics_def)
qed

text \<open>A pod's daemon that has received the topology kernel as a blob.\<close>

definition ex_los :: listen_outcome where
  "ex_los = \<lparr>lo_socket = True, lo_bind = True, lo_listen = True\<rparr>"

definition ex_pod_daemon :: node_daemon where
  "ex_pod_daemon = fst (snd (daemon_start ex_los (fst (daemon_new 4 coord_zero ''/t'' machine_empty))
     (snd (daemon_new 4 coord_zero ''/t'' machine_empty))))"

definition ex_blob :: "byte list" where
  "ex_blob = reg_code_serialize \<lparr>rc_blob_hash = 5, rc_code_binary = [1]\<rparr>"

definition ex_pod_machine :: machine where
  "ex_pod_machine = set_backlog (make_socket_path ''/t'' coord_zero 4)
     [header_serialize (header_make REG_CODE 5 coord_zero coord_zero 13) @ ex_blob] machine_empty"

definition ex_linker :: linker where
  "ex_linker bytes = Some \<lparr>ki_entry = Some (topo_L4_entry ex_kernel_os), ki_config = True\<rparr>"

lemma ex_pod_daemon_simps:
  "ut_listening (nd_transport ex_pod_daemon)" "\<not> ut_stopped (nd_transport ex_pod_daemon)"
  "ut_socket_path (nd_transport ex_pod_daemon) = make_socket_path ''/t'' coord_zero 4"
  "cc_loaded (nd_code_cache ex_pod_daemon) = Map.empty"
  "\<exists>m. daemon_start ex_los (fst (daemon_new 4 coord_zero ''/t'' machine_empty))
     (snd (daemon_new 4 coord_zero ''/t'' machine_empty)) = (True, ex_pod_daemon, m)"
  using ex_path4
  by (simp_all add: ex_pod_daemon_def daemon_start_def daemon_new_def code_cache_new_def start_listening_def transport_new_def
      ex_los_def level_value_def Let_def)

lemma ex_pod_receives:
  "\<exists>d m. handle_one_message ex_os (replicate 40 (Ready 0)) ex_pod_daemon ex_pod_machine = Inr (True, d, m) \<and>
    cc_loaded (nd_code_cache d) = Map.empty \<and>
    (\<exists>path. cc_name_to_path (nd_code_cache d) (blob_name 5) = Some path \<and> mc_files m path = Some [1])"
proof -
  let ?hdr = "header_make REG_CODE 5 coord_zero coord_zero 13"
  have len: "length ex_blob = 13" by (simp add: ex_blob_def reg_code_serialize_def)
  then have fr: "frames ?hdr ex_blob" by (simp add: frames_def)
  have "transport_recv (replicate 40 (Ready 0)) (nd_transport ex_pod_daemon) ex_pod_machine =
      Inr (Some (?hdr, ex_blob), set_backlog (make_socket_path ''/t'' coord_zero 4) [] ex_pod_machine)"
    using recv_frame [of ex_pod_machine "nd_transport ex_pod_daemon" "header_serialize ?hdr @ ex_blob" "[]" "replicate 40 (Ready 0)"]
      ex_pod_daemon_simps(1-3) len
    by (simp add: ex_pod_machine_def parse_frame_serialize [OF fr] smooth_def WIRE_SIZE_def)
  moreover have "reg_code_deserialize ex_blob = Inr \<lparr>rc_blob_hash = 5, rc_code_binary = [1]\<rparr>"
    using reg_code_codec.roundtrip [of "\<lparr>rc_blob_hash = 5, rc_code_binary = [1]\<rparr>"] by (simp add: ex_blob_def)
  ultimately show ?thesis using ex_pod_daemon_simps(4)
    by (simp add: handle_one_message_def handle_reg_code_def register_code_def ex_os_def Let_def)
qed

theorem daemon_dispatch_reaches_nobody_witness:
  "\<exists>d m s d'. serves ex_pod_daemon d \<and>
    run_call ex_linker (call_payload 0 (blob_name 5) []) m d = Inr (d', m) \<and>
    nd_task_profiles d' = nd_task_profiles d @ [generate_profile (coord_to_string (nd_coord d)) s] \<and>
    rm_task_alloc_count (current_metrics s) = 0 \<and> o_done s"
proof -
  obtain d m path where d: "handle_one_message ex_os (replicate 40 (Ready 0)) ex_pod_daemon ex_pod_machine = Inr (True, d, m)"
    "cc_loaded (nd_code_cache d) = Map.empty" "cc_name_to_path (nd_code_cache d) (blob_name 5) = Some path"
    "mc_files m path = Some [1]"
    using ex_pod_receives by blast
  have sv: "serves ex_pod_daemon d" using serves.turn [OF serves.idle d(1)] .
  have load: "\<exists>k cc. code_cache_load ex_linker (ct_kernel_so_name (call_payload 0 (blob_name 5) [])) m (nd_code_cache d) = (k, cc) \<and>
      lk_entry_fn k = Some (topo_L4_entry ex_kernel_os)"
    using d(2-4) by (simp add: code_cache_load_def call_payload_def ex_linker_def Let_def)
  obtain m2 where m2: "daemon_start ex_los (fst (daemon_new 4 coord_zero ''/t'' machine_empty))
     (snd (daemon_new 4 coord_zero ''/t'' machine_empty)) = (True, ex_pod_daemon, m2)"
    using ex_pod_daemon_simps(5) by blast
  have k: "(topo_L4_config, topo_L4_entry ex_kernel_os) \<in> set (dispatch_kernels ex_kernel_os)" "kc_level topo_L4_config = level_value 4"
    by (simp_all add: dispatch_kernels_def topo_L4_config_def orchestrator_config_def level_value_def)
  from load daemon_dispatch_reaches_nobody [OF prod.collapse [symmetric] m2 sv k] show ?thesis using sv by blast
qed



end
