(* ===== verification/Kernel_Results.thy ===== *)
theory Kernel_Results
  imports Kernel_Dispatch
begin

text \<open>
  What the kernels of level 3 compute, allocate and write. They submit no tasks, so the orchestrator stays in one of the
  states \<open>idle_at h k\<close>: \<open>h\<close> bytes of the heap given out, \<open>k\<close> scopes open, nothing to retire.
\<close>

section \<open>An orchestrator without tasks\<close>

definition idle_at :: "nat \<Rightarrow> nat \<Rightarrow> orch \<Rightarrow> bool" where
  "idle_at h k s \<longleftrightarrow> ring_wf (o_task_ring s) \<and> tr_last_task_alive (o_task_ring s) = 0 \<and> tr_current_index (o_task_ring s) = 0 \<and>
     \<not> o_scheduler_mu s \<and> h \<le> 2 ^ 20 \<and> heap_wf (o_heap_ring s) \<and> hr_capacity (o_heap_ring s) = 2 ^ 20 \<and>
     unat (hr_top (o_heap_ring s)) = h \<and> hr_tail (o_heap_ring s) = 0 \<and>
     scope_wf (o_scope_stack s) \<and> ss_stack_top (o_scope_stack s) = int k - 1 \<and> ss_max_depth (o_scope_stack s) = 8 \<and>
     ss_scope_tasks_size (o_scope_stack s) = 0"

text \<open>Scopes entered and left, tensors freed, waits for the heap, tasks, the coordinate and the next handle.\<close>

definition tally :: "orch \<Rightarrow> nat \<times> nat \<times> nat \<times> nat \<times> nat \<times> linqu_coordinate" where
  "tally s = (o_scope_begin_count s, o_scope_end_count s, o_free_tensor_count s, o_heap_block_count s, o_tasks_submitted s, o_coord s)"

lemma start_idle:
  assumes "start_state s"
  shows "idle_at 0 0 s" "tally s = (0, 0, 0, 0, 0, o_coord s)"
  using assms
  by (auto simp: start_state_def flat_def idle_at_def tally_def heap_init_def heap_new_def heap_wf_def scope_init_def scope_new_def
      scope_wf_def MAX_SCOPE_DEPTH_def)

lemma alloc_idle:
  assumes "idle_at h k s" "0 < n" "h + n \<le> 2 ^ 20"
  shows "\<exists>s'. alloc_tensor [] c (of_nat n) s = Inr (o_next_tensor_handle s, s') \<and> idle_at (h + n) k s' \<and>
    tally s' = tally s \<and> o_next_tensor_handle s' = o_next_tensor_handle s + 1"
proof -
  let ?r = "o_heap_ring s"
  have r: "heap_wf ?r" "hr_capacity ?r = 2 ^ 20" "unat (hr_top ?r) = h" "hr_tail ?r = 0" using assms(1) by (auto simp: idle_at_def)
  have un: "unat (of_nat n :: u64) = n" "unat (2 ^ 20 :: u64) = 2 ^ 20" "unat (of_nat (h + n) :: u64) = h + n"
    using assms(3) by (simp_all only: unat_of_nat) simp_all
  have room: "heap_headroom ?r" using r assms(3) un by (simp add: heap_headroom_def)
  have "h < 2 ^ 20" using assms(2,3) by simp
  then have "heap_start (2 ^ 20) h n = h" using assms(3) by (simp add: heap_start_def)
  then have al: "heap_try_alloc (of_nat n) ?r = Some (of_nat (h mod 2 ^ 20), ?r\<lparr>hr_top := of_nat (h + n)\<rparr>)"
    using heap_try_alloc_abs [OF r(1) room, of "of_nat n"] r un assms(2,3) by simp
  have "heap_wf (?r\<lparr>hr_top := of_nat (h + n)\<rparr>)" using r un assms(3) by (simp add: heap_wf_def)
  moreover have "(of_nat n :: u64) > 0" using un(1) assms(2) by (simp add: word_less_nat_alt)
  ultimately show ?thesis
    using al assms(1,3) un by (simp add: alloc_tensor_def Let_def idle_at_def tally_def)
qed

lemma begin_idle:
  assumes "idle_at h k s" "k < 8"
  shows "\<exists>s'. scope_begin s = Inr s' \<and> idle_at h (k + 1) s' \<and> o_next_tensor_handle s' = o_next_tensor_handle s \<and>
    tally s' = tally (s\<lparr>o_scope_begin_count := o_scope_begin_count s + 1\<rparr>)"
proof -
  from assms have "scope_wf (o_scope_stack s)" "ss_stack_top (o_scope_stack s) + 1 < ss_max_depth (o_scope_stack s)"
    by (auto simp: idle_at_def)
  from scope_begin_refines [OF this] obtain ss where ss: "stack_scope_begin (o_scope_stack s) = Inr ss" "scope_wf ss"
    "ss_stack_top ss = ss_stack_top (o_scope_stack s) + 1" "ss_max_depth ss = ss_max_depth (o_scope_stack s)"
    "ss_scope_tasks_size ss = ss_scope_tasks_size (o_scope_stack s)" by blast
  then show ?thesis using assms(1) by (simp add: scope_begin_def idle_at_def tally_def)
qed

lemma end_idle:
  assumes "idle_at h (Suc k) s"
  shows "\<exists>s'. scope_end s = Inr s' \<and> idle_at h k s' \<and> o_next_tensor_handle s' = o_next_tensor_handle s \<and>
    tally s' = tally (s\<lparr>o_scope_end_count := o_scope_end_count s + 1\<rparr>)"
proof -
  let ?st = "o_scope_stack s"
  have st: "scope_wf ?st" "0 \<le> ss_stack_top ?st" "ss_scope_tasks_size ?st = 0" "ss_max_depth ?st = 8" "ss_stack_top ?st = int k"
    using assms by (auto simp: idle_at_def)
  have "fst (abs_end (scope_abs ?st)) = []" using st(3) by (simp add: abs_end_def scope_abs_def scope_tasks_def)
  with scope_end_refines [OF st(1,2), of "o_task_ring s"] st obtain ss where
    ss: "stack_scope_end ?st (o_task_ring s) = Inr (ss, o_task_ring s)" "scope_wf ss" "ss_stack_top ss = int k - 1"
      "ss_max_depth ss = 8" "ss_scope_tasks_size ss \<le> 0" by auto
  have z: "ss_scope_tasks_size ss = 0" using ss(2,5) by (simp add: scope_wf_def)
  let ?s1 = "s\<lparr>o_scope_stack := ss, o_task_ring := o_task_ring s, o_scope_end_count := o_scope_end_count s + 1\<rparr>"
  have r: "ring_wf (o_task_ring s)" "tr_last_task_alive (o_task_ring s) = 0" "tr_current_index (o_task_ring s) = 0" "\<not> o_scheduler_mu s"
    using assms by (auto simp: idle_at_def)
  have "check_all_consumed ?s1 = ?s1" using r(2,3) by (simp add: check_all_consumed_def)
  moreover have "retire_point ?s1 = tr_last_task_alive (o_task_ring ?s1)" using r(2,3) by (simp add: retire_point_def)
  then have "try_advance_ring_pointers ?s1 = Inr ?s1" using r(1,4) by (intro try_advance_idle) simp_all
  ultimately have "scope_end s = Inr ?s1" using ss(1) r(4) by (simp add: scope_end_def Let_def)
  then show ?thesis using assms ss(2-4) z by (simp add: idle_at_def tally_def)
qed

lemma free_idle:
  "idle_at h k (free_tensor t s) = idle_at h k s" "o_next_tensor_handle (free_tensor t s) = o_next_tensor_handle s"
  "tally (free_tensor t s) = tally (s\<lparr>o_free_tensor_count := o_free_tensor_count s + 1\<rparr>)"
  by (simp_all add: free_tensor_def idle_at_def tally_def)

section \<open>The tensor kernel\<close>

lemma fl32_exact: "\<bar>x\<bar> < 2 ^ 24 \<Longrightarrow> fl32 x = x"
proof -
  assume "\<bar>x\<bar> < 2 ^ 24"
  then have "nat \<bar>x\<bar> < 2 ^ 24" by (simp add: nat_less_iff)
  then have "fl_shift (nat \<bar>x\<bar>) = 0" by (simp add: fl_shift.simps)
  then show "fl32 x = x" by (simp add: fl32_def fl_nat_def sgn_mult_abs)
qed

lemma small_square: "i < 64 \<Longrightarrow> int i * int i < 4096"
  using mult_strict_mono' [of "int i" 64 "int i" 64] by simp

lemma fl32_quadratic:
  assumes "i < 64" "0 \<le> a" "a \<le> 9" "0 \<le> b" "b \<le> 12" "0 \<le> c" "c \<le> 2"
  shows "fl32 (a * (int i * int i) + b * int i + c) = a * (int i * int i) + b * int i + c"
proof (rule fl32_exact)
  have "a * (int i * int i) \<le> 9 * 4096" by (rule mult_mono) (use assms small_square [OF assms(1)] in simp_all)
  moreover have "b * int i \<le> 12 * 64" by (rule mult_mono) (use assms in simp_all)
  moreover have "0 \<le> a * (int i * int i)" "0 \<le> b * int i" using assms by simp_all
  ultimately show "\<bar>a * (int i * int i) + b * int i + c\<bar> < 2 ^ 24" using assms(6,7) by simp
qed

lemma dag_values:
  "dag_c = map (\<lambda>i. 3 * int i) [0..<DAG_N]"
  "dag_g = map (\<lambda>i. (3 * int i + 1) * (3 * int i + 2)) [0..<DAG_N]"
  "dag_f = map (\<lambda>i. 9 * int i * int i + 12 * int i + 2) [0..<DAG_N]"
proof -
  have c: "dag_c = map (\<lambda>i. 3 * int i) [0..<DAG_N]"
    unfolding dag_c_def dag_a_def dag_b_def map2_map_map by (auto simp: fadd_def fl32_exact DAG_N_def)
  have d: "dag_d = map (\<lambda>i. 3 * int i + 1) [0..<DAG_N]" "dag_e = map (\<lambda>i. 3 * int i + 2) [0..<DAG_N]"
    unfolding dag_d_def dag_e_def c by (auto simp: fadd_def fl32_exact DAG_N_def)
  have g: "dag_g = map (\<lambda>i. (3 * int i + 1) * (3 * int i + 2)) [0..<DAG_N]"
  proof -
    have "fmul (3 * int i + 1) (3 * int i + 2) = (3 * int i + 1) * (3 * int i + 2)" if "i < 64" for i
    proof -
      have "(3 * int i + 1) * (3 * int i + 2) = 9 * (int i * int i) + 9 * int i + 2" by (simp add: algebra_simps)
      then show ?thesis using fl32_quadratic [OF that, of 9 9 2] by (simp add: fmul_def)
    qed
    then show ?thesis unfolding dag_g_def d map2_map_map by (simp add: DAG_N_def)
  qed
  show "dag_c = map (\<lambda>i. 3 * int i) [0..<DAG_N]" "dag_g = map (\<lambda>i. (3 * int i + 1) * (3 * int i + 2)) [0..<DAG_N]"
    by (fact c g)+
  show "dag_f = map (\<lambda>i. 9 * int i * int i + 12 * int i + 2) [0..<DAG_N]"
  proof -
    have "fadd ((3 * int i + 1) * (3 * int i + 2)) (3 * int i) = 9 * int i * int i + 12 * int i + 2" if "i < 64" for i
    proof -
      have "(3 * int i + 1) * (3 * int i + 2) + 3 * int i = 9 * (int i * int i) + 12 * int i + 2" by (simp add: algebra_simps)
      then have "fadd ((3 * int i + 1) * (3 * int i + 2)) (3 * int i) = 9 * (int i * int i) + 12 * int i + 2"
        unfolding fadd_def using fl32_quadratic [OF that, of 9 12 2] by (auto simp only:)
      then show ?thesis by (simp only: mult.assoc)
    qed
    then show ?thesis unfolding dag_f_def c g map2_map_map by (simp add: DAG_N_def)
  qed
qed

lemma dag_expected_exact: "i < 64 \<Longrightarrow> dag_expected i = 9 * int i * int i + 12 * int i + 2"
  using fl32_quadratic [of i 9 12 0] fl32_quadratic [of i 9 12 2] fl32_quadratic [of i 9 0 0] fl32_quadratic [of i 0 9 0]
    fl32_quadratic [of i 0 12 0] fl32_quadratic [of i 0 1 0]
  by (simp add: dag_expected_def fadd_def fmul_def mult.assoc)

lemma dag_no_errors: "dag_errors dag_f = 0"
  by (auto simp: dag_errors_def dag_values dag_expected_exact DAG_N_def fsub_def fl32_def off_by_more_def)

lemma dag_ops_idle:
  assumes "idle_at 0 0 s"
  shows "\<exists>s'. dag_ops s = Inr s' \<and> idle_at 1280 0 s' \<and> o_next_tensor_handle s' = o_next_tensor_handle s + 5 \<and>
    tally s' = (o_scope_begin_count s + 2, o_scope_end_count s + 2, o_free_tensor_count s + 4, o_heap_block_count s,
      o_tasks_submitted s, o_coord s)"
proof -
  let ?c = "orch_self_coord s" and ?z = "of_nat (DAG_N * 4) :: u64"
  have z: "?z = of_nat 256" by (simp add: DAG_N_def)
  obtain s1 where 1: "scope_begin s = Inr s1" "idle_at 0 1 s1" "o_next_tensor_handle s1 = o_next_tensor_handle s"
    "tally s1 = tally (s\<lparr>o_scope_begin_count := o_scope_begin_count s + 1\<rparr>)" using begin_idle [OF assms] by auto
  obtain s2 where 2: "alloc_tensor [] ?c ?z s1 = Inr (o_next_tensor_handle s1, s2)" "idle_at 256 1 s2" "tally s2 = tally s1"
    "o_next_tensor_handle s2 = o_next_tensor_handle s1 + 1" using alloc_idle [OF 1(2), of 256 ?c] z by auto
  obtain s3 where 3: "scope_begin s2 = Inr s3" "idle_at 256 2 s3" "o_next_tensor_handle s3 = o_next_tensor_handle s2"
    "tally s3 = tally (s2\<lparr>o_scope_begin_count := o_scope_begin_count s2 + 1\<rparr>)" using begin_idle [OF 2(2)] by (auto simp: numeral_2_eq_2)
  obtain s4 where 4: "alloc_tensor [] ?c ?z s3 = Inr (o_next_tensor_handle s3, s4)" "idle_at 512 2 s4" "tally s4 = tally s3"
    "o_next_tensor_handle s4 = o_next_tensor_handle s3 + 1" using alloc_idle [OF 3(2), of 256 ?c] z by auto
  obtain s5 where 5: "alloc_tensor [] ?c ?z s4 = Inr (o_next_tensor_handle s4, s5)" "idle_at 768 2 s5" "tally s5 = tally s4"
    "o_next_tensor_handle s5 = o_next_tensor_handle s4 + 1" using alloc_idle [OF 4(2), of 256 ?c] z by auto
  obtain s6 where 6: "alloc_tensor [] ?c ?z s5 = Inr (o_next_tensor_handle s5, s6)" "idle_at 1024 2 s6" "tally s6 = tally s5"
    "o_next_tensor_handle s6 = o_next_tensor_handle s5 + 1" using alloc_idle [OF 5(2), of 256 ?c] z by auto
  obtain s7 where 7: "alloc_tensor [] ?c ?z s6 = Inr (o_next_tensor_handle s6, s7)" "idle_at 1280 2 s7" "tally s7 = tally s6"
    "o_next_tensor_handle s7 = o_next_tensor_handle s6 + 1" using alloc_idle [OF 6(2), of 256 ?c] z by auto
  let ?f = "free_tensor (o_next_tensor_handle s5) (free_tensor (o_next_tensor_handle s4) (free_tensor (o_next_tensor_handle s3) s7))"
  have "idle_at 1280 (Suc 1) ?f" using 7(2) by (simp add: free_idle numeral_2_eq_2)
  from end_idle [OF this] obtain s8 where 8: "scope_end ?f = Inr s8" "idle_at 1280 (Suc 0) s8"
    "o_next_tensor_handle s8 = o_next_tensor_handle ?f" "tally s8 = tally (?f\<lparr>o_scope_end_count := o_scope_end_count ?f + 1\<rparr>)" by auto
  have "idle_at 1280 (Suc 0) (free_tensor (o_next_tensor_handle s1) s8)" using 8(2) by (simp add: free_idle)
  from end_idle [OF this] obtain s9 where 9: "scope_end (free_tensor (o_next_tensor_handle s1) s8) = Inr s9" "idle_at 1280 0 s9"
    "o_next_tensor_handle s9 = o_next_tensor_handle s8" "tally s9 = tally ((free_tensor (o_next_tensor_handle s1) s8)
       \<lparr>o_scope_end_count := o_scope_end_count (free_tensor (o_next_tensor_handle s1) s8) + 1\<rparr>)" by (auto simp: free_idle)
  have "dag_ops s = Inr s9"
    using 1(1) 2(1) 3(1) 4(1) 5(1) 6(1) 7(1) 8(1) 9(1) by (simp only: dag_ops_def Let_def bindR_simps prod.case)
  moreover have "o_next_tensor_handle s9 = o_next_tensor_handle s + 5"
    using 1(3) 2(4) 3(3) 4(4) 5(4) 6(4) 7(4) 8(3) 9(3) by (simp add: free_idle)
  ultimately show ?thesis
    using 9(2,4) 8(4) 7(3) 6(3) 5(3) 4(3) 3(4) 2(3) 1(4) by (simp add: tally_def free_tensor_def)
qed

section \<open>The ring kernel\<close>

text \<open>
  The states between the steps of the loops: \<open>k\<close> tensors allocated, the sizes of which are 64, 128 and so on up to \<open>64 * k\<close>, so
  \<open>32 * k * (k + 1)\<close> bytes of the heap; \<open>f\<close> freed; \<open>e\<close> scopes entered and \<open>x\<close> left.
\<close>

definition ring_at :: "nat \<Rightarrow> nat \<Rightarrow> nat \<Rightarrow> nat \<Rightarrow> nat \<Rightarrow> linqu_coordinate \<Rightarrow> ring_counts \<times> orch \<Rightarrow> bool" where
  "ring_at k f e x dep c = (\<lambda>(n, s).
     n = \<lparr>rk_total_allocs = k, rk_total_frees = f, rk_scope_enters = e, rk_scope_exits = x\<rparr> \<and>
     idle_at (32 * k * (k + 1)) dep s \<and> tally s = (e, x, f, 0, 0, c))"

lemma ring_alloc_at:
  assumes "ring_at k f e x dep c (n, s)" "k = (iter * 3 + d) * 4 + t" "k < 120" "k' = k + 1"
  obtains h n' s' where "ring_alloc here iter d t (hs, n, s) = Inr (hs @ [h], n', s')" "ring_at k' f e x dep c (n', s')"
proof -
  have "(k + 1) * (k + 2) \<le> 120 * 121" using assms(3) by (intro mult_le_mono) simp_all
  then have "32 * k * (k + 1) + (k + 1) * 64 \<le> 2 ^ 20" by (simp add: algebra_simps)
  moreover have "32 * k * (k + 1) + (k + 1) * 64 = 32 * k' * (k' + 1)" using assms(4) by (simp add: algebra_simps)
  moreover have "ring_tensor_size iter d t = of_nat ((k + 1) * 64)"
    unfolding ring_tensor_size_def RING_MAX_DEPTH_def TENSORS_PER_SCOPE_def using assms(2) by simp
  moreover have "idle_at (32 * k * (k + 1)) dep s" using assms(1) by (simp add: ring_at_def)
  ultimately obtain h s' where "alloc_tensor [] here (ring_tensor_size iter d t) s = Inr (h, s')"
    "idle_at (32 * k' * (k' + 1)) dep s'" "tally s' = tally s"
    using alloc_idle [of "32 * k * (k + 1)" dep s "(k + 1) * 64" here] by (metis add_gr_0 mult_pos_pos zero_less_numeral zero_less_one)
  then show thesis using assms(1,4) by (intro that) (auto simp: ring_alloc_def ring_at_def)
qed

lemma ring_free_at: "ring_at k f e x dep c ns \<Longrightarrow> ring_at k (f + 1) e x dep c (ring_free h ns)"
  using free_idle(1) [of _ dep h] by (auto simp: ring_at_def ring_free_def tally_def free_tensor_def)

lemma ring_begin_at:
  assumes "ring_at k f e x dep c (n, s)" "dep < 8" "e' = e + 1" "dep' = dep + 1"
  obtains s' where "scope_begin s = Inr s'" "ring_at k f e' x dep' c (n\<lparr>rk_scope_enters := rk_scope_enters n + 1\<rparr>, s')"
  using begin_idle [of _ dep s] assms by (fastforce simp: ring_at_def tally_def)

lemma ring_end_at:
  assumes "ring_at k f e x dep c (n, s)" "dep = Suc dep'" "x' = x + 1"
  obtains s' where "scope_end s = Inr s'" "ring_at k f e x' dep' c (n\<lparr>rk_scope_exits := rk_scope_exits n + 1\<rparr>, s')"
  using end_idle [of _ dep' s] assms by (fastforce simp: ring_at_def tally_def)

lemma upt_3_4: "[0..<3] = [0, 1, 2]" "[0..<4] = [0, 1, 2, 3]"
  by (simp_all add: upt_rec eval_nat_numeral)

lemma ring_depth_at:
  assumes "ring_at k f e x 1 c ns" "k = (iter * 3 + d) * 4" "k < 117" "k' = k + 4" "f' = f + 2" "e' = e + 1" "x' = x + 1"
  obtains ns' where "ring_depth here iter d ns = Inr ns'" "ring_at k' f' e' x' 1 c ns'"
proof -
  obtain n s where ns: "ns = (n, s)" by (cases ns)
  let ?n = "n\<lparr>rk_scope_enters := rk_scope_enters n + 1\<rparr>"
  obtain s0 where 0: "scope_begin s = Inr s0" "ring_at k f e' x 2 c (?n, s0)"
    by (rule ring_begin_at [OF assms(1) [unfolded ns], of e' 2]) (use assms(6) in simp_all)
  obtain h1 n1 s1 where 1: "ring_alloc here iter d 0 ([], ?n, s0) = Inr ([] @ [h1], n1, s1)" "ring_at (k + 1) f e' x 2 c (n1, s1)"
    by (rule ring_alloc_at [OF 0(2), of iter d 0 "k + 1" here "[]"]) (use assms in simp_all)
  obtain h2 n2 s2 where 2: "ring_alloc here iter d 1 ([h1], n1, s1) = Inr ([h1] @ [h2], n2, s2)" "ring_at (k + 2) f e' x 2 c (n2, s2)"
    by (rule ring_alloc_at [OF 1(2), of iter d 1 "k + 2" here "[h1]"]) (use assms in simp_all)
  obtain h3 n3 s3 where 3: "ring_alloc here iter d 2 ([h1, h2], n2, s2) = Inr ([h1, h2] @ [h3], n3, s3)" "ring_at (k + 3) f e' x 2 c (n3, s3)"
    by (rule ring_alloc_at [OF 2(2), of iter d 2 "k + 3" here "[h1, h2]"]) (use assms in simp_all)
  obtain h4 n4 s4 where 4: "ring_alloc here iter d 3 ([h1, h2, h3], n3, s3) = Inr ([h1, h2, h3] @ [h4], n4, s4)" "ring_at k' f e' x 2 c (n4, s4)"
    by (rule ring_alloc_at [OF 3(2), of iter d 3 k' here "[h1, h2, h3]"]) (use assms in simp_all)
  have al: "foldR (ring_alloc here iter d) [0..<TENSORS_PER_SCOPE] ([], ?n, s0) = Inr ([h1, h2, h3, h4], n4, s4)"
    using 1(1) 2(1) 3(1) 4(1) by (simp add: TENSORS_PER_SCOPE_def upt_3_4 del: One_nat_def)
  obtain n5 s5 where 5: "ring_free h2 (ring_free h1 (n4, s4)) = (n5, s5)" by fastforce
  have "ring_at k' f' e' x 2 c (n5, s5)"
    using ring_free_at [OF ring_free_at [OF 4(2), of h1], of h2] 5 assms(5) by simp
  then obtain s6 where "scope_end s5 = Inr s6" "ring_at k' f' e' x' 1 c (n5\<lparr>rk_scope_exits := rk_scope_exits n5 + 1\<rparr>, s6)"
    by (rule ring_end_at [of _ _ _ _ _ _ _ _ 1 x']) (use assms(7) in simp_all)
  then show thesis using 0(1) al 5 by (intro that) (simp_all add: ring_depth_def ns TENSORS_PER_SCOPE_def)
qed

lemma ring_iter_at:
  assumes "ring_at k f e x 0 c ns" "k = iter * 12" "iter < 10" "k' = k + 12" "f' = f + 6" "e' = e + 4" "x' = x + 4"
  obtains ns' where "ring_iter here iter ns = Inr ns'" "ring_at k' f' e' x' 0 c ns'"
proof -
  obtain n s where ns: "ns = (n, s)" by (cases ns)
  let ?n = "n\<lparr>rk_scope_enters := rk_scope_enters n + 1\<rparr>"
  obtain s0 where 0: "scope_begin s = Inr s0" "ring_at k f (e + 1) x 1 c (?n, s0)"
    by (rule ring_begin_at [OF assms(1) [unfolded ns], of "e + 1" 1]) simp_all
  obtain ns1 where 1: "ring_depth here iter 0 (?n, s0) = Inr ns1" "ring_at (k + 4) (f + 2) (e + 2) (x + 1) 1 c ns1"
    by (rule ring_depth_at [OF 0(2), of iter 0 "k + 4" "f + 2" "e + 2" "x + 1" here]) (use assms in simp_all)
  obtain ns2 where 2: "ring_depth here iter 1 ns1 = Inr ns2" "ring_at (k + 8) (f + 4) (e + 3) (x + 2) 1 c ns2"
    by (rule ring_depth_at [OF 1(2), of iter 1 "k + 8" "f + 4" "e + 3" "x + 2" here]) (use assms in simp_all)
  obtain ns3 where 3: "ring_depth here iter 2 ns2 = Inr ns3" "ring_at k' f' e' (x + 3) 1 c ns3"
    by (rule ring_depth_at [OF 2(2), of iter 2 k' f' e' "x + 3" here]) (use assms in simp_all)
  obtain n3 s3 where ns3: "ns3 = (n3, s3)" by (cases ns3)
  obtain s4 where 4: "scope_end s3 = Inr s4" "ring_at k' f' e' x' 0 c (n3\<lparr>rk_scope_exits := rk_scope_exits n3 + 1\<rparr>, s4)"
    by (rule ring_end_at [OF 3(2) [unfolded ns3], of 0 x']) (use assms(7) in simp_all)
  have "foldR (ring_depth here iter) [0..<RING_MAX_DEPTH] (?n, s0) = Inr (n3, s3)"
    using 1(1) 2(1) 3(1) by (simp add: RING_MAX_DEPTH_def upt_3_4 ns3 del: One_nat_def)
  with 4 0(1) show thesis by (intro that) (simp_all add: ring_iter_def ns)
qed

lemma ring_loop_at:
  assumes "ring_at 0 0 0 0 0 c ns" "i \<le> 10"
  shows "\<exists>ns'. foldR (ring_iter here) [0..<i] ns = Inr ns' \<and> ring_at (i * 12) (i * 6) (i * 4) (i * 4) 0 c ns'"
  using assms(2)
proof (induction i)
  case 0
  then show ?case using assms(1) by simp
next
  case (Suc i)
  then obtain ns1 where 1: "foldR (ring_iter here) [0..<i] ns = Inr ns1" "ring_at (i * 12) (i * 6) (i * 4) (i * 4) 0 c ns1" by auto
  obtain ns2 where "ring_iter here i ns1 = Inr ns2" "ring_at (Suc i * 12) (Suc i * 6) (Suc i * 4) (Suc i * 4) 0 c ns2"
    by (rule ring_iter_at [OF 1(2), of i "Suc i * 12" "Suc i * 6" "Suc i * 4" "Suc i * 4" here]) (use Suc.prems in simp_all)
  then show ?case using 1(1) by (simp add: foldR_append)
qed

section \<open>The result files\<close>

lemma length_dec_digits: "n < 10 ^ Suc k \<Longrightarrow> length (dec_digits n) \<le> Suc k"
proof (induction k arbitrary: n)
  case 0
  then show ?case by (subst dec_digits.simps) simp
next
  case (Suc k)
  show ?case
  proof (cases "n < 10")
    case True
    then show ?thesis by (subst dec_digits.simps) simp
  next
    case False
    have "n div 10 < 10 ^ Suc k" using Suc.prems by (simp add: less_mult_imp_div_less mult.commute)
    from Suc.IH [OF this] False show ?thesis by (subst dec_digits.simps) simp
  qed
qed

lemma length_l3: "length (to_string_u (l3_idx c)) \<le> 5"
proof -
  have "unat (l3_idx c) < 10 ^ Suc 4" using unsigned_less [of "l3_idx c", where ?'a = nat] by simp
  from length_dec_digits [OF this] show ?thesis by (simp add: to_string_u_def)
qed

lemma snprintf_buf_fits: "length s < n \<Longrightarrow> snprintf_buf n s = s"
  by (simp add: snprintf_buf_def)

lemma host_dir_fits:
  assumes "length base \<le> 200"
  shows "host_dir base c = base @ ''/L3_'' @ to_string_u (l3_idx c)"
  using assms length_l3 [of c] by (simp add: host_dir_def snprintf_buf_fits)

lemma host_path_fits:
  assumes "length base \<le> 200" "length file \<le> 20"
  shows "snprintf_buf 256 (host_dir base c @ file) = base @ ''/L3_'' @ to_string_u (l3_idx c) @ file"
  using assms length_l3 [of c] by (simp add: host_dir_fits snprintf_buf_fits)

text \<open>The calls on the orchestrator, the values and the file of the tensor kernel, from the state in which a daemon starts an entry.\<close>

lemma dag_entry_start:
  assumes "start_state s"
  shows "\<exists>s'. dag_L3_entry os args reg (s, m) =
      Inr (orchestration_done s', fwrite_new os (snprintf_buf 256 (host_dir (getenv_or os ''LINQU_DAG_OUTPUT'' ''/tmp/linqu_dag_output'') (o_coord s) @ ''/result.json''))
        (dag_result (ko_pid os) (o_coord s)) (make_dirs (host_dir (getenv_or os ''LINQU_DAG_OUTPUT'' ''/tmp/linqu_dag_output'') (o_coord s)) m)) \<and>
    idle_at 1280 0 s' \<and> tally s' = (2, 2, 4, 0, 0, o_coord s)"
  using dag_ops_idle [OF start_idle(1) [OF assms]] start_idle(2) [OF assms]
  by (auto simp: dag_L3_entry_def orch_self_coord_def tally_def Let_def)

lemma ring_entry_start:
  assumes "start_state s"
  shows "\<exists>n s'. ring_L3_entry os args reg (s, m) =
      Inr (orchestration_done s', fwrite_new os (snprintf_buf 256 (host_dir (getenv_or os ''LINQU_RING_OUTPUT'' ''/tmp/linqu_ring_output'') (o_coord s) @ ''/ring_result.json''))
        (ring_result (ko_pid os) (o_coord s) n) (make_dirs (host_dir (getenv_or os ''LINQU_RING_OUTPUT'' ''/tmp/linqu_ring_output'') (o_coord s)) m)) \<and>
    ring_at 120 60 40 40 0 (o_coord s) (n, s')"
proof -
  let ?n = "\<lparr>rk_total_allocs = 0, rk_total_frees = 0, rk_scope_enters = 0, rk_scope_exits = 0\<rparr>"
  have "ring_at 0 0 0 0 0 (o_coord s) (?n, s)" using start_idle [OF assms] by (simp add: ring_at_def)
  from ring_loop_at [OF this, of RING_ITERATIONS "o_coord s"] obtain n s' where
    "foldR (ring_iter (o_coord s)) [0..<RING_ITERATIONS] (?n, s) = Inr (n, s')" "ring_at 120 60 40 40 0 (o_coord s) (n, s')"
    by (auto simp: RING_ITERATIONS_def)
  then show ?thesis by (auto simp: ring_L3_entry_def orch_self_coord_def Let_def)
qed

lemma done_idle [simp]:
  "idle_at h k (orchestration_done s) = idle_at h k s" "tally (orchestration_done s) = tally s" "o_done (orchestration_done s)"
  by (simp_all add: orchestration_done_def idle_at_def tally_def)

text \<open>The heap and the counters at the end, as the profile and a snapshot of the ring would show them.\<close>

definition heap_state :: "orch \<Rightarrow> nat \<times> nat \<times> nat" where
  "heap_state s = (unat (hr_top (o_heap_ring s)), unat (hr_tail (o_heap_ring s)), o_heap_block_count s)"

section \<open>Properties\<close>

lemma dag_element: "i < 64 \<Longrightarrow> dag_f ! i = 9 * int i * int i + 12 * int i + 2"
  by (simp add: dag_values DAG_N_def)

lemma run_call_writes:
  assumes "code_cache_load dl (ct_kernel_so_name task) m (nd_code_cache d) = (k, cc)" "lk_entry_fn k = Some entry"
    and "\<And>s. start_state s \<Longrightarrow> o_coord s = nd_coord d \<Longrightarrow>
      \<exists>s' dir. entry (kernel_args (ct_params task)) (nd_registry d) (s, m) =
        Inr (s', fwrite_new os path content (make_dirs dir m)) \<and> P s'"
    and "ko_fopen os path"
  shows "\<exists>s d' m'. run_call dl task m d = Inr (d', m') \<and> mc_files m' = (mc_files m)(path \<mapsto> map byte_of_char content) \<and>
    nd_task_profiles d' = nd_task_profiles d @ [generate_profile (coord_to_string (nd_coord d)) s] \<and> P s"
proof -
  have "\<exists>s' m'. entry (kernel_args (ct_params task)) (nd_registry d) (s, m) = Inr (s', m') \<and>
      mc_files m' = (mc_files m)(path \<mapsto> map byte_of_char content) \<and> P s'" if "start_state s" "o_coord s = nd_coord d" for s
    using assms(3) [OF that] assms(4) by (auto simp: fwrite_new_def make_dirs_def)
  from run_call_entry [OF assms(1,2) this] show ?thesis by fastforce
qed

text \<open>C14. A call of the tensor kernel computes what its comment promises. The entry returns, every intermediate value is exact, element
  \<open>i\<close> of the result is \<open>9 * i * i + 12 * i + 2\<close> as is the value it is compared with, no element is counted as an error, and the file holds the values
  verify_dag.sh looks for. The profile shows two scopes entered and left and four tensors freed; the five tensors hold
  1280 bytes of the heap at the end, since without tasks nothing is retired.\<close>

theorem dag_call_result:
  assumes "code_cache_load dl (ct_kernel_so_name task) m (nd_code_cache d) = (k, cc)" "lk_entry_fn k = Some (dag_L3_entry os)"
    and "getenv_or os ''LINQU_DAG_OUTPUT'' ''/tmp/linqu_dag_output'' = base" "length base \<le> 200"
    and "ko_fopen os (base @ ''/L3_'' @ to_string_u (l3_idx (nd_coord d)) @ ''/result.json'')"
  shows "(\<forall>i < 64. dag_f ! i = 9 * int i * int i + 12 * int i + 2 \<and> dag_expected i = dag_f ! i) \<and>
    (\<exists>s d' m'. run_call dl task m d = Inr (d', m') \<and>
      mc_files m' = (mc_files m)(base @ ''/L3_'' @ to_string_u (l3_idx (nd_coord d)) @ ''/result.json'' \<mapsto> map byte_of_char
        (''{'' @ [NL] @ result_line ''pid'' (dec_digits (ko_pid os)) @ result_line ''l3_idx'' (to_string_u (l3_idx (nd_coord d))) @
         result_line ''N'' ''64'' @ result_line ''errors'' ''0'' @ result_line ''tensors_allocated'' ''5'' @ result_line ''tensors_freed'' ''4'' @
         result_line ''f_0'' ''2.000000'' @ result_line ''f_1'' ''23.000000'' @ result_last ''f_63'' ''36479.000000'' @ ''}'' @ [NL])) \<and>
      nd_task_profiles d' = nd_task_profiles d @ [generate_profile (coord_to_string (nd_coord d)) s] \<and>
      o_scope_begin_count s = 2 \<and> o_scope_end_count s = 2 \<and> o_free_tensor_count s = 4 \<and> heap_state s = (1280, 0, 0) \<and> o_done s)"
proof -
  have "dec_digits 0 = ''0''" "dec_digits 64 = ''64''" "print_f6 2 = ''2.000000''" "print_f6 23 = ''23.000000''"
    "print_f6 36479 = ''36479.000000''" by (simp_all add: print_f6_def print_int_def dec_digits.simps char_of_def bit_Suc_0_iff)
  moreover have "dag_f ! 0 = 2" "dag_f ! 1 = 23" "dag_f ! 63 = 36479" by (simp_all add: dag_values DAG_N_def)
  ultimately have content: "dag_result (ko_pid os) c =
      ''{'' @ [NL] @ result_line ''pid'' (dec_digits (ko_pid os)) @ result_line ''l3_idx'' (to_string_u (l3_idx c)) @
       result_line ''N'' ''64'' @ result_line ''errors'' ''0'' @ result_line ''tensors_allocated'' ''5'' @ result_line ''tensors_freed'' ''4'' @
       result_line ''f_0'' ''2.000000'' @ result_line ''f_1'' ''23.000000'' @ result_last ''f_63'' ''36479.000000'' @ ''}'' @ [NL]" for c
    by (simp only: dag_result_def dag_no_errors DAG_N_def) simp
  have path: "snprintf_buf 256 (host_dir base c @ ''/result.json'') = base @ ''/L3_'' @ to_string_u (l3_idx c) @ ''/result.json''" for c
    using host_path_fits [OF assms(4)] by simp
  have "\<exists>s' dir. dag_L3_entry os (kernel_args (ct_params task)) (nd_registry d) (s, m) =
      Inr (s', fwrite_new os (base @ ''/L3_'' @ to_string_u (l3_idx (nd_coord d)) @ ''/result.json'')
        (dag_result (ko_pid os) (nd_coord d)) (make_dirs dir m)) \<and>
      (o_scope_begin_count s' = 2 \<and> o_scope_end_count s' = 2 \<and> o_free_tensor_count s' = 4 \<and> heap_state s' = (1280, 0, 0) \<and> o_done s')"
    if s: "start_state s" "o_coord s = nd_coord d" for s
    using dag_entry_start [OF s(1), of os "kernel_args (ct_params task)" "nd_registry d" m]
    by (auto simp: assms(3) path s(2) heap_state_def idle_at_def tally_def orchestration_done_def)
  from run_call_writes [OF assms(1,2) this assms(5)] show ?thesis
    unfolding content using dag_element dag_expected_exact by (intro conjI) simp_all
qed

text \<open>A daemon that has received a blob the linker turns into the kernel.\<close>

lemma ex_loads_with:
  "\<exists>d m k cc. serves ex_pod_daemon d \<and> lk_entry_fn k = Some entry \<and>
    code_cache_load (\<lambda>_. Some \<lparr>ki_entry = Some entry, ki_config = True\<rparr>) (ct_kernel_so_name (call_payload 0 (blob_name 5) []))
      (m\<lparr>mc_files := (mc_files m)(file d \<mapsto> content)\<rparr>) (nd_code_cache d) = (k, cc)"
proof -
  obtain d m path where d: "handle_one_message ex_os (replicate 40 (Ready 0)) ex_pod_daemon ex_pod_machine = Inr (True, d, m)"
    "cc_loaded (nd_code_cache d) = Map.empty" "cc_name_to_path (nd_code_cache d) (blob_name 5) = Some path"
    "mc_files m path = Some [1]"
    using ex_pod_receives by blast
  have "serves ex_pod_daemon d" using serves.turn [OF serves.idle d(1)] .
  moreover have "\<exists>k cc. code_cache_load (\<lambda>_. Some \<lparr>ki_entry = Some entry, ki_config = True\<rparr>)
      (ct_kernel_so_name (call_payload 0 (blob_name 5) [])) (m\<lparr>mc_files := (mc_files m)(file d \<mapsto> content)\<rparr>) (nd_code_cache d) = (k, cc) \<and>
      lk_entry_fn k = Some entry"
    using d(2-4) by (simp add: code_cache_load_def call_payload_def Let_def)
  ultimately show ?thesis by blast
qed

lemma ex_loads:
  "\<exists>d m k cc. serves ex_pod_daemon d \<and> lk_entry_fn k = Some entry \<and>
    code_cache_load (\<lambda>_. Some \<lparr>ki_entry = Some entry, ki_config = True\<rparr>) (ct_kernel_so_name (call_payload 0 (blob_name 5) [])) m
      (nd_code_cache d) = (k, cc)"
  using ex_loads_with by blast

theorem dag_call_result_witness:
  "\<exists>d m s d' m'. serves ex_pod_daemon d \<and>
    run_call (\<lambda>_. Some \<lparr>ki_entry = Some (dag_L3_entry ex_kernel_os), ki_config = True\<rparr>) (call_payload 0 (blob_name 5) []) m d = Inr (d', m') \<and>
    mc_files m' (''/tmp/linqu_dag_output/L3_'' @ to_string_u (l3_idx (nd_coord d)) @ ''/result.json'') \<noteq> None \<and>
    nd_task_profiles d' = nd_task_profiles d @ [generate_profile (coord_to_string (nd_coord d)) s] \<and> o_free_tensor_count s = 4"
proof -
  obtain d m k cc where d: "serves ex_pod_daemon d" "lk_entry_fn k = Some (dag_L3_entry ex_kernel_os)"
    "code_cache_load (\<lambda>_. Some \<lparr>ki_entry = Some (dag_L3_entry ex_kernel_os), ki_config = True\<rparr>)
      (ct_kernel_so_name (call_payload 0 (blob_name 5) [])) m (nd_code_cache d) = (k, cc)"
    using ex_loads by blast
  have os: "getenv_or ex_kernel_os ''LINQU_DAG_OUTPUT'' ''/tmp/linqu_dag_output'' = ''/tmp/linqu_dag_output''"
    "ko_fopen ex_kernel_os p" for p by (simp_all add: getenv_or_def ex_kernel_os_def)
  have "length ''/tmp/linqu_dag_output'' \<le> 200" by simp
  from conjunct2 [OF dag_call_result [OF d(3,2) os(1) this os(2)]] d(1) show ?thesis by fastforce
qed

text \<open>C23. The ring kernel balances its scopes and does not stress the ring. Its entry returns, with 120 tensors allocated, 60 freed, 40 scopes entered and left,
  and writes \<^verbatim>\<open>"balanced": true\<close>. But nothing is retired: to free a tensor only counts it, the tail of the heap stays at zero, the top
  ends at 464640 of the 1048576 bytes, no allocation waits and the ring never wraps around, while the kernel's comment says it does.\<close>

theorem ring_call_result:
  assumes "code_cache_load dl (ct_kernel_so_name task) m (nd_code_cache d) = (k, cc)" "lk_entry_fn k = Some (ring_L3_entry os)"
    and "getenv_or os ''LINQU_RING_OUTPUT'' ''/tmp/linqu_ring_output'' = base" "length base \<le> 200"
    and "ko_fopen os (base @ ''/L3_'' @ to_string_u (l3_idx (nd_coord d)) @ ''/ring_result.json'')"
  shows "\<exists>s d' m'. run_call dl task m d = Inr (d', m') \<and>
      mc_files m' = (mc_files m)(base @ ''/L3_'' @ to_string_u (l3_idx (nd_coord d)) @ ''/ring_result.json'' \<mapsto> map byte_of_char
        (''{'' @ [NL] @ result_line ''pid'' (dec_digits (ko_pid os)) @ result_line ''l3_idx'' (to_string_u (l3_idx (nd_coord d))) @
         result_line ''iterations'' ''10'' @ result_line ''max_depth'' ''3'' @ result_line ''total_allocs'' ''120'' @
         result_line ''total_frees'' ''60'' @ result_line ''scope_enters'' ''40'' @ result_line ''scope_exits'' ''40'' @
         result_last ''balanced'' ''true'' @ ''}'' @ [NL])) \<and>
      nd_task_profiles d' = nd_task_profiles d @ [generate_profile (coord_to_string (nd_coord d)) s] \<and>
      o_scope_begin_count s = 40 \<and> o_scope_end_count s = 40 \<and> o_free_tensor_count s = 60 \<and>
      hr_capacity (o_heap_ring s) = 2 ^ 20 \<and> heap_state s = (464640, 0, 0) \<and> o_done s"
proof -
  have "dec_digits 3 = ''3''" "dec_digits 10 = ''10''" "dec_digits 40 = ''40''" "dec_digits 60 = ''60''" "dec_digits 120 = ''120''"
    by (simp_all add: dec_digits.simps char_of_def bit_Suc_0_iff)
  then have content: "ring_result (ko_pid os) c \<lparr>rk_total_allocs = 120, rk_total_frees = 60, rk_scope_enters = 40, rk_scope_exits = 40\<rparr> =
        ''{'' @ [NL] @ result_line ''pid'' (dec_digits (ko_pid os)) @ result_line ''l3_idx'' (to_string_u (l3_idx c)) @
         result_line ''iterations'' ''10'' @ result_line ''max_depth'' ''3'' @ result_line ''total_allocs'' ''120'' @
         result_line ''total_frees'' ''60'' @ result_line ''scope_enters'' ''40'' @ result_line ''scope_exits'' ''40'' @
         result_last ''balanced'' ''true'' @ ''}'' @ [NL]" for c
    by (simp add: ring_result_def RING_ITERATIONS_def RING_MAX_DEPTH_def)
  have path: "snprintf_buf 256 (host_dir base c @ ''/ring_result.json'') = base @ ''/L3_'' @ to_string_u (l3_idx c) @ ''/ring_result.json''" for c
    using host_path_fits [OF assms(4)] by simp
  have "\<exists>s' dir. ring_L3_entry os (kernel_args (ct_params task)) (nd_registry d) (s, m) =
      Inr (s', fwrite_new os (base @ ''/L3_'' @ to_string_u (l3_idx (nd_coord d)) @ ''/ring_result.json'')
        (ring_result (ko_pid os) (nd_coord d) \<lparr>rk_total_allocs = 120, rk_total_frees = 60, rk_scope_enters = 40, rk_scope_exits = 40\<rparr>)
        (make_dirs dir m)) \<and>
      (o_scope_begin_count s' = 40 \<and> o_scope_end_count s' = 40 \<and> o_free_tensor_count s' = 60 \<and>
       hr_capacity (o_heap_ring s') = 2 ^ 20 \<and> heap_state s' = (464640, 0, 0) \<and> o_done s')"
    if s: "start_state s" "o_coord s = nd_coord d" for s
    using ring_entry_start [OF s(1), of os "kernel_args (ct_params task)" "nd_registry d" m]
    by (auto simp: assms(3) path s(2) heap_state_def ring_at_def idle_at_def tally_def orchestration_done_def)
  from run_call_writes [OF assms(1,2) this assms(5)] show ?thesis unfolding content .
qed

theorem ring_call_result_witness:
  "\<exists>d m s d' m'. serves ex_pod_daemon d \<and>
    run_call (\<lambda>_. Some \<lparr>ki_entry = Some (ring_L3_entry ex_kernel_os), ki_config = True\<rparr>) (call_payload 0 (blob_name 5) []) m d = Inr (d', m') \<and>
    nd_task_profiles d' = nd_task_profiles d @ [generate_profile (coord_to_string (nd_coord d)) s] \<and> heap_state s = (464640, 0, 0)"
proof -
  obtain d m k cc where d: "serves ex_pod_daemon d" "lk_entry_fn k = Some (ring_L3_entry ex_kernel_os)"
    "code_cache_load (\<lambda>_. Some \<lparr>ki_entry = Some (ring_L3_entry ex_kernel_os), ki_config = True\<rparr>)
      (ct_kernel_so_name (call_payload 0 (blob_name 5) [])) m (nd_code_cache d) = (k, cc)"
    using ex_loads by blast
  have os: "getenv_or ex_kernel_os ''LINQU_RING_OUTPUT'' ''/tmp/linqu_ring_output'' = ''/tmp/linqu_ring_output''"
    "ko_fopen ex_kernel_os p" for p by (simp_all add: getenv_or_def ex_kernel_os_def)
  have "length ''/tmp/linqu_ring_output'' \<le> 200" by simp
  from ring_call_result [OF d(3,2) os(1) this os(2)] d(1) show ?thesis by blast
qed

section \<open>The file system kernel\<close>

text \<open>The text of a data file: every number is followed by white space.\<close>

definition data_text :: "(i32 \<times> string) list \<Rightarrow> string" where
  "data_text items = concat (map (\<lambda>(v, sep). print_int v @ sep) items)"

definition data_ok :: "(i32 \<times> string) list \<Rightarrow> bool" where
  "data_ok items \<longleftrightarrow> (\<forall>(v, sep) \<in> set items. - (2 ^ 31) \<le> v \<and> v < 2 ^ 31 \<and> sep \<noteq> [] \<and> (\<forall>c \<in> set sep. is_space c))"

lemma print_int_first: "\<exists>c s. print_int v = c # s \<and> \<not> is_space c"
proof -
  obtain c s where c: "dec_digits (nat \<bar>v\<bar>) = c # s" by (meson dec_digits_ne neq_Nil_conv)
  with dec_digits_digits [of "nat \<bar>v\<bar>"] have "\<not> is_space c" using digit_not_space by auto
  with c show ?thesis by (auto simp: print_int_def is_space_def)
qed

lemma read_print_int: "read_sign (print_int v @ rest) = (v < 0, dec_digits (nat \<bar>v\<bar>) @ rest)"
proof (cases "v < 0")
  case True
  then show ?thesis by (simp add: print_int_def read_sign_def)
next
  case False
  obtain c s where c: "dec_digits (nat \<bar>v\<bar>) = c # s" by (meson dec_digits_ne neq_Nil_conv)
  with dec_digits_digits [of "nat \<bar>v\<bar>"] have "c \<noteq> CHR ''-''" "c \<noteq> CHR ''+''" using digit_not_space by auto
  with False c show ?thesis by (simp add: print_int_def read_sign_def)
qed

lemma scan_int_print:
  assumes "\<forall>c \<in> set ws. is_space c" "- (2 ^ 31) \<le> v" "v < 2 ^ 31" "rest = [] \<or> \<not> is_digit (hd rest)"
  shows "scan_int (ws @ print_int v @ rest) = Some (v, rest)"
proof -
  have sp: "dropWhile is_space (ws @ print_int v @ rest) = print_int v @ rest"
    using assms(1) print_int_first [of v] by (auto simp: dropWhile_append2)
  have dg: "take_digits (dec_digits (nat \<bar>v\<bar>) @ rest) = (dec_digits (nat \<bar>v\<bar>), rest)"
    using assms(4) by (intro take_digits_dec) auto
  have "sint (word_of_int v :: u32) = v" using assms(2,3) by (rule sint_word_of_int32)
  moreover have "(if v < 0 then max (- int (nat \<bar>v\<bar>)) (- (2 ^ 63)) else min (int (nat \<bar>v\<bar>)) (2 ^ 63 - 1)) = v"
    using assms(2,3) by auto
  ultimately show ?thesis
    unfolding scan_int_def sp read_print_int Let_def prod.case dg dec_value_dec_digits by (simp only: dec_digits_ne if_False)
qed

lemma scan_ints_data:
  assumes "data_ok items" "\<forall>c \<in> set ws. is_space c"
  shows "scan_ints (ws @ data_text items) = map fst items"
  using assms
proof (induction items arbitrary: ws)
  case Nil
  then have "dropWhile is_space ws = []" by simp
  then have "scan_int ws = None" unfolding scan_int_def by (simp only: read_sign_def take_digits_def list.case prod.case Let_def) simp
  then show ?case by (subst scan_ints.simps) (simp add: data_text_def)
next
  case (Cons item items)
  obtain v sep where item: "item = (v, sep)" by (cases item)
  have ok: "- (2 ^ 31) \<le> v" "v < 2 ^ 31" "sep \<noteq> []" "\<forall>c \<in> set sep. is_space c" "data_ok items"
    using Cons.prems(1) by (auto simp: data_ok_def item)
  have "\<not> is_digit (hd (sep @ data_text items))" using ok(3,4) digit_not_space by (cases sep) auto
  with scan_int_print [OF Cons.prems(2) ok(1,2)] have "scan_int (ws @ data_text (item # items)) = Some (v, sep @ data_text items)"
    by (simp add: data_text_def item)
  then show ?case using Cons.IH [OF ok(5,4)] by (subst scan_ints.simps) (simp add: item)
qed

lemma dfs_fold:
  "fold (\<lambda>v (sum, cnt). (sum + word_of_int v, cnt + 1)) vs (a, n) = (a + word_of_int (sum_list vs), n + length vs)"
  for a :: u64 and n :: nat
  by (induction vs arbitrary: a n) (simp_all add: algebra_simps)

lemma dfs_read_data:
  assumes "mc_files m path = Some (map byte_of_char (data_text items))" "data_ok items"
  shows "dfs_read path m = (word_of_int (sum_list (map fst items)), length items)"
  using scan_ints_data [OF assms(2), of "[]"] assms(1) by (simp add: dfs_read_def dfs_fold [simplified])

text \<open>The number of a host in the cluster, as a natural number.\<close>

definition host_number :: "linqu_coordinate \<Rightarrow> nat" where
  "host_number c = unat (l6_idx c) * 1024 + unat (l5_idx c) * 64 + unat (l4_idx c) * 16 + unat (l3_idx c)"

lemma print_host_number: "print_int (dfs_global_l3 c) = dec_digits (host_number c)"
proof -
  have "dfs_global_l3 c = int (host_number c)" by (simp add: dfs_global_l3_def coord_int_def host_number_def)
  then show ?thesis by (simp add: print_int_def)
qed

lemma unat_word_of_int: "unat (word_of_int x :: u64) = nat (x mod 2 ^ 64)"
  unfolding unat_eq_nat_uint uint_word_of_int by simp

lemma dfs_paths:
  assumes "length base \<le> 400"
  shows "dfs_data_path base c = base @ ''/L3_'' @ dec_digits (host_number c) @ ''/data.txt''"
    "dfs_out_dir base c = base @ ''/L3_'' @ dec_digits (host_number c)"
    "snprintf_buf 512 (dfs_out_dir base c @ ''/sum.json'') = base @ ''/L3_'' @ dec_digits (host_number c) @ ''/sum.json''"
proof -
  have "unat (l6_idx c) < 256" "unat (l5_idx c) < 256" "unat (l4_idx c) < 256" "unat (l3_idx c) < 65536"
    using unsigned_less [of "l6_idx c", where ?'a = nat] unsigned_less [of "l5_idx c", where ?'a = nat]
      unsigned_less [of "l4_idx c", where ?'a = nat] unsigned_less [of "l3_idx c", where ?'a = nat] by simp_all
  then have "host_number c < 10 ^ Suc 5" by (simp add: host_number_def)
  note len = length_dec_digits [OF this]
  show "dfs_data_path base c = base @ ''/L3_'' @ dec_digits (host_number c) @ ''/data.txt''"
    unfolding dfs_data_path_def print_host_number by (rule snprintf_buf_fits) (use assms len in simp)
  show d: "dfs_out_dir base c = base @ ''/L3_'' @ dec_digits (host_number c)"
    unfolding dfs_out_dir_def print_host_number by (rule snprintf_buf_fits) (use assms len in simp)
  show "snprintf_buf 512 (dfs_out_dir base c @ ''/sum.json'') = base @ ''/L3_'' @ dec_digits (host_number c) @ ''/sum.json''"
    unfolding d using assms len by (simp add: snprintf_buf_fits)
qed

text \<open>C22. A call of the file system kernel sums its host's file. Where the file of the host's number holds 32-bit numbers separated by white space, the entry returns, the result
  file holds how many there are and their sum as 64 bits hold it; the file is read with \<^verbatim>\<open>fscanf\<close>, so this is a round trip from the text. Where there is no file it reports 0 and 0.\<close>

theorem dfs_call_result:
  assumes "code_cache_load dl (ct_kernel_so_name task) m (nd_code_cache d) = (k, cc)" "lk_entry_fn k = Some (dfs_L3_entry os)"
    and "getenv_or os ''LINQU_DFS_BASE'' ''/tmp/lingqu_dfs'' = base" "length base \<le> 400"
    and "getenv_or os ''LINQU_DFS_OUTPUT'' ''/tmp/lingqu_dfs_output'' = out" "length out \<le> 400"
    and "host = dec_digits (host_number (nd_coord d))"
    and "mc_files m (base @ ''/L3_'' @ host @ ''/data.txt'') = Some (map byte_of_char (data_text items)) \<and> data_ok items \<or>
      mc_files m (base @ ''/L3_'' @ host @ ''/data.txt'') = None \<and> items = []"
    and "ko_fopen os (out @ ''/L3_'' @ host @ ''/sum.json'')"
  shows "\<exists>s d' m'. run_call dl task m d = Inr (d', m') \<and>
    mc_files m' = (mc_files m)(out @ ''/L3_'' @ host @ ''/sum.json'' \<mapsto> map byte_of_char
      (''{'' @ [NL] @ result_line ''global_l3'' host @ result_line ''l3_idx'' (to_string_u (l3_idx (nd_coord d))) @
       result_line ''l4_idx'' (to_string_u (l4_idx (nd_coord d))) @ result_line ''l5_idx'' (to_string_u (l5_idx (nd_coord d))) @
       result_line ''count'' (dec_digits (length items)) @
       result_last ''local_sum'' (dec_digits (nat (sum_list (map fst items) mod 2 ^ 64))) @ ''}'' @ [NL])) \<and>
    nd_task_profiles d' = nd_task_profiles d @ [generate_profile (coord_to_string (nd_coord d)) s] \<and> o_done s"
proof -
  have read: "dfs_read (dfs_data_path base (nd_coord d)) m = (word_of_int (sum_list (map fst items)), length items)"
  proof (cases "mc_files m (base @ ''/L3_'' @ host @ ''/data.txt'')")
    case None
    then show ?thesis using assms(7,8) by (auto simp: dfs_paths(1) [OF assms(4)] dfs_read_def)
  next
    case (Some bytes)
    with assms(8) have "dfs_read (base @ ''/L3_'' @ host @ ''/data.txt'') m = (word_of_int (sum_list (map fst items)), length items)"
      by (intro dfs_read_data) auto
    then show ?thesis using assms(7) by (simp add: dfs_paths(1) [OF assms(4)])
  qed
  have content: "dfs_result (nd_coord d) (length items) (word_of_int (sum_list (map fst items))) =
      ''{'' @ [NL] @ result_line ''global_l3'' host @ result_line ''l3_idx'' (to_string_u (l3_idx (nd_coord d))) @
       result_line ''l4_idx'' (to_string_u (l4_idx (nd_coord d))) @ result_line ''l5_idx'' (to_string_u (l5_idx (nd_coord d))) @
       result_line ''count'' (dec_digits (length items)) @
       result_last ''local_sum'' (dec_digits (nat (sum_list (map fst items) mod 2 ^ 64))) @ ''}'' @ [NL]"
    by (simp add: dfs_result_def print_host_number assms(7) to_string_u_def unat_word_of_int)
  have "\<exists>s' dir. dfs_L3_entry os (kernel_args (ct_params task)) (nd_registry d) (s, m) =
      Inr (s', fwrite_new os (out @ ''/L3_'' @ host @ ''/sum.json'')
        (dfs_result (nd_coord d) (length items) (word_of_int (sum_list (map fst items)))) (make_dirs dir m)) \<and> o_done s'"
    if "o_coord s = nd_coord d" for s
    using that assms(7) read by (auto simp: dfs_L3_entry_def orch_self_coord_def assms(3,5) dfs_paths(3) [OF assms(6)] Let_def)
  then show ?thesis unfolding content by (intro run_call_writes [OF assms(1,2) _ assms(9)])
qed

text \<open>A file with the numbers 5, 10 and -2.\<close>

definition ex_items :: "(i32 \<times> string) list" where
  "ex_items = [(5, '' ''), (10, [NL]), (-2, [NL])]"

theorem dfs_call_result_witness:
  "\<exists>d m s d' m'. serves ex_pod_daemon d \<and>
    mc_files m (''/tmp/lingqu_dfs/L3_'' @ dec_digits (host_number (nd_coord d)) @ ''/data.txt'') = Some (map byte_of_char (data_text ex_items)) \<and>
    run_call (\<lambda>_. Some \<lparr>ki_entry = Some (dfs_L3_entry ex_kernel_os), ki_config = True\<rparr>) (call_payload 0 (blob_name 5) []) m d = Inr (d', m') \<and>
    mc_files m' (''/tmp/lingqu_dfs_output/L3_'' @ dec_digits (host_number (nd_coord d)) @ ''/sum.json'') = Some (map byte_of_char
      (''{'' @ [NL] @ result_line ''global_l3'' (dec_digits (host_number (nd_coord d))) @ result_line ''l3_idx'' (to_string_u (l3_idx (nd_coord d))) @
       result_line ''l4_idx'' (to_string_u (l4_idx (nd_coord d))) @ result_line ''l5_idx'' (to_string_u (l5_idx (nd_coord d))) @
       result_line ''count'' (dec_digits 3) @ result_last ''local_sum'' (dec_digits 13) @ ''}'' @ [NL])) \<and>
    nd_task_profiles d' = nd_task_profiles d @ [generate_profile (coord_to_string (nd_coord d)) s]"
proof -
  let ?p = "\<lambda>d. ''/tmp/lingqu_dfs'' @ ''/L3_'' @ dec_digits (host_number (nd_coord d)) @ ''/data.txt''"
  let ?b = "map byte_of_char (data_text ex_items)"
  let ?dl = "\<lambda>_. Some \<lparr>ki_entry = Some (dfs_L3_entry ex_kernel_os), ki_config = True\<rparr>"
  obtain d m k cc where d: "serves ex_pod_daemon d" "lk_entry_fn k = Some (dfs_L3_entry ex_kernel_os)"
    "code_cache_load ?dl (ct_kernel_so_name (call_payload 0 (blob_name 5) [])) (m\<lparr>mc_files := (mc_files m)(?p d \<mapsto> ?b)\<rparr>) (nd_code_cache d) = (k, cc)"
    using ex_loads_with [of "dfs_L3_entry ex_kernel_os" ?p ?b] by blast
  have os: "getenv_or ex_kernel_os ''LINQU_DFS_BASE'' ''/tmp/lingqu_dfs'' = ''/tmp/lingqu_dfs''"
    "getenv_or ex_kernel_os ''LINQU_DFS_OUTPUT'' ''/tmp/lingqu_dfs_output'' = ''/tmp/lingqu_dfs_output''"
    "ko_fopen ex_kernel_os p" for p by (simp_all add: getenv_or_def ex_kernel_os_def)
  have len: "length ''/tmp/lingqu_dfs'' \<le> 400" "length ''/tmp/lingqu_dfs_output'' \<le> 400" by simp_all
  have ok: "data_ok ex_items" "length ex_items = 3" "nat (sum_list (map fst ex_items) mod 2 ^ 64) = 13"
    by (simp_all add: data_ok_def ex_items_def is_space_def)
  have "mc_files (m\<lparr>mc_files := (mc_files m)(?p d \<mapsto> ?b)\<rparr>) (?p d) = Some ?b \<and> data_ok ex_items \<or>
      mc_files (m\<lparr>mc_files := (mc_files m)(?p d \<mapsto> ?b)\<rparr>) (?p d) = None \<and> ex_items = []" using ok(1) by simp
  from dfs_call_result [OF d(3,2) os(1) len(1) os(2) len(2) refl this os(3)] obtain s d' m' where
    r: "run_call ?dl (call_payload 0 (blob_name 5) []) (m\<lparr>mc_files := (mc_files m)(?p d \<mapsto> ?b)\<rparr>) d = Inr (d', m')"
      "mc_files m' (''/tmp/lingqu_dfs_output'' @ ''/L3_'' @ dec_digits (host_number (nd_coord d)) @ ''/sum.json'') = Some (map byte_of_char
      (''{'' @ [NL] @ result_line ''global_l3'' (dec_digits (host_number (nd_coord d))) @ result_line ''l3_idx'' (to_string_u (l3_idx (nd_coord d))) @
       result_line ''l4_idx'' (to_string_u (l4_idx (nd_coord d))) @ result_line ''l5_idx'' (to_string_u (l5_idx (nd_coord d))) @
       result_line ''count'' (dec_digits 3) @ result_last ''local_sum'' (dec_digits 13) @ ''}'' @ [NL]))"
      "nd_task_profiles d' = nd_task_profiles d @ [generate_profile (coord_to_string (nd_coord d)) s]"
    unfolding ok(2,3) by (metis fun_upd_same)
  then show ?thesis using d(1) by (intro exI [of _ d] exI [of _ "m\<lparr>mc_files := (mc_files m)(?p d \<mapsto> ?b)\<rparr>"] exI [of _ s] exI [of _ d'] exI [of _ m']) simp
qed

section \<open>Where the results go\<close>

lemma dec_digits_cut:
  assumes "r = [] \<or> \<not> is_digit (hd r)" "r' = [] \<or> \<not> is_digit (hd r')"
  shows "dec_digits a @ r = dec_digits b @ r' \<longleftrightarrow> a = b \<and> r = r'"
  using take_digits_dec [OF assms(1), of a] take_digits_dec [OF assms(2), of b] by (metis Pair_inject dec_value_dec_digits)

lemmas dec_digits_cut_end = dec_digits_cut [where r = "[]" and r' = "[]", simplified]

lemma topo_dir_fits:
  assumes "length base \<le> 200"
  shows "topo_dir base c = base @ ''/L6_'' @ to_string_u (l6_idx c) @ ''/L5_'' @ to_string_u (l5_idx c) @
      ''/L4_'' @ to_string_u (l4_idx c) @ ''/L3_'' @ to_string_u (l3_idx c)"
proof -
  have "length (to_string_u x) \<le> 3" for x :: u8
    using length_dec_digits [of "unat x" 2] unsigned_less [of x, where ?'a = nat] by (simp add: to_string_u_def)
  note this [of "l6_idx c"] this [of "l5_idx c"] this [of "l4_idx c"]
  with assms length_l3 [of c] show ?thesis unfolding topo_dir_def by (intro snprintf_buf_fits) simp
qed

lemma radix_unique: "b < n \<Longrightarrow> b' < n \<Longrightarrow> a * n + b = a' * n + b' \<longleftrightarrow> a = a' \<and> b = b'" for a b n :: nat
  by (metis add.commute div_less div_mult_self1 add_left_cancel less_nat_zero_code mult.commute)

lemma host_number_radix:
  "host_number c = ((unat (l6_idx c) * 16 + unat (l5_idx c)) * 4 + unat (l4_idx c)) * 16 + unat (l3_idx c)"
  by (simp add: host_number_def)

lemma host_number_unique:
  assumes "l3_idx c < 16" "l4_idx c < 4" "l5_idx c < 16" "l3_idx c' < 16" "l4_idx c' < 4" "l5_idx c' < 16"
  shows "host_number c = host_number c' \<longleftrightarrow>
    l6_idx c = l6_idx c' \<and> l5_idx c = l5_idx c' \<and> l4_idx c = l4_idx c' \<and> l3_idx c = l3_idx c'"
proof -
  have "unat (l3_idx c) < 16" "unat (l4_idx c) < 4" "unat (l5_idx c) < 16" "unat (l3_idx c') < 16" "unat (l4_idx c') < 4" "unat (l5_idx c') < 16"
    using assms by (simp_all add: word_less_nat_alt)
  then have "host_number c = host_number c' \<longleftrightarrow> unat (l6_idx c) = unat (l6_idx c') \<and> unat (l5_idx c) = unat (l5_idx c') \<and>
      unat (l4_idx c) = unat (l4_idx c') \<and> unat (l3_idx c) = unat (l3_idx c')" unfolding host_number_radix by (simp only: radix_unique conj_assoc)
  then show ?thesis by (simp add: word_unat_eq_iff)
qed

text \<open>Which hosts write to the same place. The topology kernel gives every host of the cluster a directory of its own. The tensor and the ring kernel name the directory after the index within the pod
  alone, so hosts of different pods with the same index overwrite each other's result. The file system kernel numbers the hosts, and two hosts share a number, their data
  and their result only when an index is outside the 16 * 4 * 16 cluster the number is made for.\<close>

theorem result_directories:
  assumes "length base \<le> 200"
  shows "(topo_dir base c = topo_dir base c' \<longleftrightarrow>
      l6_idx c = l6_idx c' \<and> l5_idx c = l5_idx c' \<and> l4_idx c = l4_idx c' \<and> l3_idx c = l3_idx c') \<and>
    (host_dir base c = host_dir base c' \<longleftrightarrow> l3_idx c = l3_idx c') \<and>
    (dfs_data_path base c = dfs_data_path base c' \<longleftrightarrow> dfs_out_dir base c = dfs_out_dir base c') \<and>
    (l3_idx c < 16 \<and> l4_idx c < 4 \<and> l5_idx c < 16 \<and> l3_idx c' < 16 \<and> l4_idx c' < 4 \<and> l5_idx c' < 16 \<longrightarrow>
      (dfs_out_dir base c = dfs_out_dir base c' \<longleftrightarrow> topo_dir base c = topo_dir base c'))"
proof -
  have sl: "dec_digits a @ CHR ''/'' # r = dec_digits b @ CHR ''/'' # r' \<longleftrightarrow> a = b \<and> r = r'" for a b r r'
    using dec_digits_cut [of "CHR ''/'' # r" "CHR ''/'' # r'" a b] by (simp add: is_digit_def)
  have topo: "topo_dir base c = topo_dir base c' \<longleftrightarrow>
      l6_idx c = l6_idx c' \<and> l5_idx c = l5_idx c' \<and> l4_idx c = l4_idx c' \<and> l3_idx c = l3_idx c'"
    by (simp add: topo_dir_fits [OF assms] to_string_u_def sl dec_digits_cut_end word_unat_eq_iff)
  have base: "length base \<le> 400" using assms by simp
  have dfs: "dfs_out_dir base c = dfs_out_dir base c' \<longleftrightarrow> host_number c = host_number c'"
    by (simp add: dfs_paths(2) [OF base] dec_digits_cut_end)
  show ?thesis
    unfolding topo dfs host_dir_fits [OF assms] dfs_paths(1) [OF base]
    using host_number_unique [of c c'] by (auto simp: to_string_u_def dec_digits_cut_end sl word_unat_eq_iff)
qed

end
