(* ===== verification/Kernel_Abi.thy ===== *)
theory Kernel_Abi
  imports Linqu_Prelude
begin

text \<open>
  The binary interface between the runtime and the kernels. A kernel includes no header of the runtime: it repeats the
  declarations of linqu_orchestration_api.h and calls through a table of function pointers. So a slot of its copy has to be at the same place and have the same
  calling convention as the runtime's. Types are trees; sizes, alignments and offsets are those of the System V ABI of
  x86-64, where \<^verbatim>\<open>size_t\<close> has 8 bytes, an enumeration 4, and what a pointer points to does not matter.
\<close>

section \<open>C types and their layout\<close>

datatype cty =
    CVoid
  | CUint8
  | CUint16
  | CUint64
  | CSizeT
  | CInt
  | CEnum
  | CChar
  | CPtr cty
  | COpaque string
  | CStruct "(string \<times> cty) list"

definition align_up :: "nat \<Rightarrow> nat \<Rightarrow> nat" where
  "align_up a n = (n + a - 1) div a * a"

text \<open>The offsets of members of the given sizes and alignments, from a first free byte on, and the first free byte behind them.\<close>

fun place :: "nat \<Rightarrow> (nat \<times> nat) list \<Rightarrow> nat list \<times> nat" where
  "place pos [] = ([], pos)"
| "place pos ((sz, al) # ms) =
     (let off = align_up al pos; (offs, e) = place (off + sz) ms in (off # offs, e))"

text \<open>Size and alignment.\<close>

fun extent :: "cty \<Rightarrow> nat \<times> nat" where
  "extent CVoid = (0, 1)"
| "extent CUint8 = (1, 1)"
| "extent CUint16 = (2, 2)"
| "extent CUint64 = (8, 8)"
| "extent CSizeT = (8, 8)"
| "extent CInt = (4, 4)"
| "extent CEnum = (4, 4)"
| "extent CChar = (1, 1)"
| "extent (CPtr t) = (8, 8)"
| "extent (COpaque n) = (0, 1)"
| "extent (CStruct fs) =
     (let ms = map (\<lambda>(n, t). extent t) fs; al = foldr (max \<circ> snd) ms 1 in (align_up al (snd (place 0 ms)), al))"

text \<open>What the calling convention sees of a type: the bytes of a scalar, or where a structure has its scalars.\<close>

datatype aty =
    AVoid
  | AInteger nat
  | APointer
  | AStruct "(nat \<times> aty) list" nat

fun abi_of :: "cty \<Rightarrow> aty" where
  "abi_of CVoid = AVoid"
| "abi_of CUint8 = AInteger 1"
| "abi_of CUint16 = AInteger 2"
| "abi_of CUint64 = AInteger 8"
| "abi_of CSizeT = AInteger 8"
| "abi_of CInt = AInteger 4"
| "abi_of CEnum = AInteger 4"
| "abi_of CChar = AInteger 1"
| "abi_of (CPtr t) = APointer"
| "abi_of (COpaque n) = AVoid"
| "abi_of (CStruct fs) =
     AStruct (zip (fst (place 0 (map (\<lambda>(n, t). extent t) fs))) (map (\<lambda>(n, t). abi_of t) fs)) (fst (extent (CStruct fs)))"

text \<open>An entry of a table of operations.\<close>

record op_slot =
  os_name :: string
  os_result :: cty
  os_args :: "cty list"
  os_variadic :: bool

definition op :: "string \<Rightarrow> cty \<Rightarrow> cty list \<Rightarrow> op_slot" where
  "op name r args = \<lparr>os_name = name, os_result = r, os_args = args, os_variadic = False\<rparr>"

definition op_log :: "string \<Rightarrow> op_slot" where
  "op_log name = \<lparr>os_name = name, os_result = CVoid, os_args = [CPtr (COpaque ''LinquRuntime''), CPtr CChar], os_variadic = True\<rparr>"

definition op_abi :: "op_slot \<Rightarrow> string \<times> aty \<times> aty list \<times> bool" where
  "op_abi s = (os_name s, abi_of (os_result s), map abi_of (os_args s), os_variadic s)"

abbreviation CRuntime :: cty where
  "CRuntime \<equiv> CPtr (COpaque ''LinquRuntime'')"

section \<open>The header\<close>

text \<open>src/src/runtime/linqu_orchestration_api.h.\<close>

definition LinquCoordinate_C :: cty where
  "LinquCoordinate_C = CStruct [(''l6_idx'', CUint8), (''l5_idx'', CUint8), (''l4_idx'', CUint8), (''l3_idx'', CUint16),
     (''l2_idx'', CUint16), (''l1_idx'', CUint8), (''l0_idx'', CUint16)]"

definition LinquParam :: cty where
  "LinquParam = CStruct [(''type'', CEnum), (''handle'', CUint64), (''scalar_value'', CUint64)]"

definition LinquPeerList :: cty where
  "LinquPeerList = CStruct [(''peers'', CPtr LinquCoordinate_C), (''count'', CInt)]"

definition LinquSubTaskSpec :: cty where
  "LinquSubTaskSpec = CStruct [(''target'', LinquCoordinate_C), (''kernel_so'', CPtr CChar),
     (''private_params'', CPtr LinquParam), (''num_private_params'', CInt)]"

definition LinquOrchConfig :: cty where
  "LinquOrchConfig = CStruct [(''level'', CUint8), (''expected_arg_count'', CInt), (''role'', CUint8)]"

definition LinquRuntimeOps :: "op_slot list" where
  "LinquRuntimeOps =
     [op ''submit_task'' CVoid [CRuntime, LinquCoordinate_C, CPtr CChar, CPtr LinquParam, CInt],
      op ''scope_begin'' CVoid [CRuntime],
      op ''scope_end'' CVoid [CRuntime],
      op ''alloc_tensor'' CUint64 [CRuntime, LinquCoordinate_C, CSizeT],
      op ''free_tensor'' CVoid [CRuntime, CUint64],
      op ''orchestration_done'' CVoid [CRuntime],
      op ''reg_data'' CUint64 [CRuntime, LinquCoordinate_C, CPtr CVoid, CSizeT],
      op ''query_peers'' LinquPeerList [CRuntime, CUint8],
      op ''self_coord'' LinquCoordinate_C [CRuntime],
      op ''wait_all'' CVoid [CRuntime],
      op ''dump_ring_snapshot'' CVoid [CRuntime, CPtr CChar],
      op_log ''log_error'',
      op_log ''log_warn'',
      op_log ''log_info'',
      op_log ''log_debug'',
      op ''get_tensor_pool'' (CPtr CVoid) [CRuntime],
      op ''submit_task_group'' CVoid [CRuntime, CPtr CChar, CPtr LinquParam, CInt, CPtr LinquSubTaskSpec, CInt]]"

section \<open>The copies in the kernels\<close>

record kernel_decls =
  kd_config :: cty
  kd_coord :: cty
  kd_peers :: "cty option"
  kd_param :: "cty option"
  kd_ops :: "op_slot list"

text \<open>The structures as the kernels write them; \<^verbatim>\<open>type\<close> of a parameter is an \<^verbatim>\<open>int\<close> here.\<close>

definition copied_coordinate :: cty where
  "copied_coordinate = CStruct [(''l6_idx'', CUint8), (''l5_idx'', CUint8), (''l4_idx'', CUint8), (''l3_idx'', CUint16),
     (''l2_idx'', CUint16), (''l1_idx'', CUint8), (''l0_idx'', CUint16)]"

definition copied_config :: cty where
  "copied_config = CStruct [(''level'', CUint8), (''expected_arg_count'', CInt), (''role'', CUint8)]"

definition copied_peers :: cty where
  "copied_peers = CStruct [(''peers'', CPtr copied_coordinate), (''count'', CInt)]"

definition copied_param :: cty where
  "copied_param = CStruct [(''type'', CInt), (''handle'', CUint64), (''scalar_value'', CUint64)]"

text \<open>The table as the kernels write it, up to the parameters of a task and the peers.\<close>

definition copied_ops :: "cty \<Rightarrow> cty \<Rightarrow> op_slot list" where
  "copied_ops params peers =
     [op ''submit_task'' CVoid [CRuntime, copied_coordinate, CPtr CChar, params, CInt],
      op ''scope_begin'' CVoid [CRuntime],
      op ''scope_end'' CVoid [CRuntime],
      op ''alloc_tensor'' CUint64 [CRuntime, copied_coordinate, CSizeT],
      op ''free_tensor'' CVoid [CRuntime, CUint64],
      op ''orchestration_done'' CVoid [CRuntime],
      op ''reg_data'' CUint64 [CRuntime, copied_coordinate, CPtr CVoid, CSizeT],
      op ''query_peers'' peers [CRuntime, CUint8],
      op ''self_coord'' copied_coordinate [CRuntime],
      op ''wait_all'' CVoid [CRuntime],
      op ''dump_ring_snapshot'' CVoid [CRuntime, CPtr CChar],
      op_log ''log_error'',
      op_log ''log_warn'',
      op_log ''log_info'',
      op_log ''log_debug'',
      op ''get_tensor_pool'' (CPtr CVoid) [CRuntime]]"

text \<open>The kernels of levels 4 to 6 declare everything; those of level 3 neither the parameters nor the peers.\<close>

definition dispatch_decls :: kernel_decls where
  "dispatch_decls = \<lparr>kd_config = copied_config, kd_coord = copied_coordinate, kd_peers = Some copied_peers,
     kd_param = Some copied_param, kd_ops = copied_ops (CPtr copied_param) copied_peers\<rparr>"

definition host_decls :: kernel_decls where
  "host_decls = \<lparr>kd_config = copied_config, kd_coord = copied_coordinate, kd_peers = None, kd_param = None,
     kd_ops = copied_ops (CPtr CVoid) (CPtr CVoid)\<rparr>"

definition topo_L4_decls :: kernel_decls where
  "topo_L4_decls = dispatch_decls"

definition topo_L5_decls :: kernel_decls where
  "topo_L5_decls = dispatch_decls"

definition topo_L6_decls :: kernel_decls where
  "topo_L6_decls = dispatch_decls"

definition dag_L4_decls :: kernel_decls where
  "dag_L4_decls = dispatch_decls"

definition dag_L5_decls :: kernel_decls where
  "dag_L5_decls = dispatch_decls"

definition dag_L6_decls :: kernel_decls where
  "dag_L6_decls = dispatch_decls"

definition ring_L4_decls :: kernel_decls where
  "ring_L4_decls = dispatch_decls"

definition ring_L5_decls :: kernel_decls where
  "ring_L5_decls = dispatch_decls"

definition topo_L3_decls :: kernel_decls where
  "topo_L3_decls = host_decls"

definition dag_L3_decls :: kernel_decls where
  "dag_L3_decls = host_decls"

definition ring_L3_decls :: kernel_decls where
  "ring_L3_decls = host_decls"

definition dfs_L3_decls :: kernel_decls where
  "dfs_L3_decls = host_decls"

text \<open>The copies, each with the operations its entry calls.\<close>

definition dispatch_calls :: "string list" where
  "dispatch_calls = [''query_peers'', ''scope_begin'', ''submit_task'', ''scope_end'', ''wait_all'', ''log_info'', ''orchestration_done'']"

definition kernel_copies :: "(kernel_decls \<times> string list) list" where
  "kernel_copies =
     [(topo_L4_decls, dispatch_calls),
      (topo_L5_decls, dispatch_calls),
      (topo_L6_decls, dispatch_calls),
      (dag_L4_decls, dispatch_calls),
      (dag_L5_decls, dispatch_calls),
      (dag_L6_decls, dispatch_calls),
      (ring_L4_decls, dispatch_calls),
      (ring_L5_decls, dispatch_calls),
      (topo_L3_decls, [''self_coord'', ''log_info'', ''orchestration_done'']),
      (dag_L3_decls, [''self_coord'', ''scope_begin'', ''alloc_tensor'', ''free_tensor'', ''scope_end'', ''log_error'', ''log_info'', ''orchestration_done'']),
      (ring_L3_decls, [''self_coord'', ''scope_begin'', ''alloc_tensor'', ''free_tensor'', ''scope_end'', ''log_info'', ''orchestration_done'']),
      (dfs_L3_decls, [''self_coord'', ''log_error'', ''log_info'', ''orchestration_done''])]"

lemmas copy_defs = topo_L4_decls_def topo_L5_decls_def topo_L6_decls_def dag_L4_decls_def dag_L5_decls_def dag_L6_decls_def ring_L4_decls_def ring_L5_decls_def topo_L3_decls_def dag_L3_decls_def ring_L3_decls_def dfs_L3_decls_def dispatch_decls_def host_decls_def

lemmas c_type_defs = LinquCoordinate_C_def LinquParam_def LinquPeerList_def LinquSubTaskSpec_def LinquOrchConfig_def
  copied_coordinate_def copied_config_def copied_peers_def copied_param_def

section \<open>Layouts\<close>

lemma align_up_bounds:
  assumes "0 < a"
  shows "n \<le> align_up a n" "align_up a n < n + a" "a dvd align_up a n"
proof -
  have "align_up a n = n + a - 1 - (n + a - 1) mod a" by (simp add: align_up_def minus_mod_eq_div_mult)
  moreover have "(n + a - 1) mod a < a" using assms by simp
  ultimately show "n \<le> align_up a n" "align_up a n < n + a" by simp_all
  show "a dvd align_up a n" by (simp add: align_up_def)
qed

lemma place_Cons:
  "fst (place pos ((sz, al) # ms)) = align_up al pos # fst (place (align_up al pos + sz) ms)"
  "snd (place pos ((sz, al) # ms)) = snd (place (align_up al pos + sz) ms)"
  by (simp_all add: Let_def case_prod_beta)

lemma place_end: "\<forall>(sz, al) \<in> set ms. 0 < al \<Longrightarrow> pos \<le> snd (place pos ms)"
proof (induction ms arbitrary: pos)
  case Nil
  then show ?case by simp
next
  case (Cons m ms)
  obtain sz al where m: "m = (sz, al)" by (cases m)
  have "pos \<le> align_up al pos" using Cons.prems m by (intro align_up_bounds) auto
  moreover have "align_up al pos + sz \<le> snd (place (align_up al pos + sz) ms)" using Cons.IH Cons.prems by auto
  ultimately show ?case unfolding m place_Cons by linarith
qed

text \<open>Members are aligned, lie behind each other and before the end.\<close>

lemma place_sound:
  assumes "\<forall>(sz, al) \<in> set ms. 0 < al" "i < length ms"
  shows "snd (ms ! i) dvd fst (place pos ms) ! i \<and> pos \<le> fst (place pos ms) ! i \<and>
    fst (place pos ms) ! i + fst (ms ! i) \<le> snd (place pos ms) \<and>
    (\<forall>j < length ms. i < j \<longrightarrow> fst (place pos ms) ! i + fst (ms ! i) \<le> fst (place pos ms) ! j)"
  using assms
proof (induction ms arbitrary: pos i)
  case Nil
  then show ?case by simp
next
  case (Cons m ms)
  obtain sz al where m: "m = (sz, al)" by (cases m)
  let ?off = "align_up al pos"
  have al: "pos \<le> ?off" "al dvd ?off" using Cons.prems(1) m by (auto intro!: align_up_bounds)
  have rest: "\<forall>(sz, al) \<in> set ms. 0 < al" using Cons.prems(1) by simp
  note IH = Cons.IH [OF rest, where pos = "?off + sz"]
  show ?case
  proof (cases i)
    case 0
    have "?off + sz \<le> fst (place (?off + sz) ms) ! j" if "j < length ms" for j using IH [OF that] by simp
    then show ?thesis using al place_end [OF rest, of "?off + sz"] unfolding m 0 place_Cons by (auto simp: less_Suc_eq_0_disj)
  next
    case (Suc k)
    then have "k < length ms" using Cons.prems(2) by simp
    from IH [OF this] show ?thesis using al unfolding m Suc place_Cons by (auto simp: less_Suc_eq_0_disj)
  qed
qed

lemma extent_align: "0 < snd (extent t)"
proof (cases t)
  case (CStruct fs)
  have "0 < foldr (max \<circ> snd) ms 1" for ms :: "(nat \<times> nat) list" by (induction ms) auto
  then show ?thesis by (simp add: CStruct Let_def)
qed simp_all

text \<open>A structure holds its members: they are aligned, do not overlap and are inside.\<close>

lemma struct_sound:
  assumes "i < length fs" "offs = fst (place 0 (map (extent \<circ> snd) fs))"
  shows "snd (extent (snd (fs ! i))) dvd offs ! i" "offs ! i + fst (extent (snd (fs ! i))) \<le> fst (extent (CStruct fs))"
    "j < length fs \<Longrightarrow> i < j \<Longrightarrow> offs ! i + fst (extent (snd (fs ! i))) \<le> offs ! j"
proof -
  let ?ms = "map (extent \<circ> snd) fs"
  have pos: "\<forall>(sz, al) \<in> set ?ms. 0 < al" using extent_align by (auto simp: in_set_conv_nth) (metis snd_conv)
  note s = place_sound [OF pos, of i 0]
  have "map (\<lambda>(n, t). extent t) fs = ?ms" by auto
  then have "fst (extent (CStruct fs)) = align_up (snd (extent (CStruct fs))) (snd (place 0 ?ms))"
    by (simp only: extent.simps Let_def fst_conv snd_conv)
  then have "snd (place 0 ?ms) \<le> fst (extent (CStruct fs))" by (metis align_up_bounds(1) extent_align)
  then show "snd (extent (snd (fs ! i))) dvd offs ! i" "offs ! i + fst (extent (snd (fs ! i))) \<le> fst (extent (CStruct fs))"
    "j < length fs \<Longrightarrow> i < j \<Longrightarrow> offs ! i + fst (extent (snd (fs ! i))) \<le> offs ! j"
    using s assms by auto
qed

section \<open>Properties\<close>

lemma copied_struct_abi:
  "abi_of copied_config = abi_of LinquOrchConfig" "abi_of copied_coordinate = abi_of LinquCoordinate_C"
  "abi_of copied_peers = abi_of LinquPeerList" "abi_of copied_param = abi_of LinquParam"
  by (simp_all add: c_type_defs)

lemma copied_ops_abi:
  "map op_abi (copied_ops params peers) =
    (map op_abi (take 16 LinquRuntimeOps)) [0 := (''submit_task'', AVoid, [APointer, abi_of LinquCoordinate_C, APointer, abi_of params, AInteger 4], False),
      7 := (''query_peers'', abi_of peers, [APointer, AInteger 1], False)]"
  by (simp add: copied_ops_def LinquRuntimeOps_def op_abi_def op_def op_log_def copied_struct_abi)



end
